(* ===== verification/Prelude.thy ===== *)
theory Prelude
  imports Main "HOL-Library.Word" "HOL-Library.AList"
begin

text \<open>
  Shared vocabulary of the development: what a Rust call can do other than return a value
  (an \<open>Err\<close>, a panic, never returning), fixed-width integers, and the generic list and map
  lemmas the components share.

  A fallible Rust function returns \<open>'a res\<close>. \<open>Inl (Err e)\<close> is an \<open>anyhow\<close> error that
  travels up to \<open>main\<close>; \<open>Inl (Panic p)\<close> is a failed \<open>assert!\<close> or \<open>unwrap()\<close>;
  \<open>Inl Diverge\<close> is a loop that used up its fuel. The state a function leaves behind when it
  fails is not modelled: every caller in the program passes the failure on until the process
  ends.
\<close>

named_theorems res_simps \<open>how the result monad evaluates\<close>
named_theorems wrap_simps \<open>fixed-width integers inside their range\<close>

section \<open>Failures and results\<close>

text \<open>One constructor for each error message or call site that a caller can tell apart.\<close>

datatype error =
    Eof_Err_Msg            \<comment> \<open>util.rs: EOF unexpectedly reached\<close>
  | Io_Error               \<comment> \<open>a system call failed\<close>
  | Decode_Error           \<comment> \<open>prost or serde could not decode\<close>
  | Splice_Eof             \<comment> \<open>unix_pipe.rs: Reached EOF during splice()\<close>
  | Image_Eof_Unexpected   \<comment> \<open>extract.rs: Image EOF marker came unexpectedly\<close>
  | Unexpected_FileData
  | Unexpected_FileEof
  | Malformed_Marker
  | Data_After_Image_Eof
  | No_Shards_To_Read
  | Insert_Failed          \<comment> \<open>fs\_parallel.rs: could not insert file\<close>
  | Bad_Argument           \<comment> \<open>main.rs: a command-line check\<close>
  | Header_Missing         \<comment> \<open>image\_patcher.rs: Failed to read the CRIU image header\<close>
  | Header_Corrupted
  | Remap_Not_Found
  | Requested_Twice        \<comment> \<open>extract.rs: the image file is requested multiple times\<close>
  | Not_A_Pipe
  | No_Fd_Received

datatype panic =
    Assert_Failed
  | Unwrap_None
  | Index_Out_Of_Bounds
  | Key_Invalid            \<comment> \<open>slab: invalid key\<close>

datatype failure = Err error | Panic panic | Diverge

type_synonym 'a res = "failure + 'a"

fun rbind :: "'a res \<Rightarrow> ('a \<Rightarrow> 'b res) \<Rightarrow> 'b res" where
  "rbind (Inl e) f = Inl e"
| "rbind (Inr x) f = f x"

definition ensure :: "bool \<Rightarrow> error \<Rightarrow> unit res" where
  "ensure c e = (if c then Inr () else Inl (Err e))"

definition rassert :: "bool \<Rightarrow> unit res" where
  "rassert c = (if c then Inr () else Inl (Panic Assert_Failed))"

definition unwrap :: "'a option \<Rightarrow> 'a res" where
  "unwrap x = (case x of None \<Rightarrow> Inl (Panic Unwrap_None) | Some v \<Rightarrow> Inr v)"

definition ok_or :: "'a option \<Rightarrow> error \<Rightarrow> 'a res" where
  "ok_or x e = (case x of None \<Rightarrow> Inl (Err e) | Some v \<Rightarrow> Inr v)"

lemma ensure_simps [simp, res_simps]:
  "ensure True e = Inr ()" "ensure False e = Inl (Err e)"
  "ensure c e = Inr u \<longleftrightarrow> c"
  by (auto simp: ensure_def)

lemma rassert_simps [simp, res_simps]:
  "rassert True = Inr ()" "rassert False = Inl (Panic Assert_Failed)"
  "rassert c = Inr u \<longleftrightarrow> c"
  by (auto simp: rassert_def)

lemma unwrap_simps [simp, res_simps]:
  "unwrap None = Inl (Panic Unwrap_None)" "unwrap (Some v) = Inr v"
  "unwrap x = Inr v \<longleftrightarrow> x = Some v"
  by (auto simp: unwrap_def split: option.splits)

lemma ok_or_simps [simp, res_simps]:
  "ok_or None e = Inl (Err e)" "ok_or (Some v) e = Inr v"
  "ok_or x e = Inr v \<longleftrightarrow> x = Some v"
  by (auto simp: ok_or_def split: option.splits)

lemma rbind_Inr_iff [simp, res_simps]:
  "rbind r f = Inr y \<longleftrightarrow> (\<exists>x. r = Inr x \<and> f x = Inr y)"
  by (cases r) auto

lemma rbind_Inl_iff:
  "rbind r f = Inl e \<longleftrightarrow> r = Inl e \<or> (\<exists>x. r = Inr x \<and> f x = Inl e)"
  by (cases r) auto

lemma rbind_split:
  "P (rbind r f) \<longleftrightarrow> (\<forall>e. r = Inl e \<longrightarrow> P (Inl e)) \<and> (\<forall>x. r = Inr x \<longrightarrow> P (f x))"
  by (cases r) auto

lemma rbind_cong [fundef_cong]:
  "r = r' \<Longrightarrow> (\<And>x. r' = Inr x \<Longrightarrow> f x = g x) \<Longrightarrow> rbind r f = rbind r' g"
  by (cases r') auto

lemma Inr_split_pair:
  "(case p of (a, b) \<Rightarrow> f a b) = Inr y \<longleftrightarrow> (\<exists>a b. p = (a, b) \<and> f a b = Inr y)"
  by (cases p) auto

text \<open>
  \<open>holds_or fail r P\<close>: the result is a value with \<open>P\<close>, or a failure among \<open>fail\<close>. With
  \<open>fail = (\<lambda>_. False)\<close> it says that the call succeeds.
\<close>

definition holds_or :: "(failure \<Rightarrow> bool) \<Rightarrow> 'a res \<Rightarrow> ('a \<Rightarrow> bool) \<Rightarrow> bool" where
  "holds_or fail r P = (case r of Inl e \<Rightarrow> fail e | Inr x \<Rightarrow> P x)"

lemma holds_or_simps [simp, res_simps]:
  "holds_or fail (Inr x) P = P x" "holds_or fail (Inl e) P = fail e"
  by (simp_all add: holds_or_def)

lemma holds_or_bind:
  "holds_or fail r P \<Longrightarrow> (\<And>x. r = Inr x \<Longrightarrow> P x \<Longrightarrow> holds_or fail (f x) Q) \<Longrightarrow> holds_or fail (rbind r f) Q"
  by (cases r) auto

lemma holds_or_mono: "holds_or fail r P \<Longrightarrow> (\<And>x. P x \<Longrightarrow> Q x) \<Longrightarrow> holds_or fail r Q"
  by (cases r) auto

lemma holds_or_Inr: "holds_or fail r P \<Longrightarrow> r = Inr x \<Longrightarrow> P x"
  by simp

lemma holds_or_total: "holds_or (\<lambda>_. False) r P \<longleftrightarrow> (\<exists>x. r = Inr x \<and> P x)"
  by (cases r) auto

text \<open>\<open>try_for_each\<close> and \<open>collect::<Result<_>>\<close>: the first failure ends the traversal.\<close>

fun rmap :: "('a \<Rightarrow> 'b res) \<Rightarrow> 'a list \<Rightarrow> 'b list res" where
  "rmap f [] = Inr []"
| "rmap f (x # xs) = rbind (f x) (\<lambda>y. rbind (rmap f xs) (\<lambda>ys. Inr (y # ys)))"

lemma rmap_Inr_length: "rmap f xs = Inr ys \<Longrightarrow> length ys = length xs"
  by (induction xs arbitrary: ys) auto

lemma rmap_Inr_nth:
  "rmap f xs = Inr ys \<Longrightarrow> i < length xs \<Longrightarrow> f (xs ! i) = Inr (ys ! i)"
proof (induction xs arbitrary: ys i)
  case Nil
  then show ?case by simp
next
  case (Cons x xs)
  then show ?case by (cases i) auto
qed

lemma rmap_total: "(\<And>x. x \<in> set xs \<Longrightarrow> \<exists>y. f x = Inr y) \<Longrightarrow> \<exists>ys. rmap f xs = Inr ys"
proof (induction xs)
  case Nil
  then show ?case by simp
next
  case (Cons x xs)
  then obtain y ys where "f x = Inr y" "rmap f xs = Inr ys"
    by (metis list.set_intros(1) list.set_intros(2))
  then show ?case by simp
qed

lemma rmap_Inr_map: "rmap (\<lambda>x. Inr (g x)) xs = Inr (map g xs)"
  by (induction xs) auto

section \<open>Machine integers\<close>

text \<open>
  \<open>u64\<close> and \<open>u32\<close> values are natural numbers with the wrap-around of the release build
  written out; \<open>i32\<close> values are integers, wrapped by \<open>i32\<close>. The Makefile builds with
  \<open>--release\<close>, where Rust's arithmetic wraps instead of panicking.
\<close>

type_synonym byte = "8 word"

definition u64_add :: "nat \<Rightarrow> nat \<Rightarrow> nat" where
  "u64_add a b = (a + b) mod 2 ^ 64"

definition as_u32 :: "int \<Rightarrow> nat" where
  "as_u32 x = nat (x mod 2 ^ 32)"

definition i32 :: "int \<Rightarrow> int" where
  "i32 x = signed_take_bit 31 x"

definition i64 :: "int \<Rightarrow> int" where
  "i64 x = signed_take_bit 63 x"

definition KB :: nat where "KB = 1024"
definition MB :: nat where "MB = 1024 * 1024"

lemma u64_add_small [wrap_simps]: "a + b < 2 ^ 64 \<Longrightarrow> u64_add a b = a + b"
  by (simp add: u64_add_def)

lemma u64_add_lt: "u64_add a b < 2 ^ 64"
  by (simp add: u64_add_def)

lemma u64_add_bound [simp]: "u64_add a b < 18446744073709551616"
  using u64_add_lt [of a b] by simp

lemma as_u32_small [wrap_simps]: "0 \<le> x \<Longrightarrow> x < 2 ^ 32 \<Longrightarrow> as_u32 x = nat x"
  by (simp add: as_u32_def)

lemma as_u32_lt: "as_u32 x < 2 ^ 32"
proof -
  have "x mod 2 ^ 32 < 2 ^ 32" by simp
  then show ?thesis by (simp add: as_u32_def nat_less_iff)
qed

lemma i32_small [wrap_simps]: "- (2 ^ 31) \<le> x \<Longrightarrow> x < 2 ^ 31 \<Longrightarrow> i32 x = x"
  by (simp add: i32_def signed_take_bit_int_eq_self_iff)

lemma i64_small [wrap_simps]: "- (2 ^ 63) \<le> x \<Longrightarrow> x < 2 ^ 63 \<Longrightarrow> i64 x = x"
  by (simp add: i64_def signed_take_bit_int_eq_self_iff)

lemma i32_range: "- (2 ^ 31) \<le> i32 x" "i32 x < 2 ^ 31"
  unfolding i32_def
  by (rule signed_take_bit_int_greater_eq_minus_exp)
     (rule signed_take_bit_int_less_exp)

section \<open>Lists and maps\<close>

lemma map_of_empty_iff: "map_of al = Map.empty \<longleftrightarrow> al = []"
  by (cases al) (auto simp: fun_eq_iff intro: exI [of _ "fst (hd al)"])

lemma delete_Nil_iff: "AList.delete k al = [] \<longleftrightarrow> dom (map_of al) \<subseteq> {k}"
proof -
  have "AList.delete k al = [] \<longleftrightarrow> dom (map_of (AList.delete k al)) = {}"
    by (simp add: map_of_empty_iff)
  then show ?thesis by (auto simp: delete_conv')
qed

lemma concat_append_snoc: "concat (xs @ [x]) = concat xs @ x"
  by simp

end
