(* ===== verification/Bytes.thy ===== *)
theory Bytes
  imports Prelude
begin

text \<open>
  Byte streams and the length-prefixed protobuf framing of \<open>src/util.rs\<close>
  (\<open>read_bytes_next\<close>, \<open>pb_read_next\<close>, \<open>pb_read\<close>, \<open>pb_write\<close>).

  A \<open>reader\<close> is everything a blocking reader will deliver before EOF, and whether the stream
  ends in a read error instead. A \<open>sink\<close> is everything written so far, and how many more
  bytes the other side accepts before writes fail (\<open>None\<close>: it never fails). The protobuf
  library is not part of the repository: \<open>enc\<close> and \<open>dec\<close> stand for prost's
  \<open>Message::encode\<close> and \<open>Message::decode\<close> and are arguments of every definition that uses
  them; the locale \<open>msg_codec\<close> states what the code relies on.
\<close>

section \<open>Streams\<close>

record reader =
  avail :: "byte list"
  broken :: bool

record sink =
  written :: "byte list"
  room :: "nat option"

text \<open>\<open>src.take(len).read_to_end(&mut buf)\<close>: up to \<open>len\<close> bytes, fewer only at EOF.\<close>

definition take_read_to_end :: "reader \<Rightarrow> nat \<Rightarrow> (byte list \<times> reader) res" where
  "take_read_to_end r n =
     (if n \<le> length (avail r) then Inr (take n (avail r), r\<lparr>avail := drop n (avail r)\<rparr>)
      else if broken r then Inl (Err Io_Error)
      else Inr (avail r, r\<lparr>avail := []\<rparr>))"

text \<open>\<open>read_exact\<close>: all \<open>n\<close> bytes or an error.\<close>

definition read_exact :: "reader \<Rightarrow> nat \<Rightarrow> (byte list \<times> reader) res" where
  "read_exact r n =
     (if n \<le> length (avail r) then Inr (take n (avail r), r\<lparr>avail := drop n (avail r)\<rparr>)
      else Inl (Err Io_Error))"

definition write_all :: "sink \<Rightarrow> byte list \<Rightarrow> sink res" where
  "write_all w bs =
     (case room w of
        None \<Rightarrow> Inr (w\<lparr>written := written w @ bs\<rparr>)
      | Some k \<Rightarrow>
          if length bs \<le> k
          then Inr (w\<lparr>written := written w @ bs, room := Some (k - length bs)\<rparr>)
          else Inl (Err Io_Error))"

lemma take_read_to_end_append [simp]:
  "n = length bs \<Longrightarrow>
   take_read_to_end \<lparr>avail = bs @ rest, broken = b\<rparr> n = Inr (bs, \<lparr>avail = rest, broken = b\<rparr>)"
  by (simp add: take_read_to_end_def)

lemma read_exact_append [simp]:
  "n = length bs \<Longrightarrow>
   read_exact \<lparr>avail = bs @ rest, broken = b\<rparr> n = Inr (bs, \<lparr>avail = rest, broken = b\<rparr>)"
  by (simp add: read_exact_def)

lemma take_read_to_end_shrinks:
  "take_read_to_end r n = Inr (bs, r') \<Longrightarrow>
   avail r = bs @ avail r' \<and> broken r' = broken r \<and> length bs \<le> n"
  by (auto simp: take_read_to_end_def split: if_splits)

lemma read_exact_shrinks:
  "read_exact r n = Inr (bs, r') \<Longrightarrow>
   avail r = bs @ avail r' \<and> broken r' = broken r \<and> length bs = n"
  by (auto simp: read_exact_def split: if_splits)

lemma write_all_written: "write_all w bs = Inr w' \<Longrightarrow> written w' = written w @ bs"
  by (auto simp: write_all_def split: option.splits if_splits)

lemma write_all_unlimited:
  "room w = None \<Longrightarrow> write_all w bs = Inr (w\<lparr>written := written w @ bs\<rparr>)"
  by (simp add: write_all_def)

lemma write_all_room: "write_all w bs = Inr w' \<Longrightarrow> room w = None \<Longrightarrow> room w' = None"
  by (auto simp: write_all_def)

section \<open>Little-endian 32-bit integers (the bytes crate's Buf and BufMut)\<close>

definition put_u32_le :: "nat \<Rightarrow> byte list" where
  "put_u32_le n = map (\<lambda>i. word_of_nat (n div 256 ^ i)) [0..<4]"

definition get_u32_le :: "byte list \<Rightarrow> (nat \<times> byte list) res" where
  "get_u32_le bs =
     (if length bs < 4 then Inl (Panic Assert_Failed)
      else Inr (unat (bs ! 0) + 256 * unat (bs ! 1) + 256 ^ 2 * unat (bs ! 2)
                + 256 ^ 3 * unat (bs ! 3), drop 4 bs))"

lemma put_u32_le_expand:
  "put_u32_le n = [word_of_nat n, word_of_nat (n div 256), word_of_nat (n div 65536),
                   word_of_nat (n div 16777216)]"
  by (simp add: put_u32_le_def upt_rec)

lemma length_put_u32_le [simp]: "length (put_u32_le n) = 4"
  by (simp add: put_u32_le_def)

lemma get_u32_le_Cons4:
  "get_u32_le (a # b # c # d # rest)
   = Inr (unat a + 256 * unat b + 65536 * unat c + 16777216 * unat d, rest)"
proof -
  have "drop 4 (a # b # c # d # rest) = rest" by (simp add: eval_nat_numeral)
  moreover have "(a # b # c # d # rest) ! 3 = d" by (simp add: eval_nat_numeral)
  ultimately show ?thesis by (simp add: get_u32_le_def nth_Cons')
qed

lemma get_put_u32_le:
  assumes "n < 2 ^ 32"
  shows "get_u32_le (put_u32_le n @ rest) = Inr (n, rest)"
proof -
  define a b c where abc: "a = n div 256" "b = a div 256" "c = b div 256"
  have div_eqs: "n div 65536 = b" "n div 16777216 = c"
    by (simp_all add: abc div_mult2_eq [symmetric])
  have "c < 256" using assms by (simp add: abc div_mult2_eq [symmetric])
  moreover have "n = n mod 256 + 256 * a" "a = a mod 256 + 256 * b" "b = b mod 256 + 256 * c"
    by (simp_all add: abc)
  ultimately have "n mod 256 + 256 * (n div 256 mod 256) + 65536 * (n div 65536 mod 256)
        + 16777216 * (n div 16777216 mod 256) = n"
    unfolding div_eqs abc(1) [symmetric] by simp
  moreover have "unat (word_of_nat k :: byte) = k mod 256" for k
    by (simp add: unat_of_nat)
  ultimately show ?thesis
    by (simp only: put_u32_le_expand append_Cons append_Nil get_u32_le_Cons4)
qed

section \<open>Framed messages\<close>

definition read_bytes_next :: "reader \<Rightarrow> nat \<Rightarrow> (byte list option \<times> reader) res" where
  "read_bytes_next src len =
     rbind (take_read_to_end src len) (\<lambda>(buf, src').
       if length buf = 0 \<and> len = 0 then Inr (Some buf, src')
       else if length buf = 0 then Inr (None, src')
       else if length buf = len then Inr (Some buf, src')
       else Inl (Err Eof_Err_Msg))"

definition pb_read_next ::
  "(byte list \<Rightarrow> 'm option) \<Rightarrow> reader \<Rightarrow> (('m \<times> nat) option \<times> reader) res" where
  "pb_read_next dec src =
     rbind (read_bytes_next src 4) (\<lambda>(sz, src1).
       case sz of
         None \<Rightarrow> Inr (None, src1)
       | Some size_buf0 \<Rightarrow>
           rbind (get_u32_le size_buf0) (\<lambda>(size, size_buf).
           rbind (rassert (size < 10 * KB)) (\<lambda>_.
           rbind (read_bytes_next src1 size) (\<lambda>(b, src2).
           rbind (ok_or b Eof_Err_Msg) (\<lambda>buf.
             let bytes_read = 4 + length size_buf + length buf in
             rbind (ok_or (dec buf) Decode_Error) (\<lambda>obj.
               Inr (Some (obj, bytes_read), src2)))))))"

definition pb_read :: "(byte list \<Rightarrow> 'm option) \<Rightarrow> reader \<Rightarrow> ('m \<times> reader) res" where
  "pb_read dec src =
     rbind (pb_read_next dec src) (\<lambda>(r, src').
       case r of None \<Rightarrow> Inl (Err Eof_Err_Msg) | Some (obj, _) \<Rightarrow> Inr (obj, src'))"

definition pb_write :: "('m \<Rightarrow> byte list) \<Rightarrow> sink \<Rightarrow> 'm \<Rightarrow> (sink \<times> nat) res" where
  "pb_write enc dst msg =
     (let msg_size = length (enc msg) in
      rbind (rassert (msg_size < 10 * KB)) (\<lambda>_.
        let buf = put_u32_le msg_size @ enc msg in
        rbind (write_all dst buf) (\<lambda>dst'. Inr (dst', length buf))))"

text \<open>The bytes of one framed message.\<close>

definition frame :: "('m \<Rightarrow> byte list) \<Rightarrow> 'm \<Rightarrow> byte list" where
  "frame enc m = put_u32_le (length (enc m)) @ enc m"

lemma length_frame [simp]: "length (frame enc m) = 4 + length (enc m)"
  by (simp add: frame_def)

lemma frame_neq_Nil [simp]: "frame enc m \<noteq> []"
  by (simp add: frame_def put_u32_le_expand)

lemma pb_write_Inr:
  "pb_write enc w m = Inr (w', n) \<longleftrightarrow>
   length (enc m) < 10 * KB \<and> write_all w (frame enc m) = Inr w' \<and> n = 4 + length (enc m)"
  by (auto simp: pb_write_def frame_def Let_def)

lemma read_bytes_next_exact:
  "n = length bs \<Longrightarrow>
   read_bytes_next \<lparr>avail = bs @ rest, broken = b\<rparr> n = Inr (Some bs, \<lparr>avail = rest, broken = b\<rparr>)"
  by (simp add: read_bytes_next_def)

lemma read_bytes_next_eof:
  "0 < n \<Longrightarrow> read_bytes_next \<lparr>avail = [], broken = False\<rparr> n
     = Inr (None, \<lparr>avail = [], broken = False\<rparr>)"
  by (simp add: read_bytes_next_def take_read_to_end_def)

lemma read_bytes_next_shrinks:
  "read_bytes_next r n = Inr (x, r') \<Longrightarrow>
   avail r = (case x of None \<Rightarrow> [] | Some bs \<Rightarrow> bs) @ avail r' \<and> broken r' = broken r
   \<and> (case x of None \<Rightarrow> avail r' = [] \<and> 0 < n | Some bs \<Rightarrow> length bs = n)"
  by (auto simp: read_bytes_next_def take_read_to_end_def split: if_splits)

lemma pb_read_next_eof:
  "pb_read_next dec \<lparr>avail = [], broken = False\<rparr> = Inr (None, \<lparr>avail = [], broken = False\<rparr>)"
  by (simp add: pb_read_next_def read_bytes_next_eof)

lemma pb_read_next_frame:
  assumes "length (enc m) < 10 * KB" and "dec (enc m) = Some m"
  shows "pb_read_next dec \<lparr>avail = frame enc m @ rest, broken = b\<rparr>
         = Inr (Some (m, 4 + length (enc m)), \<lparr>avail = rest, broken = b\<rparr>)"
proof -
  have lt: "length (enc m) < 2 ^ 32" using assms(1) by (simp add: KB_def)
  have "get_u32_le (put_u32_le (length (enc m))) = Inr (length (enc m), [])"
    using get_put_u32_le [OF lt, of "[]"] by simp
  then show ?thesis
    using assms by (simp add: pb_read_next_def frame_def read_bytes_next_exact Let_def)
qed

text \<open>Reading a message consumes its frame, at least four bytes; at EOF it consumes nothing.\<close>

lemma pb_read_next_consumes:
  assumes "pb_read_next dec r = Inr (x, r')"
  shows "case x of
           None \<Rightarrow> avail r = [] \<and> avail r' = [] \<and> broken r' = broken r
         | Some (m, n) \<Rightarrow> length (avail r) = n + length (avail r') \<and> 4 \<le> n \<and> broken r' = broken r"
proof -
  from assms obtain sz r1 where sz: "read_bytes_next r 4 = Inr (sz, r1)"
    by (auto simp: pb_read_next_def)
  note s1 = read_bytes_next_shrinks [OF sz]
  show ?thesis
  proof (cases sz)
    case None
    with assms sz s1 show ?thesis by (auto simp: pb_read_next_def)
  next
    case (Some sb)
    with assms sz obtain size rest b r2 buf obj where
      g: "get_u32_le sb = Inr (size, rest)" and b: "read_bytes_next r1 size = Inr (b, r2)"
      and x: "b = Some buf" "x = Some (obj, 4 + length rest + length buf)" "r' = r2"
      by (fastforce simp: pb_read_next_def Let_def)
    have "length rest = 0" using g s1 Some by (auto simp: get_u32_le_def split: if_splits)
    with read_bytes_next_shrinks [OF b] s1 Some x show ?thesis by auto
  qed
qed

section \<open>The contract of a message codec\<close>

text \<open>
  What the program relies on: on the messages it sends (\<open>msg_ok\<close>) decoding gives back what
  was encoded, and the encoding stays under the 10 KB limit that \<open>pb_write\<close> and
  \<open>pb_read_next\<close> assert.
\<close>

locale msg_codec =
  fixes enc :: "'m \<Rightarrow> byte list"
    and dec :: "byte list \<Rightarrow> 'm option"
    and msg_ok :: "'m \<Rightarrow> bool"
  assumes dec_enc: "msg_ok m \<Longrightarrow> dec (enc m) = Some m"
    and enc_small: "msg_ok m \<Longrightarrow> length (enc m) < 10 * KB"
begin

lemma read_frame:
  "msg_ok m \<Longrightarrow> pb_read_next dec \<lparr>avail = frame enc m @ rest, broken = b\<rparr>
     = Inr (Some (m, 4 + length (enc m)), \<lparr>avail = rest, broken = b\<rparr>)"
  by (rule pb_read_next_frame) (auto simp: dec_enc enc_small)

lemma write_frame:
  "msg_ok m \<Longrightarrow> room w = None \<Longrightarrow>
   pb_write enc w m = Inr (w\<lparr>written := written w @ frame enc m\<rparr>, 4 + length (enc m))"
  by (simp add: pb_write_Inr enc_small write_all_unlimited)

text \<open>What one side writes the other side reads back, whatever follows it on the stream.\<close>

lemma write_then_read:
  assumes "msg_ok m" and "pb_write enc w m = Inr (w', n)" and "written w = []"
  shows "pb_read_next dec \<lparr>avail = written w' @ rest, broken = b\<rparr>
         = Inr (Some (m, n), \<lparr>avail = rest, broken = b\<rparr>)"
  using assms by (auto simp: pb_write_Inr read_frame dest!: write_all_written)

end

section \<open>Properties\<close>

text \<open>C37: framing round trip. A message written with \<open>pb_write\<close> is what \<open>pb_read_next\<close> reads back, with
  the number of bytes the writer reported, and what follows the frame is left in the stream.\<close>

theorem frame_roundtrip:
  assumes "msg_codec enc dec msg_ok" and "msg_ok m"
    and "pb_write enc w m = Inr (w', n)" and "written w = []"
  shows "pb_read_next dec \<lparr>avail = written w' @ rest, broken = b\<rparr>
         = Inr (Some (m, n), \<lparr>avail = rest, broken = b\<rparr>)"
  by (rule msg_codec.write_then_read [OF assms])

theorem frame_roundtrip_witness:
  "pb_read_next Some \<lparr>avail = [2, 0, 0, 0, 7, 8, 9], broken = False\<rparr>
   = Inr (Some ([7, 8], 6), \<lparr>avail = [9], broken = False\<rparr>)"
proof -
  have "msg_codec (\<lambda>bs. bs) Some (\<lambda>bs. length bs < 100)" by unfold_locales (simp_all add: KB_def)
  moreover have "pb_write (\<lambda>bs. bs) \<lparr>written = [], room = None\<rparr> [7, 8]
      = Inr (\<lparr>written = [2, 0, 0, 0, 7, 8], room = None\<rparr>, 6)"
    by (simp add: pb_write_def KB_def write_all_def put_u32_le_expand rassert_def)
  ultimately show ?thesis using frame_roundtrip [of "\<lambda>bs. bs" Some _ "[7, 8]"] by fastforce
qed

text \<open>A stream that ends inside a frame is an error, wherever it is cut: only an empty stream is
  taken for the end.\<close>

theorem truncated_frame_is_an_error:
  assumes "length (enc m) < 10 * KB" and "0 < k" and "k < length (frame enc m)"
  shows "pb_read_next dec \<lparr>avail = take k (frame enc m), broken = False\<rparr> = Inl (Err Eof_Err_Msg)"
proof (cases "k < 4")
  case True
  then have "length (take k (frame enc m)) = k" using assms(3) by simp
  with True assms(2) show ?thesis
    by (simp add: pb_read_next_def read_bytes_next_def take_read_to_end_def)
next
  case False
  define j where "j = k - 4"
  have j: "j < length (enc m)" "take k (frame enc m) = put_u32_le (length (enc m)) @ take j (enc m)"
    using False assms(3) by (auto simp: j_def frame_def)
  have "length (enc m) < 2 ^ 32" "enc m \<noteq> []" using assms(1) j(1) by (auto simp: KB_def)
  with get_put_u32_le [of "length (enc m)" "[]"] assms(1) j
    read_bytes_next_exact [of 4 "put_u32_le (length (enc m))" "take j (enc m)"]
  show ?thesis
    by (simp add: pb_read_next_def rassert_def read_bytes_next_def [of _ "length (enc m)"]
         take_read_to_end_def ok_or_def)
qed

theorem truncated_frame_is_an_error_witness:
  "pb_read_next Some \<lparr>avail = [2, 0, 0, 0, 7], broken = False\<rparr> = Inl (Err Eof_Err_Msg)"
  using truncated_frame_is_an_error [of "\<lambda>bs :: byte list. bs" "[7, 8]" 5 Some]
  by (simp add: frame_def put_u32_le_expand KB_def)

end
