(* ===== verification/Proto_Marker.thy ===== *)
theory Proto_Marker
  imports Bytes
begin

text \<open>
  The chunk markers of \<open>src/proto/image.proto\<close> as the generated Rust types have them, and a
  concrete codec for them that follows the protobuf wire format (varint field keys, proto3
  defaults left out, a oneof field always written). The development never assumes that prost is
  this codec: every definition takes the codec as an argument. The concrete one shows that the
  contract \<open>msg_codec\<close> can hold, and makes the witnesses executable.
\<close>

section \<open>Markers\<close>

datatype body =
    Filename string
  | FileData nat
  | FileEof bool
  | ImageEof bool

record marker =
  mseq :: nat
  mbody :: "body option"

abbreviation mk_marker :: "nat \<Rightarrow> body \<Rightarrow> marker" where
  "mk_marker n b \<equiv> \<lparr>mseq = n, mbody = Some b\<rparr>"

text \<open>The messages whose fields fit their wire types and whose encoding stays under 10 KB.\<close>

fun body_ok :: "body \<Rightarrow> bool" where
  "body_ok (Filename f) \<longleftrightarrow> length f \<le> 10000"
| "body_ok (FileData n) \<longleftrightarrow> n < 2 ^ 32"
| "body_ok (FileEof b) \<longleftrightarrow> True"
| "body_ok (ImageEof b) \<longleftrightarrow> True"

definition marker_ok :: "marker \<Rightarrow> bool" where
  "marker_ok m \<longleftrightarrow> mseq m < 2 ^ 64 \<and> (case mbody m of None \<Rightarrow> True | Some b \<Rightarrow> body_ok b)"

section \<open>A concrete codec\<close>

definition byte_of_char :: "char \<Rightarrow> byte" where
  "byte_of_char c = word_of_nat (of_char c)"

definition char_of_byte :: "byte \<Rightarrow> char" where
  "char_of_byte b = char_of (unat b)"

lemma char_of_byte_of_char [simp]: "char_of_byte (byte_of_char c) = c"
  by (simp add: char_of_byte_def byte_of_char_def unat_of_nat of_char_mod_256)

lemma char_of_byte_comp [simp]: "char_of_byte \<circ> byte_of_char = id"
  by (simp add: fun_eq_iff)

lemma map_char_of_byte [simp]: "map char_of_byte (map byte_of_char s) = s"
  by (induction s) auto

fun varint :: "nat \<Rightarrow> byte list" where
  "varint n = (if n < 128 then [word_of_nat n]
               else word_of_nat (128 + n mod 128) # varint (n div 128))"

declare varint.simps [simp del]

fun unvarint :: "byte list \<Rightarrow> (nat \<times> byte list) option" where
  "unvarint [] = None"
| "unvarint (b # bs) =
     (if unat b < 128 then Some (unat b, bs)
      else case unvarint bs of
             None \<Rightarrow> None
           | Some (v, r) \<Rightarrow> Some (unat b - 128 + 128 * v, r))"

lemma unvarint_varint [simp]: "unvarint (varint n @ rest) = Some (n, rest)"
proof (induction n rule: varint.induct)
  case (1 n)
  show ?case
  proof (cases "n < 128")
    case True
    then show ?thesis by (simp add: varint.simps [of n] unat_of_nat)
  next
    case False
    have "unat (word_of_nat (128 + n mod 128) :: byte) = 128 + n mod 128"
      by (simp add: unat_of_nat del: of_nat_add)
    with False "1.IH" show ?thesis by (simp add: varint.simps [of n] del: of_nat_add)
  qed
qed

lemma length_varint: "n < 128 ^ Suc k \<Longrightarrow> length (varint n) \<le> Suc k"
proof (induction k arbitrary: n)
  case 0
  then show ?case by (simp add: varint.simps [of n])
next
  case (Suc k)
  then have "n div 128 < 128 ^ Suc k" by (simp add: less_mult_imp_div_less mult.commute)
  then have "length (varint (n div 128)) \<le> Suc k" by (rule Suc.IH)
  then show ?case by (simp add: varint.simps [of n])
qed

fun enc_body :: "body \<Rightarrow> byte list" where
  "enc_body (Filename f) = 0x12 # varint (length f) @ map byte_of_char f"
| "enc_body (FileData n) = 0x18 # varint n"
| "enc_body (FileEof b) = [0x20, if b then 1 else 0]"
| "enc_body (ImageEof b) = [0x28, if b then 1 else 0]"

definition enc_marker :: "marker \<Rightarrow> byte list" where
  "enc_marker m =
     (if mseq m = 0 then [] else 0x08 # varint (mseq m))
     @ (case mbody m of None \<Rightarrow> [] | Some b \<Rightarrow> enc_body b)"

text \<open>One field after another; the fuel is the length of the input.\<close>

fun dec_fields :: "nat \<Rightarrow> byte list \<Rightarrow> marker \<Rightarrow> marker option" where
  "dec_fields k [] m = Some m"
| "dec_fields 0 (t # bs) m = None"
| "dec_fields (Suc k) (t # bs) m =
     (case unvarint bs of
        None \<Rightarrow> None
      | Some (v, r) \<Rightarrow>
          if t = 0x08 then dec_fields k r (m\<lparr>mseq := v mod 2 ^ 64\<rparr>)
          else if t = 0x12 then
            (if v \<le> length r
             then dec_fields k (drop v r)
                    (m\<lparr>mbody := Some (Filename (map char_of_byte (take v r)))\<rparr>)
             else None)
          else if t = 0x18 then dec_fields k r (m\<lparr>mbody := Some (FileData (v mod 2 ^ 32))\<rparr>)
          else if t = 0x20 then dec_fields k r (m\<lparr>mbody := Some (FileEof (v \<noteq> 0))\<rparr>)
          else if t = 0x28 then dec_fields k r (m\<lparr>mbody := Some (ImageEof (v \<noteq> 0))\<rparr>)
          else None)"

definition dec_marker :: "byte list \<Rightarrow> marker option" where
  "dec_marker bs = dec_fields (length bs) bs \<lparr>mseq = 0, mbody = None\<rparr>"

lemma unvarint_bool: "unvarint [if b then 1 else 0] = Some (if b then 1 else 0, [])"
  by simp

lemma dec_fields_body:
  "body_ok b \<Longrightarrow> dec_fields (Suc k) (enc_body b) m = Some (m\<lparr>mbody := Some b\<rparr>)"
  using unvarint_varint [where rest = "[]"]
  by (cases b) (simp_all add: unvarint_bool)

lemma dec_fields_seq:
  "n < 2 ^ 64 \<Longrightarrow>
   dec_fields (Suc k) (0x08 # varint n @ rest) m = dec_fields k rest (m\<lparr>mseq := n\<rparr>)"
  by simp

lemma length_enc_body_pos: "0 < length (enc_body b)"
  by (cases b) auto

lemma dec_enc_marker: "marker_ok m \<Longrightarrow> dec_marker (enc_marker m) = Some m"
proof -
  assume ok: "marker_ok m"
  define b where "b = (case mbody m of None \<Rightarrow> [] | Some b \<Rightarrow> enc_body b)"
  have body: "dec_fields k b m' = Some m"
    if "length b \<le> k" and "m' = \<lparr>mseq = mseq m, mbody = None\<rparr>" for k m'
  proof (cases "mbody m")
    case None
    with that show ?thesis by (simp add: b_def)
  next
    case (Some bd)
    with that length_enc_body_pos [of bd] obtain k' where "k = Suc k'"
      by (cases k) (auto simp: b_def)
    with that Some ok show ?thesis by (simp add: b_def dec_fields_body marker_ok_def)
  qed
  show ?thesis
  proof (cases "mseq m = 0")
    case True
    then show ?thesis by (simp add: dec_marker_def enc_marker_def body flip: b_def)
  next
    case False
    let ?k = "length (varint (mseq m) @ b)"
    have "dec_marker (enc_marker m)
          = dec_fields (Suc ?k) (0x08 # varint (mseq m) @ b) \<lparr>mseq = 0, mbody = None\<rparr>"
      using False by (simp add: dec_marker_def enc_marker_def flip: b_def)
    also have "\<dots> = dec_fields ?k b \<lparr>mseq = mseq m, mbody = None\<rparr>"
      using ok by (subst dec_fields_seq) (simp_all add: marker_ok_def)
    also have "\<dots> = Some m" by (rule body) simp_all
    finally show ?thesis .
  qed
qed

lemma length_enc_marker:
  assumes "marker_ok m"
  shows "length (enc_marker m) < 10 * KB"
proof -
  have "length (varint (mseq m)) \<le> Suc 9"
    using assms by (intro length_varint) (simp add: marker_ok_def)
  moreover have "length (enc_body b) \<le> 10003" if "mbody m = Some b" for b
  proof (cases b)
    case (Filename f)
    with assms that have "length (varint (length f)) \<le> Suc 1"
      by (intro length_varint) (simp add: marker_ok_def)
    with Filename assms that show ?thesis by (simp add: marker_ok_def)
  next
    case (FileData n)
    with assms that have "length (varint n) \<le> Suc 4"
      by (intro length_varint) (simp add: marker_ok_def)
    with FileData show ?thesis by simp
  qed auto
  ultimately show ?thesis
    by (auto simp: enc_marker_def KB_def split: option.split)
qed

interpretation marker_codec: msg_codec enc_marker dec_marker marker_ok
  by unfold_locales (simp_all add: dec_enc_marker length_enc_marker)

end
