(* ===== verification/Filenames.thy ===== *)
theory Filenames
  imports Prelude "HOL-Library.Sublist"
begin

text \<open>
  File names: \<open>is_small_file\<close> and \<open>filter_files\<close> of \<open>src/util.rs\<close>.

  The regex crate is not part of the repository. \<open>rx\<close> stands for \<open>Regex::new\<close>: it takes
  the pattern text and returns the compiled matcher, or \<open>None\<close> where compilation fails. The
  predicate \<open>regex_doc\<close> states its documented meaning on the small fragment of the syntax the
  program generates: literals, escaped characters, \<open>.\<close>, \<open>.*\<close> and \<open>[0-9]+\<close> between the
  anchors. A string is a list of characters, each standing for one Unicode scalar value below
  256.
\<close>

type_synonym regex = "string \<Rightarrow> (string \<Rightarrow> bool) option"

abbreviation backslash :: char where "backslash \<equiv> CHR 0x5C"
abbreviation newline :: char where "newline \<equiv> CHR 0x0A"

section \<open>The documented fragment of the regex syntax\<close>

datatype rtok = Lit char | AnyChar | AnyStar | Digits

definition regex_specials :: "char list" where
  "regex_specials = ''.+()[]{}^$|'' @ [backslash]"

fun render_tok :: "rtok \<Rightarrow> string" where
  "render_tok (Lit c) =
     (if c \<in> set regex_specials \<or> c = CHR ''*'' \<or> c = CHR ''?'' then [backslash, c] else [c])"
| "render_tok AnyChar = ''.''"
| "render_tok AnyStar = ''.*''"
| "render_tok Digits = ''[0-9]+''"

definition is_digit :: "char \<Rightarrow> bool" where
  "is_digit c \<longleftrightarrow> c \<in> set ''0123456789''"

function toks_match :: "rtok list \<Rightarrow> string \<Rightarrow> bool" where
  "toks_match [] s \<longleftrightarrow> s = []"
| "toks_match (Lit c # ts) s \<longleftrightarrow> (case s of [] \<Rightarrow> False | x # r \<Rightarrow> x = c \<and> toks_match ts r)"
| "toks_match (AnyChar # ts) s \<longleftrightarrow>
     (case s of [] \<Rightarrow> False | x # r \<Rightarrow> x \<noteq> newline \<and> toks_match ts r)"
| "toks_match (AnyStar # ts) s \<longleftrightarrow>
     toks_match ts s \<or>
     (case s of [] \<Rightarrow> False | x # r \<Rightarrow> x \<noteq> newline \<and> toks_match (AnyStar # ts) r)"
| "toks_match (Digits # ts) s \<longleftrightarrow>
     (case s of [] \<Rightarrow> False
      | x # r \<Rightarrow> is_digit x \<and> (toks_match ts r \<or> toks_match (Digits # ts) r))"
  by pat_completeness auto
termination
  by (relation "measures [\<lambda>(ts, s). length s + length ts, \<lambda>(ts, s). length ts]") auto

definition regex_doc :: "regex \<Rightarrow> bool" where
  "regex_doc rx \<longleftrightarrow>
     (\<forall>ts. rx (''^'' @ concat (map render_tok ts) @ ''$'') = Some (toks_match ts))"

section \<open>A matcher for the fragment\<close>

text \<open>Used in witnesses only: it shows that \<open>regex_doc\<close> can hold.\<close>

fun parse_toks :: "string \<Rightarrow> rtok list" where
  "parse_toks [] = []"
| "parse_toks [c] = (if c = CHR ''.'' then [AnyChar] else if c = CHR ''$'' then [] else [Lit c])"
| "parse_toks (c # d # r) =
     (if c = backslash then Lit d # parse_toks r
      else if c = CHR ''.'' then
        (if d = CHR ''*'' then AnyStar # parse_toks r else AnyChar # parse_toks (d # r))
      else if c = CHR ''['' then Digits # parse_toks (drop 4 r)
      else Lit c # parse_toks (d # r))"

definition rx_ref :: regex where
  "rx_ref p = Some (toks_match (parse_toks (tl p)))"

lemma parse_render:
  "parse_toks (concat (map render_tok ts) @ ''$'') = ts"
proof (induction ts)
  case Nil
  then show ?case by simp
next
  case (Cons t ts)
  let ?r = "concat (map render_tok ts) @ ''$''"
  have "parse_toks (render_tok t @ ?r) = t # parse_toks ?r"
  proof (cases t)
    case (Lit c)
    obtain d r where "?r = d # r" by (cases ?r) auto
    with Lit show ?thesis by (auto simp: regex_specials_def)
  next
    case AnyChar
    have "\<exists>d r. ?r = d # r \<and> d \<noteq> CHR ''*''"
    proof (cases ts)
      case (Cons t' ts')
      then show ?thesis by (cases t') (auto simp: regex_specials_def)
    qed simp
    with AnyChar show ?thesis by auto
  qed simp_all
  with Cons show ?case by simp
qed

lemma regex_doc_rx_ref: "regex_doc rx_ref"
  by (simp add: regex_doc_def rx_ref_def parse_render)

section \<open>Classifying a file\<close>

text \<open>Rust's \<open>str::contains\<close> with a string argument.\<close>

fun contains_str :: "string \<Rightarrow> string \<Rightarrow> bool" where
  "contains_str p [] \<longleftrightarrow> p = []"
| "contains_str p (c # s) \<longleftrightarrow> prefix p (c # s) \<or> contains_str p s"

definition METADATA_FILE :: string where
  "METADATA_FILE = ''metadata.json''"

definition is_match :: "regex \<Rightarrow> string \<Rightarrow> string \<Rightarrow> bool res" where
  "is_match rx p s = rbind (unwrap (rx p)) (\<lambda>m. Inr (m s))"

definition rx_rw_layer :: string where
  "rx_rw_layer = ''^rw-layer-[0-9]+'' @ [backslash] @ ''.img$''"
definition rx_pages :: string where
  "rx_pages = ''^pages-[0-9]+'' @ [backslash] @ ''.img$''"
definition rx_ghost_file :: string where
  "rx_ghost_file = ''^ghost-file-[0-9]+'' @ [backslash] @ ''.img$''"
definition rx_tcp_stream :: string where
  "rx_tcp_stream = ''^tcp-stream-.*'' @ [backslash] @ ''.img$''"

definition is_small_file :: "regex \<Rightarrow> string \<Rightarrow> bool res" where
  "is_small_file rx file =
     (if file = ''process_state.json'' then Inr True
      else if file = ''rw-layer.manifest'' then Inr True
      else if file = ''runc.netns_eth0_ipv4addr'' then Inr True
      else if contains_str ''gpu'' file \<and> contains_str ''size'' file then Inr True
      else if prefix ''gpu-noctx-calls-'' file then Inr True
      else rbind (is_match rx rx_rw_layer file) (\<lambda>m1. if m1 then Inr False
      else rbind (is_match rx rx_pages file) (\<lambda>m2. if m2 then Inr False
      else rbind (is_match rx rx_ghost_file file) (\<lambda>m3. if m3 then Inr False
      else rbind (is_match rx rx_tcp_stream file) (\<lambda>m4. if m4 then Inr False
      else if prefix ''gpu-calls-'' file then Inr False
      else if prefix ''gpu-mem-'' file then Inr False
      else if prefix ''gpu-ctx-'' file then Inr False
      else if prefix ''gpu-hostmem-'' file then Inr False
      else if prefix ''gpu-ctxshm-'' file then Inr False
      else if prefix ''gpu-virtmem-'' file then Inr False
      else if prefix ''gpu-envvars-'' file then Inr False
      else Inr True)))))"

text \<open>The tokens of the four patterns.\<close>

definition numbered_img :: "string \<Rightarrow> rtok list" where
  "numbered_img stem = map Lit stem @ [Digits] @ map Lit ''.img''"

lemma numbered_patterns:
  "rx_rw_layer = ''^'' @ concat (map render_tok (numbered_img ''rw-layer-'')) @ ''$''"
  "rx_pages = ''^'' @ concat (map render_tok (numbered_img ''pages-'')) @ ''$''"
  "rx_ghost_file = ''^'' @ concat (map render_tok (numbered_img ''ghost-file-'')) @ ''$''"
  by (simp_all add: rx_rw_layer_def rx_pages_def rx_ghost_file_def numbered_img_def
      regex_specials_def)

lemma tcp_stream_pattern:
  "rx_tcp_stream
   = ''^'' @ concat (map render_tok (map Lit ''tcp-stream-'' @ [AnyStar] @ map Lit ''.img'')) @ ''$''"
  by (simp add: rx_tcp_stream_def regex_specials_def)

lemma is_match_doc:
  "regex_doc rx \<Longrightarrow> is_match rx (''^'' @ concat (map render_tok ts) @ ''$'') s = Inr (toks_match ts s)"
  by (simp only: is_match_def regex_doc_def unwrap_simps rbind.simps)

lemma is_match_patterns:
  assumes "regex_doc rx"
  shows "is_match rx rx_rw_layer s = Inr (toks_match (numbered_img ''rw-layer-'') s)"
    "is_match rx rx_pages s = Inr (toks_match (numbered_img ''pages-'') s)"
    "is_match rx rx_ghost_file s = Inr (toks_match (numbered_img ''ghost-file-'') s)"
    "is_match rx rx_tcp_stream s
     = Inr (toks_match (map Lit ''tcp-stream-'' @ [AnyStar] @ map Lit ''.img'') s)"
  unfolding numbered_patterns tcp_stream_pattern
  by (rule is_match_doc [OF assms])+

lemma toks_match_lits: "toks_match (map Lit p @ ts) s \<longleftrightarrow> (\<exists>r. s = p @ r \<and> toks_match ts r)"
  by (induction p arbitrary: s) (auto split: list.splits)

lemma toks_match_only_lits: "toks_match (map Lit p) s \<longleftrightarrow> s = p"
  using toks_match_lits [of p "[]" s] by simp

lemma toks_match_star:
  "toks_match (AnyStar # ts) s \<longleftrightarrow> (\<exists>u v. s = u @ v \<and> newline \<notin> set u \<and> toks_match ts v)"
proof (induction s)
  case Nil
  then show ?case by simp
next
  case (Cons x s)
  show ?case
  proof
    assume "toks_match (AnyStar # ts) (x # s)"
    then consider "toks_match ts (x # s)" | "x \<noteq> newline" "toks_match (AnyStar # ts) s" by auto
    then show "\<exists>u v. x # s = u @ v \<and> newline \<notin> set u \<and> toks_match ts v"
    proof cases
      case 1
      then show ?thesis by (metis append_Nil empty_iff empty_set)
    next
      case 2
      with Cons obtain u v where "s = u @ v" "newline \<notin> set u" "toks_match ts v" by blast
      with 2 have "x # s = (x # u) @ v \<and> newline \<notin> set (x # u) \<and> toks_match ts v" by simp
      then show ?thesis by blast
    qed
  next
    assume "\<exists>u v. x # s = u @ v \<and> newline \<notin> set u \<and> toks_match ts v"
    then obtain u v where uv: "x # s = u @ v" "newline \<notin> set u" "toks_match ts v" by blast
    then show "toks_match (AnyStar # ts) (x # s)"
      using Cons by (cases u) auto
  qed
qed

lemma toks_match_digits:
  "toks_match (Digits # ts) s
   \<longleftrightarrow> (\<exists>u v. s = u @ v \<and> u \<noteq> [] \<and> (\<forall>c \<in> set u. is_digit c) \<and> toks_match ts v)"
proof (induction s)
  case Nil
  then show ?case by simp
next
  case (Cons x s)
  show ?case
  proof
    assume "toks_match (Digits # ts) (x # s)"
    then consider "is_digit x" "toks_match ts s" | "is_digit x" "toks_match (Digits # ts) s"
      by auto
    then show "\<exists>u v. x # s = u @ v \<and> u \<noteq> [] \<and> (\<forall>c \<in> set u. is_digit c) \<and> toks_match ts v"
    proof cases
      case 1
      then have "x # s = [x] @ s \<and> [x] \<noteq> [] \<and> (\<forall>c \<in> set [x]. is_digit c) \<and> toks_match ts s"
        by simp
      then show ?thesis by blast
    next
      case 2
      with Cons obtain u v where "s = u @ v" "\<forall>c \<in> set u. is_digit c" "toks_match ts v" by blast
      with 2 have "x # s = (x # u) @ v \<and> x # u \<noteq> [] \<and> (\<forall>c \<in> set (x # u). is_digit c)
          \<and> toks_match ts v" by simp
      then show ?thesis by blast
    qed
  next
    assume "\<exists>u v. x # s = u @ v \<and> u \<noteq> [] \<and> (\<forall>c \<in> set u. is_digit c) \<and> toks_match ts v"
    then obtain u v where uv: "x # s = x # u @ v" "is_digit x" "\<forall>c \<in> set u. is_digit c"
        "toks_match ts v"
      by (auto simp: Cons_eq_append_conv)
    then show "toks_match (Digits # ts) (x # s)"
      using Cons by (cases "u = []") auto
  qed
qed

text \<open>
  What the patterns mean for a name: a stem, at least one decimal digit, and the extension; or a
  stem, anything without a newline, and the extension.
\<close>

definition numbered_name :: "string \<Rightarrow> string \<Rightarrow> bool" where
  "numbered_name stem f \<longleftrightarrow>
     (\<exists>ds. f = stem @ ds @ ''.img'' \<and> ds \<noteq> [] \<and> (\<forall>c \<in> set ds. is_digit c))"

definition tcp_stream_name :: "string \<Rightarrow> bool" where
  "tcp_stream_name f \<longleftrightarrow> (\<exists>u. f = ''tcp-stream-'' @ u @ ''.img'' \<and> newline \<notin> set u)"

lemma toks_match_numbered: "toks_match (numbered_img stem) f \<longleftrightarrow> numbered_name stem f"
  unfolding numbered_img_def toks_match_lits append_Cons append_Nil toks_match_digits
    toks_match_only_lits numbered_name_def
  by blast

lemma toks_match_tcp:
  "toks_match (map Lit ''tcp-stream-'' @ [AnyStar] @ map Lit ''.img'') f \<longleftrightarrow> tcp_stream_name f"
  unfolding toks_match_lits append_Cons append_Nil toks_match_star toks_match_only_lits
    tcp_stream_name_def
  by blast

text \<open>The specification of the classifier, as a list of name families.\<close>

definition large_prefixes :: "string list" where
  "large_prefixes = [''gpu-calls-'', ''gpu-mem-'', ''gpu-ctx-'', ''gpu-hostmem-'', ''gpu-ctxshm-'',
                     ''gpu-virtmem-'', ''gpu-envvars-'']"

definition listed_small :: "string \<Rightarrow> bool" where
  "listed_small f \<longleftrightarrow>
     f \<in> {''process_state.json'', ''rw-layer.manifest'', ''runc.netns_eth0_ipv4addr''}
     \<or> contains_str ''gpu'' f \<and> contains_str ''size'' f \<or> prefix ''gpu-noctx-calls-'' f"

definition listed_large :: "string \<Rightarrow> bool" where
  "listed_large f \<longleftrightarrow>
     numbered_name ''rw-layer-'' f \<or> numbered_name ''pages-'' f \<or> numbered_name ''ghost-file-'' f
     \<or> tcp_stream_name f \<or> (\<exists>p \<in> set large_prefixes. prefix p f)"

lemma is_small_file_spec:
  assumes "regex_doc rx"
  shows "is_small_file rx f = Inr (listed_small f \<or> \<not> listed_large f)"
  unfolding is_small_file_def is_match_patterns [OF assms] toks_match_numbered toks_match_tcp
    rbind.simps listed_small_def listed_large_def large_prefixes_def
  by auto

lemma numbered_name_prefix: "numbered_name stem f \<Longrightarrow> prefix stem f"
  by (auto simp: numbered_name_def)

lemma tcp_stream_name_prefix: "tcp_stream_name f \<Longrightarrow> prefix ''tcp-stream-'' f"
  by (auto simp: tcp_stream_name_def)

text \<open>The first characters decide for a name that starts like none of the large families.\<close>

lemma small_by_stem:
  assumes "\<And>p. p \<in> set ([''rw-layer-'', ''pages-'', ''ghost-file-'', ''tcp-stream-''] @ large_prefixes)
              \<Longrightarrow> \<not> prefix p f"
  shows "\<not> listed_large f"
  using assms unfolding listed_large_def by (auto dest: numbered_name_prefix tcp_stream_name_prefix)

lemma is_small_metadata: "regex_doc rx \<Longrightarrow> is_small_file rx METADATA_FILE = Inr True"
proof -
  have "\<not> listed_large METADATA_FILE"
    by (rule small_by_stem) (auto simp: METADATA_FILE_def large_prefixes_def)
  then show "regex_doc rx \<Longrightarrow> is_small_file rx METADATA_FILE = Inr True"
    by (simp add: is_small_file_spec)
qed

section \<open>Selecting files by a glob pattern\<close>

fun glob_char :: "char \<Rightarrow> string" where
  "glob_char ch =
     (if ch = CHR ''*'' then ''.*''
      else if ch = CHR ''?'' then ''.''
      else if ch \<in> set regex_specials then [backslash, ch]
      else [ch])"

definition glob_regex :: "string \<Rightarrow> string" where
  "glob_regex pattern = foldl (\<lambda>acc ch. acc @ glob_char ch) ''^'' pattern @ ''$''"

definition filter_files :: "regex \<Rightarrow> string list \<Rightarrow> string \<Rightarrow> string list" where
  "filter_files rx files pattern =
     (if pattern = [] then files
      else case rx (glob_regex pattern) of
             Some re \<Rightarrow> filter re files
           | None \<Rightarrow> [])"

text \<open>The meaning of a glob pattern, one token a character.\<close>

definition glob_tok :: "char \<Rightarrow> rtok" where
  "glob_tok ch = (if ch = CHR ''*'' then AnyStar else if ch = CHR ''?'' then AnyChar else Lit ch)"

lemma glob_char_render: "glob_char ch = render_tok (glob_tok ch)"
  by (auto simp: glob_tok_def)

lemma glob_regex_render:
  "glob_regex p = ''^'' @ concat (map render_tok (map glob_tok p)) @ ''$''"
proof -
  have "foldl (\<lambda>acc ch. acc @ glob_char ch) a p = a @ concat (map render_tok (map glob_tok p))" for a
    by (induction p arbitrary: a) (simp_all add: glob_char_render del: glob_char.simps)
  then show ?thesis by (simp add: glob_regex_def)
qed

lemma filter_files_glob:
  assumes "regex_doc rx"
  shows "filter_files rx files p
         = (if p = [] then files else filter (toks_match (map glob_tok p)) files)"
proof -
  have "rx (glob_regex p) = Some (toks_match (map glob_tok p))"
    using assms unfolding glob_regex_render regex_doc_def by blast
  then show ?thesis by (simp add: filter_files_def)
qed

section \<open>Properties\<close>

text \<open>C33: \<open>is_small_file\<close> decides by the documented classes: a name is large when it is a numbered
  \<open>rw-layer-\<close>, \<open>pages-\<close> or \<open>ghost-file-\<close> image, a TCP stream, or starts with one of the GPU
  prefixes, unless one of the exceptions (three fixed names, GPU sizes, calls without a context)
  makes it small; every other name is small. It never fails.\<close>

theorem small_file_classes:
  assumes "regex_doc rx"
  shows "is_small_file rx f = Inr (listed_small f \<or> \<not> listed_large f)"
  by (rule is_small_file_spec [OF assms])

theorem small_file_classes_witness: "is_small_file rx_ref ''pages-12.img'' = Inr False"
proof -
  have "numbered_name ''pages-'' ''pages-12.img''"
    unfolding numbered_name_def by (intro exI [of _ "''12''"]) (simp add: is_digit_def)
  moreover have "\<not> listed_small ''pages-12.img''" by (simp add: listed_small_def)
  ultimately show ?thesis
    unfolding small_file_classes [OF regex_doc_rx_ref] listed_large_def by simp
qed

text \<open>C34: \<open>filter_files\<close> keeps, in their order, the names the glob pattern matches, where \<open>*\<close> stands for
  any characters but a newline, \<open>?\<close> for one, and every other character, regex specials
  included, for itself; an empty pattern keeps all.\<close>

theorem filter_files_is_glob:
  assumes "regex_doc rx"
  shows "filter_files rx names p = (if p = [] then names else filter (toks_match (map glob_tok p)) names)"
  by (rule filter_files_glob [OF assms])

theorem filter_files_is_glob_witness:
  "filter_files rx_ref [''a.img'', ''aximg'', ''b.img''] ''a.*'' = [''a.img'']"
  by (simp add: filter_files_is_glob [OF regex_doc_rx_ref] glob_tok_def)

text \<open>The pattern \<open>*\<close> does not list the names with a newline in them.\<close>

theorem star_skips_newlines:
  assumes "regex_doc rx"
  shows "filter_files rx names ''*'' = filter (\<lambda>f. newline \<notin> set f) names"
proof -
  have "toks_match [AnyStar] = (\<lambda>f. newline \<notin> set f)"
    by (rule ext) (auto simp: toks_match_star simp del: toks_match.simps(4))
  then show ?thesis
    by (simp add: filter_files_glob [OF assms] glob_tok_def del: toks_match.simps)
qed

theorem star_skips_newlines_witness: "filter_files rx_ref [''a'', [newline]] ''*'' = [''a'']"
  by (simp add: star_skips_newlines [OF regex_doc_rx_ref])

end
