(* ===== verification/Ord_By.thy ===== *)
theory Ord_By
  imports Prelude
begin

text \<open>
  \<open>src/ord_by.rs\<close> and the standard library's \<open>BinaryHeap\<close> it serves. A comparison function
  returns a Rust \<open>Ordering\<close>; \<open>impl_ord_by!\<close> derives \<open>partial_cmp\<close> and equality from it.

  The heap is modelled as the collection of its elements: \<open>peek\<close> returns a greatest element,
  \<open>pop\<close> removes that element, \<open>peek_mut\<close> replaces it (the element is put back in its place
  when the guard is dropped). Which of several equal elements a real heap returns is not
  specified by the standard library; the locale \<open>total_cmp\<close> gives the laws for comparison
  functions without that ambiguity up to the order.
\<close>

datatype cmp_ord = Less | Equal | Greater

fun reverse_ord :: "cmp_ord \<Rightarrow> cmp_ord" where
  "reverse_ord Less = Greater"
| "reverse_ord Equal = Equal"
| "reverse_ord Greater = Less"

fun then_ord :: "cmp_ord \<Rightarrow> cmp_ord \<Rightarrow> cmp_ord" where
  "then_ord Equal b = b"
| "then_ord a b = a"

definition cmp_lin :: "'a::linorder \<Rightarrow> 'a \<Rightarrow> cmp_ord" where
  "cmp_lin a b = (if a < b then Less else if a = b then Equal else Greater)"

text \<open>The instances the macro writes.\<close>

definition partial_cmp_by :: "('a \<Rightarrow> 'a \<Rightarrow> cmp_ord) \<Rightarrow> 'a \<Rightarrow> 'a \<Rightarrow> cmp_ord option" where
  "partial_cmp_by cmp a b = Some (cmp a b)"

definition eq_by :: "('a \<Rightarrow> 'a \<Rightarrow> cmp_ord) \<Rightarrow> 'a \<Rightarrow> 'a \<Rightarrow> bool" where
  "eq_by cmp a b \<longleftrightarrow> cmp a b = Equal"

lemma cmp_lin_iff [simp]:
  "cmp_lin a b = Less \<longleftrightarrow> a < b" "cmp_lin a b = Equal \<longleftrightarrow> a = b"
  "cmp_lin a b = Greater \<longleftrightarrow> b < a"
  by (auto simp: cmp_lin_def)

lemma then_ord_iff [simp]:
  "then_ord x y = Less \<longleftrightarrow> x = Less \<or> x = Equal \<and> y = Less"
  "then_ord x y = Equal \<longleftrightarrow> x = Equal \<and> y = Equal"
  "then_ord x y = Greater \<longleftrightarrow> x = Greater \<or> x = Equal \<and> y = Greater"
  by (cases x; auto)+

lemma reverse_ord_iff [simp]:
  "reverse_ord x = Less \<longleftrightarrow> x = Greater" "reverse_ord x = Equal \<longleftrightarrow> x = Equal"
  "reverse_ord x = Greater \<longleftrightarrow> x = Less"
  by (cases x; simp)+

section \<open>The heap\<close>

fun top_index :: "('a \<Rightarrow> 'a \<Rightarrow> cmp_ord) \<Rightarrow> 'a list \<Rightarrow> nat" where
  "top_index cmp [] = 0"
| "top_index cmp [x] = 0"
| "top_index cmp (x # y # ys) =
     (let i = top_index cmp (y # ys)
      in if cmp ((y # ys) ! i) x = Greater then Suc i else 0)"

definition heap_peek :: "('a \<Rightarrow> 'a \<Rightarrow> cmp_ord) \<Rightarrow> 'a list \<Rightarrow> 'a option" where
  "heap_peek cmp h = (if h = [] then None else Some (h ! top_index cmp h))"

definition heap_push :: "'a \<Rightarrow> 'a list \<Rightarrow> 'a list" where
  "heap_push x h = h @ [x]"

definition heap_pop :: "('a \<Rightarrow> 'a \<Rightarrow> cmp_ord) \<Rightarrow> 'a list \<Rightarrow> ('a \<times> 'a list) option" where
  "heap_pop cmp h =
     (if h = [] then None
      else let i = top_index cmp h in Some (h ! i, take i h @ drop (Suc i) h))"

definition heap_set_top :: "('a \<Rightarrow> 'a \<Rightarrow> cmp_ord) \<Rightarrow> 'a \<Rightarrow> 'a list \<Rightarrow> 'a list" where
  "heap_set_top cmp x h = h[top_index cmp h := x]"

lemma top_index_less: "h \<noteq> [] \<Longrightarrow> top_index cmp h < length h"
  by (induction cmp h rule: top_index.induct) (auto simp: Let_def)

lemma heap_peek_None [simp]: "heap_peek cmp h = None \<longleftrightarrow> h = []"
  by (simp add: heap_peek_def)

lemma heap_peek_Some:
  "heap_peek cmp h = Some x \<longleftrightarrow> h \<noteq> [] \<and> x = h ! top_index cmp h"
  by (auto simp: heap_peek_def)

lemma heap_peek_mem: "heap_peek cmp h = Some x \<Longrightarrow> x \<in> set h"
  by (auto simp: heap_peek_Some top_index_less)

lemma heap_pop_peek: "heap_pop cmp h = Some (x, h') \<Longrightarrow> heap_peek cmp h = Some x"
  by (auto simp: heap_peek_def heap_pop_def Let_def split: if_splits)

lemma heap_peek_pop: "heap_peek cmp h = Some x \<Longrightarrow> \<exists>h'. heap_pop cmp h = Some (x, h')"
  by (auto simp: heap_peek_def heap_pop_def Let_def split: if_splits)

lemma heap_pop_split:
  assumes "heap_pop cmp h = Some (x, h')"
  shows "\<exists>l r. h = l @ x # r \<and> h' = l @ r"
proof -
  let ?i = "top_index cmp h"
  from assms have "h \<noteq> []" "x = h ! ?i" "h' = take ?i h @ drop (Suc ?i) h"
    by (auto simp: heap_pop_def Let_def split: if_splits)
  moreover from this have "h = take ?i h @ h ! ?i # drop (Suc ?i) h"
    by (simp add: id_take_nth_drop top_index_less)
  ultimately show ?thesis by blast
qed

lemma length_heap_set_top [simp]: "length (heap_set_top cmp x h) = length h"
  by (simp add: heap_set_top_def)

section \<open>The contract of a comparison function\<close>

locale total_cmp =
  fixes cmp :: "'a \<Rightarrow> 'a \<Rightarrow> cmp_ord"
  assumes cmp_swap: "cmp b a = reverse_ord (cmp a b)"
    and cmp_trans: "cmp a b \<noteq> Greater \<Longrightarrow> cmp b c \<noteq> Greater \<Longrightarrow> cmp a c \<noteq> Greater"
begin

lemma cmp_refl: "cmp a a = Equal"
  using cmp_swap [of a a] by (cases "cmp a a") auto

lemma eq_sym: "eq_by cmp a b \<Longrightarrow> eq_by cmp b a"
  using cmp_swap [of a b] by (simp add: eq_by_def)

lemma top_greatest: "x \<in> set h \<Longrightarrow> cmp x (h ! top_index cmp h) \<noteq> Greater"
proof (induction h rule: induct_list012)
  case (3 y z zs)
  let ?t = "(z # zs) ! top_index cmp (z # zs)"
  have IH: "x \<in> set (z # zs) \<Longrightarrow> cmp x ?t \<noteq> Greater" by (rule 3)
  show ?case
  proof (cases "cmp ?t y = Greater")
    case True
    then have "cmp y ?t \<noteq> Greater" using cmp_swap [of y ?t] by simp
    with True IH "3.prems" show ?thesis by (auto simp: Let_def)
  next
    case False
    with IH "3.prems" cmp_trans [of x ?t y] show ?thesis
      by (auto simp: Let_def cmp_refl)
  qed
qed (auto simp: cmp_refl)

text \<open>What \<open>peek\<close> returns is an element no other element exceeds.\<close>

lemma peek_greatest:
  "heap_peek cmp h = Some t \<Longrightarrow> x \<in> set h \<Longrightarrow> cmp x t \<noteq> Greater"
  by (auto simp: heap_peek_Some top_greatest)

text \<open>An element that exceeds all others up to order is, up to order, what \<open>peek\<close> returns.\<close>

lemma peek_equal:
  assumes "heap_peek cmp h = Some t" and "x \<in> set h" and "\<And>y. y \<in> set h \<Longrightarrow> cmp y x \<noteq> Greater"
  shows "eq_by cmp t x"
proof -
  have "cmp x t \<noteq> Greater" by (rule peek_greatest [OF assms(1,2)])
  moreover have "cmp t x \<noteq> Greater" by (rule assms(3)) (rule heap_peek_mem [OF assms(1)])
  moreover have "cmp t x = reverse_ord (cmp x t)" by (rule cmp_swap)
  ultimately show ?thesis unfolding eq_by_def by (cases "cmp x t") simp_all
qed

end

end
