(* ===== verification/Unix_Pipe.thy ===== *)
theory Unix_Pipe
  imports Bytes "HOL-Library.Signed_Division"
begin

text \<open>
  The pipe operations of \<open>src/unix_pipe.rs\<close>. The kernel decides how many bytes each
  \<open>splice()\<close> or \<open>vmsplice()\<close> moves; \<open>ask i\<close> is its offer in the \<open>i\<close>-th iteration of a
  loop, and what it moves is limited by the request and by what is there. A loop asks again
  until all bytes are moved.
\<close>

section \<open>splice\_all and vmsplice\_all\<close>

function splice_loop ::
  "(nat \<Rightarrow> nat) \<Rightarrow> nat \<Rightarrow> reader \<Rightarrow> sink \<Rightarrow> nat \<Rightarrow> (reader \<times> sink) res" where
  "splice_loop ask i src dst to_write =
     (if to_write > 0 then
        (let w = min (ask i) (min to_write (length (avail src))) in
         if avail src = [] \<and> broken src then Inl (Err Io_Error)
         else if w > 0 then
           rbind (write_all dst (take w (avail src))) (\<lambda>dst'.
             splice_loop ask (Suc i) (src\<lparr>avail := drop w (avail src)\<rparr>) dst' (to_write - w))
         else Inl (Err Splice_Eof))
      else Inr (src, dst))"
  by pat_completeness auto
termination
  by (relation "measure (\<lambda>(ask, i, src, dst, to_write). to_write)") auto

declare splice_loop.simps [simp del]

definition splice_all :: "(nat \<Rightarrow> nat) \<Rightarrow> reader \<Rightarrow> sink \<Rightarrow> nat \<Rightarrow> (reader \<times> sink) res" where
  "splice_all ask src dst len = splice_loop ask 0 src dst len"

text \<open>
  \<open>vmsplice_all\<close> writes \<open>data[offset..]\<close> until nothing is left; a call that moves no byte
  fails its assertion.
\<close>

function vmsplice_loop :: "(nat \<Rightarrow> nat) \<Rightarrow> nat \<Rightarrow> byte list \<Rightarrow> nat \<Rightarrow> nat \<Rightarrow> sink \<Rightarrow> sink res" where
  "vmsplice_loop ask i data offset to_write dst =
     (if to_write > 0 then
        (let w = min (ask i) to_write in
         if w > 0 then
           rbind (write_all dst (take w (drop offset data))) (\<lambda>dst'.
             vmsplice_loop ask (Suc i) data (offset + w) (to_write - w) dst')
         else Inl (Panic Assert_Failed))
      else Inr dst)"
  by pat_completeness auto
termination
  by (relation "measure (\<lambda>(ask, i, data, offset, to_write, dst). to_write)") auto

declare vmsplice_loop.simps [simp del]

definition vmsplice_all :: "(nat \<Rightarrow> nat) \<Rightarrow> sink \<Rightarrow> byte list \<Rightarrow> sink res" where
  "vmsplice_all ask dst data = vmsplice_loop ask 0 data 0 (length data) dst"

lemma splice_loop_Inr:
  "splice_loop ask i src dst n = Inr (src', dst') \<Longrightarrow>
   n \<le> length (avail src) \<and> src' = src\<lparr>avail := drop n (avail src)\<rparr>
   \<and> written dst' = written dst @ take n (avail src) \<and> (room dst = None \<longrightarrow> room dst' = None)"
proof (induction ask i src dst n arbitrary: src' dst' rule: splice_loop.induct)
  case (1 ask i src dst n)
  define w where "w = min (ask i) (min n (length (avail src)))"
  show ?case
  proof (cases "n > 0")
    case True
    with "1.prems" obtain d1 where w: "w > 0" "\<not> (avail src = [] \<and> broken src)"
      and wr: "write_all dst (take w (avail src)) = Inr d1"
      and rec: "splice_loop ask (Suc i) (src\<lparr>avail := drop w (avail src)\<rparr>) d1 (n - w)
                = Inr (src', dst')"
      by (subst (asm) splice_loop.simps) (auto simp: Let_def w_def split: if_splits)
    have le: "w \<le> n" "w \<le> length (avail src)" by (auto simp: w_def)
    from "1.IH" [OF True w_def w(2) w(1) wr rec] le have IH:
      "n \<le> length (avail src)" "src' = src\<lparr>avail := drop n (avail src)\<rparr>"
      "written dst' = written d1 @ take (n - w) (drop w (avail src))"
      "room d1 = None \<longrightarrow> room dst' = None" by auto
    have "take n (avail src) = take w (avail src) @ take (n - w) (drop w (avail src))"
      using le by (metis le_add_diff_inverse take_add)
    with IH write_all_written [OF wr] write_all_room [OF wr] show ?thesis by auto
  next
    case False
    with "1.prems" show ?thesis by (subst (asm) splice_loop.simps) auto
  qed
qed

lemmas splice_all_Inr = splice_loop_Inr [of _ 0, folded splice_all_def]

text \<open>
  Whatever the kernel offers, as long as it offers something, all requested bytes are moved in
  order.
\<close>

lemma splice_loop_total:
  "(\<And>j. 0 < ask j) \<Longrightarrow> n \<le> length (avail src) \<Longrightarrow> room dst = None \<Longrightarrow>
   splice_loop ask i src dst n
   = Inr (src\<lparr>avail := drop n (avail src)\<rparr>, dst\<lparr>written := written dst @ take n (avail src)\<rparr>)"
proof (induction ask i src dst n rule: splice_loop.induct)
  case (1 ask i src dst n)
  define w where "w = min (ask i) (min n (length (avail src)))"
  show ?case
  proof (cases "n > 0")
    case True
    with "1.prems" have w: "0 < w" "w \<le> n" "w \<le> length (avail src)" "avail src \<noteq> []"
      by (auto simp: w_def)
    let ?d = "dst\<lparr>written := written dst @ take w (avail src)\<rparr>"
    have wr: "write_all dst (take w (avail src)) = Inr ?d"
      using "1.prems"(3) by (simp add: write_all_unlimited)
    have "splice_loop ask (Suc i) (src\<lparr>avail := drop w (avail src)\<rparr>) ?d (n - w)
          = Inr (src\<lparr>avail := drop n (avail src)\<rparr>,
                 ?d\<lparr>written := written ?d @ take (n - w) (drop w (avail src))\<rparr>)"
      using "1.IH" [OF True w_def _ w(1) wr "1.prems"(1)] "1.prems" w by simp
    moreover have "take n (avail src) = take w (avail src) @ take (n - w) (drop w (avail src))"
      using w by (metis le_add_diff_inverse take_add)
    ultimately show ?thesis
      using True w wr by (subst splice_loop.simps) (simp add: Let_def flip: w_def)
  next
    case False
    then show ?thesis by (subst splice_loop.simps) simp
  qed
qed

lemma splice_all_total:
  "(\<And>j. 0 < ask j) \<Longrightarrow> n \<le> length (avail src) \<Longrightarrow> room dst = None \<Longrightarrow>
   splice_all ask src dst n
   = Inr (src\<lparr>avail := drop n (avail src)\<rparr>, dst\<lparr>written := written dst @ take n (avail src)\<rparr>)"
  unfolding splice_all_def by (rule splice_loop_total)

text \<open>Asking for more than the stream holds is an error, never a short copy.\<close>

lemma splice_all_short:
  "length (avail src) < n \<Longrightarrow> \<exists>e. splice_all ask src dst n = Inl e"
  by (cases "splice_all ask src dst n") (auto dest: splice_all_Inr)

lemma vmsplice_loop_total:
  "(\<And>j. 0 < ask j) \<Longrightarrow> offset + n = length data \<Longrightarrow> room dst = None \<Longrightarrow>
   vmsplice_loop ask i data offset n dst
   = Inr (dst\<lparr>written := written dst @ drop offset data\<rparr>)"
proof (induction ask i data offset n dst rule: vmsplice_loop.induct)
  case (1 ask i data offset n dst)
  define w where "w = min (ask i) n"
  show ?case
  proof (cases "n > 0")
    case True
    with "1.prems" have w: "0 < w" "w \<le> n" by (auto simp: w_def)
    let ?d = "dst\<lparr>written := written dst @ take w (drop offset data)\<rparr>"
    have wr: "write_all dst (take w (drop offset data)) = Inr ?d"
      using "1.prems"(3) by (simp add: write_all_unlimited)
    have "vmsplice_loop ask (Suc i) data (offset + w) (n - w) ?d
          = Inr (?d\<lparr>written := written ?d @ drop (offset + w) data\<rparr>)"
      using "1.IH" [OF True w_def w(1) wr "1.prems"(1)] "1.prems" w by simp
    moreover have "drop offset data = take w (drop offset data) @ drop (offset + w) data"
      by (metis append_take_drop_id drop_drop add.commute)
    ultimately show ?thesis
      using True w wr by (subst vmsplice_loop.simps) (simp add: Let_def flip: w_def)
  next
    case False
    with "1.prems" show ?thesis by (subst vmsplice_loop.simps) simp
  qed
qed

lemma vmsplice_all_total:
  "(\<And>j. 0 < ask j) \<Longrightarrow> room dst = None \<Longrightarrow>
   vmsplice_all ask dst data = Inr (dst\<lparr>written := written dst @ data\<rparr>)"
  unfolding vmsplice_all_def by (subst vmsplice_loop_total) simp_all

lemma vmsplice_loop_written:
  "vmsplice_loop ask i data offset n dst = Inr dst' \<Longrightarrow> offset + n = length data \<Longrightarrow>
   written dst' = written dst @ drop offset data"
proof (induction ask i data offset n dst rule: vmsplice_loop.induct)
  case (1 ask i data offset n dst)
  define w where "w = min (ask i) n"
  show ?case
  proof (cases "n > 0 \<and> w > 0")
    case True
    with "1.prems"(1) obtain d where wr: "write_all dst (take w (drop offset data)) = Inr d"
      and rest: "vmsplice_loop ask (Suc i) data (offset + w) (n - w) d = Inr dst'"
      by (subst (asm) vmsplice_loop.simps) (auto simp: Let_def simp flip: w_def split: if_splits)
    have "written dst' = written d @ drop (offset + w) data"
      using "1.IH" [OF _ w_def _ wr rest] True "1.prems"(2) by (simp add: w_def)
    with write_all_written [OF wr] show ?thesis
      by (metis append.assoc append_take_drop_id drop_drop add.commute)
  next
    case False
    with "1.prems" show ?thesis
      by (subst (asm) vmsplice_loop.simps) (auto simp: Let_def simp flip: w_def split: if_splits)
  qed
qed

lemma vmsplice_all_written: "vmsplice_all ask dst data = Inr dst' \<Longrightarrow> written dst' = written dst @ data"
  using vmsplice_loop_written [of ask 0 data 0 "length data" dst dst'] by (simp add: vmsplice_all_def)

section \<open>increase\_capacity\<close>

text \<open>
  \<open>setcap i c\<close> is the kernel's answer to \<open>F_SETPIPE_SZ\<close> with capacity \<open>c\<close> on pipe \<open>i\<close>.
  The loop halves the capacity after \<open>EPERM\<close>; the assertion stops it before it goes to a page
  or below.
\<close>

datatype errno = EPERM | Other_Errno

fun set_all :: "(nat \<Rightarrow> int \<Rightarrow> errno option) \<Rightarrow> nat list \<Rightarrow> int \<Rightarrow> errno option" where
  "set_all setcap [] c = None"
| "set_all setcap (i # is) c =
     (case setcap i c of Some e \<Rightarrow> Some e | None \<Rightarrow> set_all setcap is c)"

lemma sdiv_2: "0 < (c::int) \<Longrightarrow> c sdiv 2 = c div 2"
  by (simp add: signed_divide_int_def)

function increase_capacity ::
  "(nat \<Rightarrow> int \<Rightarrow> errno option) \<Rightarrow> nat \<Rightarrow> nat list \<Rightarrow> int \<Rightarrow> int res" where
  "increase_capacity setcap page pipes capacity =
     (case set_all setcap pipes capacity of
        Some EPERM \<Rightarrow>
          if capacity > int page
          then increase_capacity setcap page pipes (capacity sdiv 2)
          else Inl (Panic Assert_Failed)
      | Some Other_Errno \<Rightarrow> Inl (Err Io_Error)
      | None \<Rightarrow> Inr capacity)"
  by pat_completeness auto
termination
  by (relation "measure (\<lambda>(setcap, page, pipes, capacity). nat capacity)")
     (auto simp: sdiv_2)

declare increase_capacity.simps [simp del]

section \<open>Properties\<close>

lemma splice_loop_total_short:
  "(\<And>j. 0 < ask j) \<Longrightarrow> length (avail src) < n \<Longrightarrow> room dst = None \<Longrightarrow> \<not> broken src \<Longrightarrow>
   splice_loop ask i src dst n = Inl (Err Splice_Eof)"
proof (induction ask i src dst n rule: splice_loop.induct)
  case (1 ask i src dst n)
  define w where "w = min (ask i) (length (avail src))"
  have w_def': "w = min (ask i) (min n (length (avail src)))" using "1.prems"(2) by (simp add: w_def)
  show ?case
  proof (cases "avail src = []")
    case True
    with 1 show ?thesis by (subst splice_loop.simps) (simp add: Let_def)
  next
    case False
    then have w: "0 < w" "w \<le> length (avail src)" using "1.prems"(1,2) by (auto simp: w_def)
    let ?dst = "dst\<lparr>written := written dst @ take w (avail src)\<rparr>"
    have "write_all dst (take w (avail src)) = Inr ?dst" using "1.prems"(3) by (rule write_all_unlimited)
    moreover have "splice_loop ask (Suc i) (src\<lparr>avail := drop w (avail src)\<rparr>) ?dst (n - w) = Inl (Err Splice_Eof)"
      by (rule "1.IH" [OF _ w_def']) (use "1.prems" w False in \<open>auto simp: write_all_unlimited\<close>)
    ultimately show ?thesis
      using "1.prems"(2) w False by (subst splice_loop.simps) (simp add: Let_def flip: w_def w_def')
  qed
qed

text \<open>C35: \<open>splice_all\<close> moves exactly the bytes it is asked to move, however few the kernel moves at a
  time, and when the source has fewer it fails; it never returns after a short transfer.\<close>

theorem splice_all_exact:
  assumes "\<And>j. 0 < ask j" and "room dst = None" and "\<not> broken src"
  shows "splice_all ask src dst n =
    (if n \<le> length (avail src)
     then Inr (src\<lparr>avail := drop n (avail src)\<rparr>, dst\<lparr>written := written dst @ take n (avail src)\<rparr>)
     else Inl (Err Splice_Eof))"
  using splice_all_total [of ask n src dst] splice_loop_total_short [of ask src n dst 0] assms
  by (auto simp: splice_all_def)

theorem splice_all_exact_witness:
  "splice_all (\<lambda>_. 2) \<lparr>avail = [1, 2, 3], broken = False\<rparr> \<lparr>written = [9], room = None\<rparr> 3
   = Inr (\<lparr>avail = [], broken = False\<rparr>, \<lparr>written = [9, 1, 2, 3], room = None\<rparr>)"
  using splice_all_exact [of "\<lambda>_. 2" "\<lparr>written = [9], room = None\<rparr>" "\<lparr>avail = [1, 2, 3], broken = False\<rparr>" 3]
  by simp

lemma increase_capacity_halves:
  "0 < page \<Longrightarrow> 0 < c \<Longrightarrow> increase_capacity setcap page pipes c = Inr c' \<Longrightarrow>
   set_all setcap pipes c' = None
   \<and> (\<exists>k. c' = c div 2 ^ k \<and> (\<forall>i < k. set_all setcap pipes (c div 2 ^ i) = Some EPERM))"
proof (induction setcap page pipes c rule: increase_capacity.induct)
  case (1 setcap page pipes c)
  show ?case
  proof (cases "set_all setcap pipes c")
    case None
    with "1.prems" show ?thesis by (subst (asm) increase_capacity.simps) (auto intro: exI [of _ 0])
  next
    case (Some e)
    then have e: "e = EPERM" "int page < c" and rest: "increase_capacity setcap page pipes (c sdiv 2) = Inr c'"
      using "1.prems"(3) by (subst (asm) increase_capacity.simps; auto split: errno.splits if_splits)+
    have s2: "c sdiv 2 = c div 2" "0 < c div 2"
      using "1.prems"(1,2) e(2) by (simp_all add: sdiv_2)
    from "1.IH" [OF Some e(1,2) "1.prems"(1)] rest s2 obtain k where k: "set_all setcap pipes c' = None"
      "c' = c div 2 div 2 ^ k" "\<forall>i < k. set_all setcap pipes (c div 2 div 2 ^ i) = Some EPERM"
      by auto
    have "c div 2 div 2 ^ i = c div 2 ^ Suc i" for i by (simp add: zdiv_zmult2_eq)
    with k Some e(1) show ?thesis
      by (auto intro!: exI [of _ "Suc k"] simp: less_Suc_eq_0_disj simp del: power_Suc)
  qed
qed

text \<open>C36: \<open>increase_capacity\<close> settles on the largest of \<open>max\<close>, \<open>max / 2\<close>, \<open>max / 4\<close>, ... that the kernel
  grants to every pipe: the result was accepted by all of them, every larger candidate was refused.\<close>

theorem increase_capacity_result:
  assumes "0 < page" and "0 < max_capacity"
    and "increase_capacity setcap page pipes max_capacity = Inr c"
  shows "set_all setcap pipes c = None
   \<and> (\<exists>k. c = max_capacity div 2 ^ k
         \<and> (\<forall>i < k. set_all setcap pipes (max_capacity div 2 ^ i) = Some EPERM))"
  by (rule increase_capacity_halves [OF assms])

theorem increase_capacity_result_witness:
  "set_all (\<lambda>_ c. if c > 300 then Some EPERM else None) [0, 1] 256 = None
   \<and> (\<exists>k. (256 :: int) = 1024 div 2 ^ k)"
proof -
  have "increase_capacity (\<lambda>_ c. if c > 300 then Some EPERM else None) 4 [0, 1] 1024 = Inr 256"
    by (simp add: increase_capacity.simps sdiv_2)
  from increase_capacity_result [OF _ _ this] show ?thesis by auto
qed

end
