(* ===== verification/Capture.thy ===== *)
theory Capture
  imports Proto_Marker Filenames Ord_By Unix_Pipe
begin

text \<open>
  The image serializer of \<open>src/capture.rs\<close>: it drains the pipes of image files, cuts the data
  into chunks and writes each chunk, preceded by a marker, to one of the shard pipes. The first
  shard carries the small files and the metadata, in order; every other chunk goes to the shard
  with the most room left, as recorded in a binary heap.

  \<open>cenv\<close> collects what the serializer takes from outside the repository: the page size, the
  kernel's answers to \<open>FIONREAD\<close> and \<open>splice()\<close> on the shard pipes, and the regex, JSON and
  protobuf libraries. The kernel's answers are indexed by the sequence number of the marker being
  written, so that every call can get another answer.
\<close>

section \<open>State\<close>

record cenv =
  page_size :: nat
  fion :: "nat \<Rightarrow> int \<Rightarrow> int res"        \<comment> \<open>marker sequence number, shard fd\<close>
  splice_n :: "bool \<Rightarrow> nat \<Rightarrow> nat \<Rightarrow> nat" \<comment> \<open>small shard?, sequence number, iteration\<close>
  regexes :: regex
  to_json :: "string list \<Rightarrow> byte list"
  pb_enc :: "marker \<Rightarrow> byte list"

record img_file =
  if_pipe :: reader
  if_name :: string

record shard =
  sh_fd :: int
  sh_pipe :: sink
  remaining_space :: int
  bytes_written :: nat

record serializer =
  small_shard :: shard
  small_seq :: nat
  shards :: "shard list"                 \<comment> \<open>the binary heap\<close>
  pipe_capacity :: int
  next_seq :: nat
  current_filename :: "string option"
  current_file_size :: nat
  metadata :: "string list"

definition shard_new :: "int \<Rightarrow> sink \<Rightarrow> shard" where
  "shard_new fd p = \<lparr>sh_fd = fd, sh_pipe = p, remaining_space = 0, bytes_written = 0\<rparr>"

text \<open>The heap order: most remaining space first, then the larger file descriptor.\<close>

definition shard_cmp :: "shard \<Rightarrow> shard \<Rightarrow> cmp_ord" where
  "shard_cmp a b =
     then_ord (cmp_lin (remaining_space a) (remaining_space b)) (cmp_lin (sh_fd a) (sh_fd b))"

interpretation shard_order: total_cmp shard_cmp
  by unfold_locales (auto simp: shard_cmp_def cmp_lin_def split: if_splits)

definition refresh_remaining_space :: "cenv \<Rightarrow> nat \<Rightarrow> int \<Rightarrow> shard \<Rightarrow> shard res" where
  "refresh_remaining_space k t cap sh =
     rbind (fion k t (sh_fd sh)) (\<lambda>pipe_len. Inr (sh\<lparr>remaining_space := i32 (cap - pipe_len)\<rparr>))"

definition serializer_new :: "shard list \<Rightarrow> int \<Rightarrow> serializer res" where
  "serializer_new shs cap =
     rbind (rassert (2 \<le> length shs)) (\<lambda>_.
       Inr \<lparr>small_shard = hd shs, small_seq = 0, shards = tl shs, pipe_capacity = cap,
            next_seq = 0, current_filename = None, current_file_size = 0, metadata = []\<rparr>)"

section \<open>Writing chunks\<close>

definition refresh_all_shard_remaining_space :: "cenv \<Rightarrow> nat \<Rightarrow> serializer \<Rightarrow> serializer res" where
  "refresh_all_shard_remaining_space k t s =
     rbind (rmap (refresh_remaining_space k t (pipe_capacity s)) (shards s))
       (\<lambda>shs. Inr (s\<lparr>shards := shs\<rparr>))"

definition gen_marker :: "serializer \<Rightarrow> body \<Rightarrow> bool \<Rightarrow> marker \<times> serializer" where
  "gen_marker s b is_small =
     (if is_small
      then (mk_marker (small_seq s) b, s\<lparr>small_seq := u64_add (small_seq s) 1\<rparr>)
      else (mk_marker (next_seq s) b, s\<lparr>next_seq := u64_add (next_seq s) 1\<rparr>))"

definition chunk_max_data_size :: "cenv \<Rightarrow> serializer \<Rightarrow> int" where
  "chunk_max_data_size k s =
     max (i32 (pipe_capacity s sdiv 4 - int (page_size k))) (int (page_size k))"

text \<open>
  The part of \<open>write_chunk\<close> both branches share: the marker, its data spliced from the image
  file, and the shard's counters. It returns the number of bytes and the image file's pipe.
\<close>

definition put_chunk ::
  "cenv \<Rightarrow> bool \<Rightarrow> marker \<Rightarrow> (reader \<times> int) option \<Rightarrow> int \<Rightarrow> shard \<Rightarrow> (shard \<times> nat \<times> reader option) res"
where
  "put_chunk k is_small m data space_required sh =
     rbind (pb_write (pb_enc k) (sh_pipe sh) m) (\<lambda>(p1, marker_size).
     rbind (case data of
              None \<Rightarrow> Inr (p1, None)
            | Some (src, sz) \<Rightarrow>
                rbind (splice_all (splice_n k is_small (mseq m)) src p1 (nat sz))
                  (\<lambda>(src', p2). Inr (p2, Some src')))
       (\<lambda>(p2, src').
          let data_size = (case data of None \<Rightarrow> 0 | Some (_, sz) \<Rightarrow> nat sz);
              n = u64_add marker_size data_size
          in Inr (sh\<lparr>sh_pipe := p2,
                     bytes_written := u64_add (bytes_written sh) n,
                     remaining_space := i32 (remaining_space sh - space_required)\<rparr>, n, src')))"

definition write_chunk ::
  "cenv \<Rightarrow> serializer \<Rightarrow> marker \<Rightarrow> (reader \<times> int) option \<Rightarrow> bool \<Rightarrow> (serializer \<times> reader option) res"
where
  "write_chunk k s m data is_small =
     (let data_size = (case data of None \<Rightarrow> 0 | Some (_, sz) \<Rightarrow> sz);
          space_required = i32 (int (page_size k) + data_size) in
      if \<not> is_small then
        rbind (unwrap (heap_peek shard_cmp (shards s))) (\<lambda>top.
        rbind (if remaining_space top < space_required
               then refresh_all_shard_remaining_space k (mseq m) s else Inr s) (\<lambda>s1.
        rbind (unwrap (heap_peek shard_cmp (shards s1))) (\<lambda>sh.
        rbind (put_chunk k is_small m data space_required sh) (\<lambda>(sh', n, src').
          Inr (s1\<lparr>shards := heap_set_top shard_cmp sh' (shards s1),
                  current_file_size := u64_add (current_file_size s1) n\<rparr>, src')))))
      else
        rbind (put_chunk k is_small m data space_required (small_shard s)) (\<lambda>(sh', n, src').
          Inr (s\<lparr>small_shard := sh',
                 current_file_size := u64_add (current_file_size s) n\<rparr>, src')))"

text \<open>\<open>gen_marker\<close> followed by \<open>write_chunk\<close>, the way every caller uses them.\<close>

definition emit ::
  "cenv \<Rightarrow> serializer \<Rightarrow> body \<Rightarrow> (reader \<times> int) option \<Rightarrow> bool \<Rightarrow> (serializer \<times> reader option) res"
where
  "emit k s b data is_small =
     (let (m, s1) = gen_marker s b is_small in write_chunk k s1 m data is_small)"

section \<open>Draining image files\<close>

definition maybe_write_filename_marker ::
  "cenv \<Rightarrow> serializer \<Rightarrow> string \<Rightarrow> bool \<Rightarrow> serializer res" where
  "maybe_write_filename_marker k s f is_small =
     (if current_filename s = Some f then Inr s
      else rbind (emit k (s\<lparr>current_filename := Some f\<rparr>) (Filename f) None is_small)
             (\<lambda>(s', _). Inr s'))"

text \<open>\<open>fionread()\<close> on the image file's pipe: the bytes waiting in it.\<close>

definition fionread :: "reader \<Rightarrow> int res" where
  "fionread r = (if broken r then Inl (Err Io_Error) else Inr (i32 (int (length (avail r)))))"

text \<open>
  The chunking loop. Each round takes at least one byte off \<open>readable_len\<close> when the page size is
  positive, so \<open>nat readable_len\<close> rounds of fuel are enough.
\<close>

fun drain_loop ::
  "cenv \<Rightarrow> nat \<Rightarrow> bool \<Rightarrow> int \<Rightarrow> serializer \<Rightarrow> reader \<Rightarrow> (serializer \<times> reader) res" where
  "drain_loop k fuel is_small readable_len s src =
     (if readable_len > 0 then
        (case fuel of
           0 \<Rightarrow> Inl Diverge
         | Suc fuel' \<Rightarrow>
             let data_size = min readable_len (chunk_max_data_size k s) in
             rbind (emit k s (FileData (as_u32 data_size)) (Some (src, data_size)) is_small)
               (\<lambda>(s', src').
                  rbind (unwrap src') (\<lambda>src1.
                    drain_loop k fuel' is_small (i32 (readable_len - data_size)) s' src1)))
      else Inr (s, src))"

declare drain_loop.simps [simp del]

definition drain_img_file :: "cenv \<Rightarrow> serializer \<Rightarrow> img_file \<Rightarrow> (bool \<times> serializer \<times> img_file) res" where
  "drain_img_file k s f =
     rbind (fionread (if_pipe f)) (\<lambda>readable_len.
     let is_eof = (readable_len = 0) in
     rbind (is_small_file (regexes k) (if_name f)) (\<lambda>is_small.
     rbind (maybe_write_filename_marker k s (if_name f) is_small) (\<lambda>s1.
     rbind (drain_loop k (nat readable_len) is_small readable_len s1 (if_pipe f)) (\<lambda>(s2, src).
     rbind (if is_eof
            then rbind (emit k (s2\<lparr>metadata := metadata s2 @ [if_name f]\<rparr>) (FileEof True) None is_small)
                   (\<lambda>(s3, _). Inr s3)
            else Inr s2) (\<lambda>s3.
       Inr (\<not> is_eof, s3, f\<lparr>if_pipe := src\<rparr>))))))"

section \<open>The end of the image\<close>

definition write_metadata_to_small_shard :: "cenv \<Rightarrow> serializer \<Rightarrow> serializer res" where
  "write_metadata_to_small_shard k s =
     rbind (emit k s (Filename METADATA_FILE) None True) (\<lambda>(s1, _).
     let bytes = to_json k (metadata s1);
         (m, s2) = gen_marker s1 (FileData (as_u32 (int (length bytes)))) True;
         sh = small_shard s2 in
     rbind (pb_write (pb_enc k) (sh_pipe sh) m) (\<lambda>(p1, marker_size).
     rbind (write_all p1 bytes) (\<lambda>p2.
     let s3 = s2\<lparr>small_shard :=
                   sh\<lparr>sh_pipe := p2,
                      bytes_written :=
                        u64_add (bytes_written sh) (u64_add (length bytes) marker_size)\<rparr>\<rparr> in
     rbind (emit k s3 (FileEof True) None True) (\<lambda>(s4, _). Inr s4))))"

definition write_image_eof :: "cenv \<Rightarrow> serializer \<Rightarrow> serializer res" where
  "write_image_eof k s =
     rbind (write_metadata_to_small_shard k s) (\<lambda>s1.
     rbind (emit k s1 (ImageEof True) None False) (\<lambda>(s2, _). Inr s2))"

section \<open>A whole capture\<close>

text \<open>
  The calls the main loop of \<open>capture\<close> makes on the serializer: one \<open>drain_img_file\<close> for each
  readiness event of an image file's pipe. An event is the file's name with what its pipe holds
  at that moment; an empty pipe means the writer has closed it.
\<close>

type_synonym drain_event = "string \<times> byte list"

definition event_file :: "drain_event \<Rightarrow> img_file" where
  "event_file e = \<lparr>if_pipe = \<lparr>avail = snd e, broken = False\<rparr>, if_name = fst e\<rparr>"

fun drain_events :: "cenv \<Rightarrow> serializer \<Rightarrow> drain_event list \<Rightarrow> serializer res" where
  "drain_events k s [] = Inr s"
| "drain_events k s (e # es) =
     rbind (drain_img_file k s (event_file e)) (\<lambda>(_, s', _). drain_events k s' es)"

definition capture_events ::
  "cenv \<Rightarrow> shard list \<Rightarrow> int \<Rightarrow> drain_event list \<Rightarrow> serializer res" where
  "capture_events k shs cap es =
     rbind (serializer_new shs cap) (\<lambda>s.
     rbind (drain_events k s es) (\<lambda>s1. write_image_eof k s1))"

section \<open>Properties\<close>


definition two_shard_state :: serializer where
  "two_shard_state = \<lparr>small_shard = shard_new 3 \<lparr>written = [], room = None\<rparr>, small_seq = 0,
     shards = [(shard_new 4 \<lparr>written = [], room = None\<rparr>)\<lparr>remaining_space := 10\<rparr>,
               (shard_new 5 \<lparr>written = [], room = None\<rparr>)\<lparr>remaining_space := 90\<rparr>],
     pipe_capacity = 100, next_seq = 0, current_filename = None, current_file_size = 0, metadata = []\<rparr>"

definition small_pages :: cenv where
  "small_pages = \<lparr>page_size = 4, fion = (\<lambda>_ _. Inr 0), splice_n = (\<lambda>_ _ _. 3), regexes = rx_ref,
                  to_json = (\<lambda>_. []), pb_enc = (\<lambda>_. [7])\<rparr>"


text \<open>The room recorded for the small shard is never read again from its pipe: it starts at 0 and
  every chunk takes its size off, so it goes below zero with the first chunk and wraps around as
  an \<open>i32\<close> once 2 GB of small files have passed.\<close>

theorem small_shard_space_only_falls:
  assumes "write_chunk k s m data True = Inr (s', r)"
  shows "remaining_space (small_shard s')
       = i32 (remaining_space (small_shard s)
              - i32 (int (page_size k) + (case data of None \<Rightarrow> 0 | Some (_, sz) \<Rightarrow> sz)))"
  using assms by (auto simp: write_chunk_def put_chunk_def Let_def)

theorem small_shard_space_only_falls_witness:
  "\<exists>s'. write_chunk small_pages (two_shard_state\<lparr>small_shard := (small_shard two_shard_state)
          \<lparr>remaining_space := - (2 ^ 31)\<rparr>\<rparr>) (mk_marker 0 (FileEof True)) None True = Inr (s', None)
      \<and> remaining_space (small_shard s') = 2 ^ 31 - 4"
proof -
  let ?s = "two_shard_state\<lparr>small_shard := (small_shard two_shard_state)\<lparr>remaining_space := - (2 ^ 31)\<rparr>\<rparr>"
  obtain s' where s': "write_chunk small_pages ?s (mk_marker 0 (FileEof True)) None True = Inr (s', None)"
    by (simp add: write_chunk_def put_chunk_def two_shard_state_def small_pages_def pb_write_def KB_def write_all_def
        shard_new_def Let_def rassert_def)
  from small_shard_space_only_falls [OF this] s' show ?thesis
    by (simp add: two_shard_state_def small_pages_def i32_small)
      (simp add: i32_def signed_take_bit_eq_take_bit_shift take_bit_eq_mod)
qed

end
