(* ===== verification/Capture_Log.thy ===== *)
theory Capture_Log
  imports Capture
begin

text \<open>
  What the serializer writes, as an abstract log. An \<open>item\<close> is a marker body with the payload
  that follows it. The small shard carries one list of items; the large items carry the index of
  the shard that was picked for them. \<open>logged\<close> ties the concrete state to a log: the counters
  are the lengths, and every shard's bytes are the frames of its items, numbered by their
  position. \<open>run_items\<close> is the specification: the items a run of drain events must produce.
\<close>

type_synonym item = "body \<times> byte list"
type_synonym clog = "item list \<times> (nat \<times> item) list"

section \<open>Streams of items\<close>

definition item_marker :: "nat \<Rightarrow> item \<Rightarrow> marker" where
  "item_marker i x = mk_marker (i mod 2 ^ 64) (fst x)"

definition item_bytes :: "(marker \<Rightarrow> byte list) \<Rightarrow> nat \<Rightarrow> item \<Rightarrow> byte list" where
  "item_bytes enc i x = frame enc (item_marker i x) @ snd x"

fun stream_from :: "(marker \<Rightarrow> byte list) \<Rightarrow> nat \<Rightarrow> item list \<Rightarrow> byte list" where
  "stream_from enc n [] = []"
| "stream_from enc n (x # xs) = item_bytes enc n x @ stream_from enc (Suc n) xs"

fun shard_from :: "(marker \<Rightarrow> byte list) \<Rightarrow> nat \<Rightarrow> nat \<Rightarrow> (nat \<times> item) list \<Rightarrow> byte list" where
  "shard_from enc j n [] = []"
| "shard_from enc j n ((i, x) # xs) =
     (if i = j then item_bytes enc n x else []) @ shard_from enc j (Suc n) xs"

lemma stream_from_append:
  "stream_from enc n (xs @ ys) = stream_from enc n xs @ stream_from enc (n + length xs) ys"
  by (induction xs arbitrary: n) auto

lemma shard_from_append:
  "shard_from enc j n (xs @ ys) = shard_from enc j n xs @ shard_from enc j (n + length xs) ys"
  by (induction xs arbitrary: n) auto

definition items :: "clog \<Rightarrow> bool \<Rightarrow> item list" where
  "items c small = (if small then fst c else map snd (snd c))"

lemma items_simps [simp]: "items c True = fst c" "items c False = map snd (snd c)"
  by (simp_all add: items_def)

definition logged :: "cenv \<Rightarrow> serializer \<Rightarrow> clog \<Rightarrow> bool" where
  "logged k s c \<longleftrightarrow>
     small_seq s = length (fst c) mod 2 ^ 64
     \<and> next_seq s = length (snd c) mod 2 ^ 64
     \<and> written (sh_pipe (small_shard s)) = stream_from (pb_enc k) 0 (fst c)
     \<and> (\<forall>j < length (shards s). written (sh_pipe (shards s ! j)) = shard_from (pb_enc k) j 0 (snd c))
     \<and> (\<forall>x \<in> set (snd c). fst x < length (shards s))"

text \<open>The fields no chunk write touches.\<close>

definition same_run :: "serializer \<Rightarrow> serializer \<Rightarrow> bool" where
  "same_run s s' \<longleftrightarrow>
     current_filename s' = current_filename s \<and> metadata s' = metadata s
     \<and> pipe_capacity s' = pipe_capacity s \<and> length (shards s') = length (shards s)"

lemma same_run_refl [simp]: "same_run s s"
  by (simp add: same_run_def)

lemma same_run_trans: "same_run s t \<Longrightarrow> same_run t u \<Longrightarrow> same_run s u"
  by (simp add: same_run_def)

section \<open>One chunk\<close>

definition moved :: "(reader \<times> int) option \<Rightarrow> byte list" where
  "moved data = (case data of None \<Rightarrow> [] | Some (src, sz) \<Rightarrow> take (nat sz) (avail src))"

definition rest_of :: "(reader \<times> int) option \<Rightarrow> reader option" where
  "rest_of data = (case data of None \<Rightarrow> None
                   | Some (src, sz) \<Rightarrow> Some (src\<lparr>avail := drop (nat sz) (avail src)\<rparr>))"

lemma moved_simps [simp]:
  "moved None = []" "moved (Some (src, sz)) = take (nat sz) (avail src)"
  by (simp_all add: moved_def)

lemma rest_of_simps [simp]:
  "rest_of None = None" "rest_of (Some (src, sz)) = Some (src\<lparr>avail := drop (nat sz) (avail src)\<rparr>)"
  by (simp_all add: rest_of_def)

lemma put_chunk_Inr:
  assumes "put_chunk k sm m data req sh = Inr (sh', n, r)"
  shows "written (sh_pipe sh') = written (sh_pipe sh) @ frame (pb_enc k) m @ moved data
         \<and> r = rest_of data \<and> sh_fd sh' = sh_fd sh"
proof (cases data)
  case None
  with assms show ?thesis
    by (auto simp: put_chunk_def pb_write_Inr Let_def dest!: write_all_written)
next
  case (Some d)
  obtain src sz where d: "d = (src, sz)" by (cases d)
  with Some assms obtain p1 l src' p2 where
    w: "pb_write (pb_enc k) (sh_pipe sh) m = Inr (p1, l)"
    and sp: "splice_all (splice_n k sm (mseq m)) src p1 (nat sz) = Inr (src', p2)"
    and sh': "sh_pipe sh' = p2" "sh_fd sh' = sh_fd sh" and r: "r = Some src'"
    by (auto simp: put_chunk_def Let_def)
  from w have "written p1 = written (sh_pipe sh) @ frame (pb_enc k) m"
    by (auto simp: pb_write_Inr dest!: write_all_written)
  with splice_all_Inr [OF sp] sh' r Some d show ?thesis by simp
qed

lemma refresh_remaining_Inr:
  "refresh_remaining_space k t cap sh = Inr sh' \<Longrightarrow> sh_pipe sh' = sh_pipe sh \<and> sh_fd sh' = sh_fd sh"
  by (auto simp: refresh_remaining_space_def)

lemma refresh_all_Inr:
  assumes "refresh_all_shard_remaining_space k t s = Inr s'"
  shows "length (shards s') = length (shards s)"
    and "\<And>j. j < length (shards s) \<Longrightarrow> sh_pipe (shards s' ! j) = sh_pipe (shards s ! j)"
    and "\<exists>shs. s' = s\<lparr>shards := shs\<rparr>"
proof -
  from assms obtain shs where r: "rmap (refresh_remaining_space k t (pipe_capacity s)) (shards s) = Inr shs"
    and s': "s' = s\<lparr>shards := shs\<rparr>"
    by (auto simp: refresh_all_shard_remaining_space_def)
  show "length (shards s') = length (shards s)" using rmap_Inr_length [OF r] s' by simp
  show "sh_pipe (shards s' ! j) = sh_pipe (shards s ! j)" if "j < length (shards s)" for j
    using refresh_remaining_Inr [OF rmap_Inr_nth [OF r that]] s' by simp
  show "\<exists>shs. s' = s\<lparr>shards := shs\<rparr>" using s' by blast
qed

lemma refresh_logged:
  assumes "refresh_all_shard_remaining_space k t s = Inr s'"
  shows "logged k s' c \<longleftrightarrow> logged k s c" "same_run s s'" "shards s \<noteq> [] \<Longrightarrow> shards s' \<noteq> []"
  using refresh_all_Inr [OF assms] by (auto simp: logged_def same_run_def)

lemma next_index_mod:
  "u64_add (n mod 18446744073709551616) (Suc 0) = Suc n mod 18446744073709551616"
  by (simp add: u64_add_def mod_Suc_eq)

lemma emit_small_logged:
  assumes "logged k s c" and "emit k s b data True = Inr (s', r)"
  shows "logged k s' (fst c @ [(b, moved data)], snd c) \<and> same_run s s' \<and> r = rest_of data"
proof -
  from assms(2) obtain req sh n where
    p: "put_chunk k True (mk_marker (small_seq s) b) data req (small_shard s) = Inr (sh, n, r)"
    and s': "s' = s\<lparr>small_seq := u64_add (small_seq s) 1, small_shard := sh,
                    current_file_size := u64_add (current_file_size s) n\<rparr>"
    by (auto simp: emit_def gen_marker_def write_chunk_def Let_def)
  from put_chunk_Inr [OF p] assms(1) s' show ?thesis
    by (simp add: logged_def same_run_def stream_from_append item_bytes_def item_marker_def
        next_index_mod)
qed

lemma write_large_Inr:
  assumes "write_chunk k s m data False = Inr (s', r)"
  shows "\<exists>s1 j sh req n. (s1 = s \<or> (\<exists>t. refresh_all_shard_remaining_space k t s = Inr s1))
          \<and> j < length (shards s1)
          \<and> put_chunk k False m data req (shards s1 ! j) = Inr (sh, n, r)
          \<and> s' = s1\<lparr>shards := (shards s1)[j := sh],
                    current_file_size := u64_add (current_file_size s1) n\<rparr>"
proof -
  define req where "req = i32 (int (page_size k) + (case data of None \<Rightarrow> 0 | Some (_, sz) \<Rightarrow> sz))"
  from assms obtain top :: shard and s1 sh0 sh n where
    s1: "(if remaining_space top < req then refresh_all_shard_remaining_space k (mseq m) s else Inr s)
         = Inr s1"
    and pk: "heap_peek shard_cmp (shards s1) = Some sh0"
    and p: "put_chunk k False m data req sh0 = Inr (sh, n, r)"
    and s': "s1\<lparr>shards := heap_set_top shard_cmp sh (shards s1),
                current_file_size := u64_add (current_file_size s1) n\<rparr> = s'"
    unfolding write_chunk_def Let_def req_def [symmetric] 
    by (simp add: split_paired_Ex) blast
  have "s1 = s \<or> refresh_all_shard_remaining_space k (mseq m) s = Inr s1"
    using s1 by (auto split: if_splits)
  with pk p s' show ?thesis
    by (intro exI [of _ s1] exI [of _ "top_index shard_cmp (shards s1)"] exI [of _ sh]
        exI [of _ req] exI [of _ n])
       (auto simp: heap_peek_Some heap_set_top_def top_index_less)
qed

lemma emit_large_logged:
  assumes "logged k s c" and "emit k s b data False = Inr (s', r)"
  shows "\<exists>j. logged k s' (fst c, snd c @ [(j, b, moved data)]) \<and> same_run s s' \<and> r = rest_of data"
proof -
  let ?s0 = "s\<lparr>next_seq := u64_add (next_seq s) 1\<rparr>"
  from assms(2) have "write_chunk k ?s0 (mk_marker (next_seq s) b) data False = Inr (s', r)"
    by (simp add: emit_def gen_marker_def)
  from write_large_Inr [OF this] obtain s1 j sh req n where
    s1: "s1 = ?s0 \<or> (\<exists>t. refresh_all_shard_remaining_space k t ?s0 = Inr s1)"
    and j: "j < length (shards s1)"
    and p: "put_chunk k False (mk_marker (next_seq s) b) data req (shards s1 ! j) = Inr (sh, n, r)"
    and s': "s' = s1\<lparr>shards := (shards s1)[j := sh],
                     current_file_size := u64_add (current_file_size s1) n\<rparr>"
    by (elim exE conjE) (rule that)
  have "\<exists>shs. s1 = ?s0\<lparr>shards := shs\<rparr> \<and> length shs = length (shards s)
              \<and> (\<forall>i < length (shards s). sh_pipe (shs ! i) = sh_pipe (shards s ! i))"
    using s1
  proof (elim disjE exE)
    assume "s1 = ?s0"
    then show ?thesis by (intro exI [of _ "shards s"]) simp
  next
    fix t
    assume "refresh_all_shard_remaining_space k t ?s0 = Inr s1"
    from refresh_all_Inr [OF this] show ?thesis by (intro exI [of _ "shards s1"]) auto
  qed
  then obtain shs where shs: "s1 = ?s0\<lparr>shards := shs\<rparr>" "length shs = length (shards s)"
    "\<And>i. i < length (shards s) \<Longrightarrow> sh_pipe (shs ! i) = sh_pipe (shards s ! i)" by blast
  let ?c = "(fst c, snd c @ [(j, b, moved data)])"
  have w: "written (sh_pipe (shs[j := sh] ! i)) = shard_from (pb_enc k) i 0 (snd ?c)"
    if "i < length (shards s)" for i
    using put_chunk_Inr [OF p] shs j that assms(1)
    by (simp add: logged_def shard_from_append item_bytes_def item_marker_def nth_list_update)
  have "logged k s' ?c"
    using assms(1) shs j s' w unfolding logged_def by (simp add: next_index_mod)
  moreover have "same_run s s'" using shs s' by (simp add: same_run_def)
  ultimately show ?thesis using put_chunk_Inr [OF p] by blast
qed

text \<open>Both cases at once: the class written to gains the item, the other stays.\<close>

lemma emit_logged:
  assumes "logged k s c" and "emit k s b data sm = Inr (s', r)"
  shows "\<exists>c'. logged k s' c' \<and> items c' sm = items c sm @ [(b, moved data)]
              \<and> items c' (\<not> sm) = items c (\<not> sm) \<and> same_run s s' \<and> r = rest_of data"
proof (cases sm)
  case True
  with emit_small_logged [OF assms(1), of b data s' r] assms(2) show ?thesis
    by (intro exI [of _ "(fst c @ [(b, moved data)], snd c)"]) simp
next
  case False
  with emit_large_logged [OF assms(1), of b data s' r] assms(2) show ?thesis
    by (force simp: items_def)
qed

text \<open>Fields outside \<open>logged\<close> can be set freely.\<close>

lemma logged_set [simp]:
  "logged k (s\<lparr>current_filename := x\<rparr>) c = logged k s c"
  "logged k (s\<lparr>metadata := md\<rparr>) c = logged k s c"
  by (simp_all add: logged_def)

section \<open>The items a run must produce\<close>

fun chop :: "nat \<Rightarrow> 'a list \<Rightarrow> 'a list list" where
  "chop n xs = (if xs = [] \<or> n = 0 then [] else take n xs # chop n (drop n xs))"

declare chop.simps [simp del]

lemma chop_Nil [simp]: "chop n [] = []"
  by (simp add: chop.simps)

lemma chop_step: "xs \<noteq> [] \<Longrightarrow> 0 < n \<Longrightarrow> chop n xs = take n xs # chop n (drop n xs)"
  by (subst chop.simps) simp

lemma concat_chop: "0 < n \<Longrightarrow> concat (chop n xs) = xs"
proof (induction n xs rule: chop.induct)
  case (1 n xs)
  then show ?case by (cases "xs = []") (simp_all add: chop_step)
qed

lemma chop_bounds: "d \<in> set (chop n xs) \<Longrightarrow> d \<noteq> [] \<and> length d \<le> n \<and> length d \<le> length xs"
proof (induction n xs rule: chop.induct)
  case (1 n xs)
  show ?case
  proof (cases "xs = [] \<or> n = 0")
    case True
    with "1.prems" show ?thesis by (auto simp: chop.simps [of n xs])
  next
    case False
    with "1.prems" consider "d = take n xs" | "d \<in> set (chop n (drop n xs))"
      by (auto simp: chop_step)
    then show ?thesis
    proof cases
      case 1
      with False show ?thesis by auto
    next
      case 2
      with "1.IH" [OF False 2] show ?thesis by auto
    qed
  qed
qed

definition data_item :: "byte list \<Rightarrow> item" where
  "data_item d = (FileData (length d), d)"

definition chunk_bytes :: "cenv \<Rightarrow> int \<Rightarrow> nat" where
  "chunk_bytes k cap = nat (max (i32 (cap sdiv 4 - int (page_size k))) (int (page_size k)))"

definition small_name :: "cenv \<Rightarrow> string \<Rightarrow> bool" where
  "small_name k f \<longleftrightarrow> is_small_file (regexes k) f = Inr True"

definition event_items :: "nat \<Rightarrow> string option \<Rightarrow> drain_event \<Rightarrow> item list" where
  "event_items n cur e =
     (if cur = Some (fst e) then [] else [(Filename (fst e), [])])
     @ map data_item (chop n (snd e))
     @ (if snd e = [] then [(FileEof True, [])] else [])"

fun run_items :: "(string \<Rightarrow> bool) \<Rightarrow> nat \<Rightarrow> bool \<Rightarrow> string option \<Rightarrow> drain_event list \<Rightarrow> item list" where
  "run_items small n want cur [] = []"
| "run_items small n want cur (e # es) =
     (if small (fst e) = want then event_items n cur e else [])
     @ run_items small n want (Some (fst e)) es"

definition finished_names :: "drain_event list \<Rightarrow> string list" where
  "finished_names es = map fst (filter (\<lambda>e. snd e = []) es)"

text \<open>The serializer implements the specification, event by event.\<close>

lemma chunk_max_bytes: "nat (chunk_max_data_size k s) = chunk_bytes k (pipe_capacity s)"
  by (simp add: chunk_max_data_size_def chunk_bytes_def)

lemma chunk_bytes_pos: "0 < page_size k \<Longrightarrow> 0 < chunk_bytes k cap"
  by (simp add: chunk_bytes_def)

lemma drain_loop_logged:
  "0 < page_size k \<Longrightarrow> logged k s c \<Longrightarrow> drain_loop k fuel sm r s src = Inr (s', src') \<Longrightarrow>
   0 \<le> r \<Longrightarrow> r < 2 ^ 31 \<Longrightarrow> nat r \<le> length (avail src) \<Longrightarrow>
   \<exists>c'. logged k s' c'
        \<and> items c' sm = items c sm
            @ map data_item (chop (chunk_bytes k (pipe_capacity s)) (take (nat r) (avail src)))
        \<and> items c' (\<not> sm) = items c (\<not> sm) \<and> same_run s s'
        \<and> avail src' = drop (nat r) (avail src)"
proof (induction fuel arbitrary: r s src c)
  case 0
  then show ?case
    by (subst (asm) drain_loop.simps)
       (auto split: if_splits intro!: exI [of _ "fst c"] exI [of _ "snd c"])
next
  case (Suc fuel)
  show ?case
  proof (cases "r > 0")
    case False
    with Suc.prems show ?thesis
      by (subst (asm) drain_loop.simps) (auto intro!: exI [of _ "fst c"] exI [of _ "snd c"])
  next
    case True
    let ?n = "chunk_bytes k (pipe_capacity s)"
    define d where "d = min r (chunk_max_data_size k s)"
    have n: "0 < ?n" "nat d = min (nat r) ?n" "0 < d" "d \<le> r"
      using chunk_bytes_pos [OF Suc.prems(1), of "pipe_capacity s"] True
      by (auto simp: d_def chunk_max_bytes [symmetric])
    from Suc.prems(3) True obtain s1 r1 src1 where
      e: "emit k s (FileData (as_u32 d)) (Some (src, d)) sm = Inr (s1, r1)"
      and r1: "r1 = Some src1"
      and rec: "drain_loop k fuel sm (i32 (r - d)) s1 src1 = Inr (s', src')"
      by (subst (asm) drain_loop.simps) (auto simp: Let_def d_def)
    from emit_logged [OF Suc.prems(2) e] obtain c1 where c1: "logged k s1 c1"
      "items c1 sm = items c sm @ [(FileData (as_u32 d), take (nat d) (avail src))]"
      "items c1 (\<not> sm) = items c (\<not> sm)" "same_run s s1"
      "src1 = src\<lparr>avail := drop (nat d) (avail src)\<rparr>"
      using r1 by auto
    have i: "i32 (r - d) = r - d" using n Suc.prems by (intro i32_small) auto
    have cap: "pipe_capacity s1 = pipe_capacity s" using c1(4) by (simp add: same_run_def)
    have b: "0 \<le> r - d" "r - d < 2 ^ 31" "nat (r - d) \<le> length (avail src1)"
      using n Suc.prems c1(5) by auto
    obtain c' where c'0: "logged k s' c'
      \<and> items c' sm = items c1 sm
          @ map data_item (chop (chunk_bytes k (pipe_capacity s1)) (take (nat (r - d)) (avail src1)))
      \<and> items c' (\<not> sm) = items c1 (\<not> sm) \<and> same_run s1 s'
      \<and> avail src' = drop (nat (r - d)) (avail src1)"
      by (rule exE [OF Suc.IH [OF Suc.prems(1) c1(1) rec [unfolded i] b]])
    have c': "logged k s' c'"
      "items c' sm = items c1 sm @ map data_item (chop ?n (take (nat (r - d)) (drop (nat d) (avail src))))"
      "items c' (\<not> sm) = items c1 (\<not> sm)" "same_run s1 s'"
      "avail src' = drop (nat (r - d)) (drop (nat d) (avail src))"
      using c'0 cap c1(5) by simp_all
    have "take (nat r) (avail src) \<noteq> []" using Suc.prems n True by auto
    moreover have "take ?n (take (nat r) (avail src)) = take (nat d) (avail src)"
      using n by (simp add: min.commute)
    moreover have "drop ?n (take (nat r) (avail src)) = take (nat (r - d)) (drop (nat d) (avail src))"
      using n by (cases "nat r \<le> ?n") (auto simp: drop_take nat_diff_distrib min_def)
    ultimately have "map data_item (chop ?n (take (nat r) (avail src)))
      = (FileData (as_u32 d), take (nat d) (avail src))
        # map data_item (chop ?n (take (nat (r - d)) (drop (nat d) (avail src))))"
      using n Suc.prems by (simp add: chop_step data_item_def as_u32_small min_absorb2)
    moreover have "nat (r - d) + nat d = nat r" using n by simp
    moreover have "same_run s s'" using c1(4) c'(4) by (rule same_run_trans)
    ultimately show ?thesis using c1 c' by (intro exI [of _ c'] conjI) simp_all
  qed
qed

lemma small_name_Inr: "is_small_file (regexes k) f = Inr b \<Longrightarrow> small_name k f = b"
  by (simp add: small_name_def)

lemma drain_img_file_logged:
  assumes pos: "0 < page_size k" and log: "logged k s c" and len: "length (snd e) < 2 ^ 31"
    and run: "drain_img_file k s (event_file e) = Inr (going, s', f')"
  shows "\<exists>c'. logged k s' c'
          \<and> items c' (small_name k (fst e)) = items c (small_name k (fst e))
              @ event_items (chunk_bytes k (pipe_capacity s)) (current_filename s) e
          \<and> items c' (\<not> small_name k (fst e)) = items c (\<not> small_name k (fst e))
          \<and> current_filename s' = Some (fst e) \<and> pipe_capacity s' = pipe_capacity s
          \<and> metadata s' = metadata s @ (if snd e = [] then [fst e] else [])
          \<and> length (shards s') = length (shards s)"
proof -
  let ?f = "fst e" and ?bs = "snd e" and ?n = "chunk_bytes k (pipe_capacity s)"
  have r: "i32 (int (length ?bs)) = int (length ?bs)" using len by (intro i32_small) auto
  from run r obtain sm s1 s2 src where
    sm: "is_small_file (regexes k) ?f = Inr sm"
    and w: "maybe_write_filename_marker k s ?f sm = Inr s1"
    and dl: "drain_loop k (length ?bs) sm (int (length ?bs)) s1 \<lparr>avail = ?bs, broken = False\<rparr>
             = Inr (s2, src)"
    and fin: "(if ?bs = []
               then rbind (emit k (s2\<lparr>metadata := metadata s2 @ [?f]\<rparr>) (FileEof True) None sm)
                      (\<lambda>(s3, _). Inr s3)
               else Inr s2) = Inr s'"
    by (fastforce simp: drain_img_file_def event_file_def fionread_def Let_def)
  note small = small_name_Inr [OF sm]
  obtain c1 where c1: "logged k s1 c1"
    "items c1 sm = items c sm @ (if current_filename s = Some ?f then [] else [(Filename ?f, [])])"
    "items c1 (\<not> sm) = items c (\<not> sm)" "current_filename s1 = Some ?f"
    "pipe_capacity s1 = pipe_capacity s" "metadata s1 = metadata s"
    "length (shards s1) = length (shards s)"
  proof (cases "current_filename s = Some ?f")
    case True
    with w log that [of c] show ?thesis by (simp add: maybe_write_filename_marker_def)
  next
    case False
    with w obtain r' where
      "emit k (s\<lparr>current_filename := Some ?f\<rparr>) (Filename ?f) None sm = Inr (s1, r')"
      by (auto simp: maybe_write_filename_marker_def)
    from emit_logged [OF _ this, of c] log False that show ?thesis
      by (auto simp: same_run_def)
  qed
  from drain_loop_logged [OF pos c1(1) dl] len obtain c2 where c2: "logged k s2 c2"
    "items c2 sm = items c1 sm @ map data_item (chop ?n ?bs)"
    "items c2 (\<not> sm) = items c1 (\<not> sm)" "same_run s1 s2"
    by (auto simp: c1(5))
  show ?thesis
  proof (cases "?bs = []")
    case False
    with fin c1 c2 small show ?thesis
      by (intro exI [of _ c2]) (simp add: event_items_def same_run_def)
  next
    case True
    with fin obtain r' where
      "emit k (s2\<lparr>metadata := metadata s2 @ [?f]\<rparr>) (FileEof True) None sm = Inr (s', r')"
      by auto
    from emit_logged [OF _ this, of c2] c2 obtain c3 where "logged k s' c3"
      "items c3 sm = items c2 sm @ [(FileEof True, [])]" "items c3 (\<not> sm) = items c2 (\<not> sm)"
      "same_run (s2\<lparr>metadata := metadata s2 @ [?f]\<rparr>) s'"
      by auto
    with True c1 c2 small show ?thesis
      by (intro exI [of _ c3]) (simp add: event_items_def same_run_def)
  qed
qed

section \<open>A whole capture\<close>

lemma drain_events_logged:
  "0 < page_size k \<Longrightarrow> logged k s c \<Longrightarrow> (\<forall>e \<in> set es. length (snd e) < 2 ^ 31) \<Longrightarrow>
   drain_events k s es = Inr s' \<Longrightarrow>
   \<exists>c'. logged k s' c'
        \<and> (\<forall>want. items c' want = items c want
             @ run_items (small_name k) (chunk_bytes k (pipe_capacity s)) want (current_filename s) es)
        \<and> metadata s' = metadata s @ finished_names es \<and> length (shards s') = length (shards s)"
proof (induction es arbitrary: s c)
  case Nil
  then show ?case by (auto simp: finished_names_def intro!: exI [of _ "fst c"] exI [of _ "snd c"])
next
  case (Cons e es)
  from Cons.prems(4) obtain going s1 f' where
    d: "drain_img_file k s (event_file e) = Inr (going, s1, f')"
    and rest: "drain_events k s1 es = Inr s'"
    by auto
  have len: "length (snd e) < 2 ^ 31" using Cons.prems(3) by simp
  obtain c1 where c1: "logged k s1 c1
      \<and> items c1 (small_name k (fst e)) = items c (small_name k (fst e))
          @ event_items (chunk_bytes k (pipe_capacity s)) (current_filename s) e
      \<and> items c1 (\<not> small_name k (fst e)) = items c (\<not> small_name k (fst e))
      \<and> current_filename s1 = Some (fst e) \<and> pipe_capacity s1 = pipe_capacity s
      \<and> metadata s1 = metadata s @ (if snd e = [] then [fst e] else [])
      \<and> length (shards s1) = length (shards s)"
    by (rule exE [OF drain_img_file_logged [OF Cons.prems(1,2) len d]])
  have tl: "\<forall>e \<in> set es. length (snd e) < 2 ^ 31" using Cons.prems(3) by simp
  obtain c' where c': "logged k s' c'
      \<and> (\<forall>want. items c' want = items c1 want
           @ run_items (small_name k) (chunk_bytes k (pipe_capacity s1)) want (current_filename s1) es)
      \<and> metadata s' = metadata s1 @ finished_names es \<and> length (shards s') = length (shards s1)"
    using c1 by (elim conjE) (rule exE [OF Cons.IH [OF Cons.prems(1) _ tl rest]])
  have "items c' want = items c want
      @ run_items (small_name k) (chunk_bytes k (pipe_capacity s)) want (current_filename s) (e # es)"
    for want
    using c1 c' by (cases "small_name k (fst e) = want") auto
  with c1 c' show ?case
    by (intro exI [of _ c'] conjI) (simp_all add: finished_names_def)
qed

definition metadata_items :: "cenv \<Rightarrow> string list \<Rightarrow> item list" where
  "metadata_items k names =
     [(Filename METADATA_FILE, []),
      (FileData (length (to_json k names)), to_json k names),
      (FileEof True, [])]"

text \<open>Everything one image has on the small shard, and everything on the other shards.\<close>

definition small_items :: "cenv \<Rightarrow> int \<Rightarrow> drain_event list \<Rightarrow> item list" where
  "small_items k cap es =
     run_items (small_name k) (chunk_bytes k cap) True None es @ metadata_items k (finished_names es)"

definition large_items :: "cenv \<Rightarrow> int \<Rightarrow> drain_event list \<Rightarrow> item list" where
  "large_items k cap es =
     run_items (small_name k) (chunk_bytes k cap) False None es @ [(ImageEof True, [])]"

lemma write_metadata_logged:
  assumes log: "logged k s c" and len: "length (to_json k (metadata s)) < 2 ^ 32"
    and run: "write_metadata_to_small_shard k s = Inr s'"
  shows "\<exists>c'. logged k s' c' \<and> items c' True = items c True @ metadata_items k (metadata s)
          \<and> items c' False = items c False \<and> same_run s s'"
proof -
  let ?js = "to_json k (metadata s)"
  define q where "q = as_u32 (int (length ?js))"
  have q: "q = length ?js" using len by (simp add: q_def as_u32_small)
  from run obtain s1 r1 where e1: "emit k s (Filename METADATA_FILE) None True = Inr (s1, r1)"
    by (auto simp: write_metadata_to_small_shard_def)
  note l1 = emit_small_logged [OF log e1]
  then have md: "metadata s1 = metadata s" by (simp add: same_run_def)
  define s2 where "s2 = s1\<lparr>small_seq := u64_add (small_seq s1) 1\<rparr>"
  from run e1 md obtain p1 ms p2 r2 where
    w1: "pb_write (pb_enc k) (sh_pipe (small_shard s1)) (mk_marker (small_seq s1) (FileData q))
         = Inr (p1, ms)"
    and w2: "write_all p1 ?js = Inr p2"
    and e2: "emit k (s2\<lparr>small_shard := (small_shard s1)\<lparr>sh_pipe := p2, bytes_written :=
               u64_add (bytes_written (small_shard s1)) (u64_add (length ?js) ms)\<rparr>\<rparr>)
               (FileEof True) None True = Inr (s', r2)"
    by (auto simp: write_metadata_to_small_shard_def gen_marker_def s2_def q_def Let_def)
  have "written p2 = written (sh_pipe (small_shard s1))
          @ frame (pb_enc k) (mk_marker (small_seq s1) (FileData q)) @ ?js"
    using w1 w2 by (auto simp: pb_write_Inr dest!: write_all_written)
  then have "logged k (s2\<lparr>small_shard := (small_shard s1)\<lparr>sh_pipe := p2, bytes_written :=
               u64_add (bytes_written (small_shard s1)) (u64_add (length ?js) ms)\<rparr>\<rparr>)
               (fst c @ [(Filename METADATA_FILE, []), (FileData q, ?js)], snd c)"
    using l1 by (simp add: logged_def s2_def stream_from_append item_bytes_def item_marker_def
        next_index_mod)
  from emit_small_logged [OF this e2] l1 show ?thesis
    unfolding items_simps metadata_items_def q
    by (intro exI [of _ "(fst c @ [(Filename METADATA_FILE, []), (FileData (length ?js), ?js),
          (FileEof True, [])], snd c)"])
       (simp add: same_run_def s2_def q)
qed

lemma write_image_eof_logged:
  assumes log: "logged k s c" and len: "length (to_json k (metadata s)) < 2 ^ 32"
    and run: "write_image_eof k s = Inr s'"
  shows "\<exists>c'. logged k s' c' \<and> items c' True = items c True @ metadata_items k (metadata s)
          \<and> items c' False = items c False @ [(ImageEof True, [])]
          \<and> length (shards s') = length (shards s)"
proof -
  from run obtain s1 r where m: "write_metadata_to_small_shard k s = Inr s1"
    and e: "emit k s1 (ImageEof True) None False = Inr (s', r)"
    by (auto simp: write_image_eof_def)
  obtain c1 where c1: "logged k s1 c1 \<and> items c1 True = items c True @ metadata_items k (metadata s)
      \<and> items c1 False = items c False \<and> same_run s s1"
    by (rule exE [OF write_metadata_logged [OF log len m]])
  obtain j where "logged k s' (fst c1, snd c1 @ [(j, ImageEof True, moved None)]) \<and> same_run s1 s'
      \<and> r = rest_of None"
    using c1 by (elim conjE) (rule exE [OF emit_large_logged [OF _ e]])
  with c1 show ?thesis
    by (intro exI [of _ "(fst c1, snd c1 @ [(j, ImageEof True, moved None)])"])
       (simp add: same_run_def)
qed

definition fresh_shards :: "shard list \<Rightarrow> bool" where
  "fresh_shards shs \<longleftrightarrow> (\<forall>sh \<in> set shs. written (sh_pipe sh) = [])"

text \<open>A run within the limits of the integer types the code casts to.\<close>

definition run_fits :: "cenv \<Rightarrow> drain_event list \<Rightarrow> bool" where
  "run_fits k es \<longleftrightarrow>
     0 < page_size k \<and> (\<forall>e \<in> set es. length (snd e) < 2 ^ 31)
     \<and> length (to_json k (finished_names es)) < 2 ^ 32"

lemma shard_from_empty [simp]: "shard_from enc j n [] = []"
  by simp

lemma capture_logged:
  assumes "capture_events k shs cap es = Inr s" and "fresh_shards shs" and "run_fits k es"
  shows "\<exists>c. logged k s c \<and> items c True = small_items k cap es \<and> items c False = large_items k cap es
             \<and> length (shards s) = length shs - 1 \<and> 2 \<le> length shs"
proof -
  from assms(1) obtain s0 s1 where s0: "serializer_new shs cap = Inr s0"
    and d: "drain_events k s0 es = Inr s1" and w: "write_image_eof k s1 = Inr s"
    by (auto simp: capture_events_def)
  from s0 have len: "2 \<le> length shs" and s0': "shards s0 = tl shs" "small_shard s0 = hd shs"
    "pipe_capacity s0 = cap" "current_filename s0 = None" "metadata s0 = []"
    "small_seq s0 = 0" "next_seq s0 = 0"
    by (auto simp: serializer_new_def)
  have "hd shs \<in> set shs" using len by (cases shs) auto
  moreover have "tl shs ! j \<in> set shs" if "j < length shs - 1" for j
    using that len by (cases shs) auto
  ultimately have l0: "logged k s0 ([], [])"
    using assms(2) by (simp add: logged_def s0' fresh_shards_def)
  have fits: "0 < page_size k" "\<forall>e \<in> set es. length (snd e) < 2 ^ 31"
    using assms(3) by (simp_all add: run_fits_def)
  obtain c1 where c1: "logged k s1 c1 \<and> (\<forall>want. items c1 want = items ([], []) want
        @ run_items (small_name k) (chunk_bytes k (pipe_capacity s0)) want (current_filename s0) es)
      \<and> metadata s1 = metadata s0 @ finished_names es \<and> length (shards s1) = length (shards s0)"
    by (rule exE [OF drain_events_logged [OF fits(1) l0 fits(2) d]])
  have len1: "length (to_json k (metadata s1)) < 2 ^ 32"
    using c1 s0' assms(3) by (simp add: run_fits_def)
  obtain c2 where "logged k s c2 \<and> items c2 True = items c1 True @ metadata_items k (metadata s1)
      \<and> items c2 False = items c1 False @ [(ImageEof True, [])]
      \<and> length (shards s) = length (shards s1)"
    using c1 by (elim conjE) (rule exE [OF write_image_eof_logged [OF _ len1 w]])
  moreover have "items c1 want = run_items (small_name k) (chunk_bytes k cap) want None es" for want
    using c1 s0' by (cases want) (simp_all add: items_def)
  from this [of True] this [of False]
  have "fst c1 = run_items (small_name k) (chunk_bytes k cap) True None es"
    "map snd (snd c1) = run_items (small_name k) (chunk_bytes k cap) False None es" by simp_all
  ultimately show ?thesis
    using c1 s0' len by (intro exI [of _ c2]) (simp add: small_items_def large_items_def)
qed

end
