(* ===== verification/Image_Store.thy ===== *)
theory Image_Store
  imports Bytes
begin

text \<open>
  The interface of \<open>src/image_store/mod.rs\<close>: the trait \<open>ImageStore\<close> with its associated file
  type and \<open>ImageFile::write_all_from_pipe\<close>, as a record of operations on a store state \<open>'s\<close>
  and file handles \<open>'f\<close>. Effects a file has on shared state (a disk, a channel, a semaphore)
  are effects on \<open>'s\<close>.

  The locale \<open>image_store\<close> is the contract the deserializer relies on; the providers
  (\<open>Mem_Store\<close>, \<open>Fs_Store\<close>, \<open>Overlay_Store\<close>, \<open>Parallel_Store\<close>) interpret it.
\<close>

record ('s, 'f) store_ops =
  so_create :: "'s \<Rightarrow> string \<Rightarrow> ('s \<times> 'f) res"
  so_insert :: "'s \<Rightarrow> string \<Rightarrow> 'f \<Rightarrow> 's res"
  so_write :: "'s \<Rightarrow> 'f \<Rightarrow> reader \<Rightarrow> nat \<Rightarrow> ('s \<times> 'f \<times> reader) res"

text \<open>
  \<open>unused st n\<close>: \<open>n\<close> can still be created. \<open>belongs st f n\<close>: \<open>f\<close> is an open handle
  created under \<open>n\<close>. \<open>content st f\<close>: the bytes written through \<open>f\<close>. \<open>stored st n\<close>: what
  the store delivers for a finished file. An operation on one name leaves what every other name
  stores alone, and the names \<open>keep\<close> ready for use.
\<close>

definition leaves_others ::
  "('s \<Rightarrow> string \<Rightarrow> bool) \<Rightarrow> ('s \<Rightarrow> 'f \<Rightarrow> string \<Rightarrow> bool) \<Rightarrow> ('s \<Rightarrow> 'f \<Rightarrow> byte list)
   \<Rightarrow> ('s \<Rightarrow> string \<Rightarrow> byte list option) \<Rightarrow> (string \<Rightarrow> bool) \<Rightarrow> string \<Rightarrow> 's \<Rightarrow> 's \<Rightarrow> bool" where
  "leaves_others unused belongs content stored keep n st st' \<longleftrightarrow>
     (\<forall>m. m \<noteq> n \<longrightarrow>
        stored st' m = stored st m
        \<and> (keep m \<longrightarrow>
             (unused st m \<longrightarrow> unused st' m)
             \<and> (\<forall>g. belongs st g m \<longrightarrow> belongs st' g m \<and> content st' g = content st g)))"

text \<open>
  The contract. \<open>blocks n m\<close>: creating \<open>n\<close> may make it too late for \<open>m\<close> (the store of the
  serve command closes its channel for small files when the first large file is created).
  \<open>fail\<close> bounds the ways an operation may fail when it is called as the deserializer calls it:
  a name is created once, written through its handle with the payload there to be read, and
  inserted once.
\<close>

locale image_store =
  fixes ops :: "('s, 'f) store_ops"
    and inv :: "'s \<Rightarrow> bool"
    and unused :: "'s \<Rightarrow> string \<Rightarrow> bool"
    and belongs :: "'s \<Rightarrow> 'f \<Rightarrow> string \<Rightarrow> bool"
    and content :: "'s \<Rightarrow> 'f \<Rightarrow> byte list"
    and stored :: "'s \<Rightarrow> string \<Rightarrow> byte list option"
    and blocks :: "string \<Rightarrow> string \<Rightarrow> bool"
    and fail :: "failure \<Rightarrow> bool"
  assumes create_law: "\<lbrakk>inv st; unused st n\<rbrakk> \<Longrightarrow>
        holds_or fail (so_create ops st n)
          (\<lambda>(st', f). inv st' \<and> belongs st' f n \<and> content st' f = []
             \<and> leaves_others unused belongs content stored (\<lambda>m. \<not> blocks n m) n st st')"
    and write_law: "\<lbrakk>inv st; belongs st f n; k \<le> length (avail r)\<rbrakk> \<Longrightarrow>
        holds_or fail (so_write ops st f r k)
          (\<lambda>(st', f', r'). inv st' \<and> belongs st' f' n
             \<and> content st' f' = content st f @ take k (avail r)
             \<and> r' = r\<lparr>avail := drop k (avail r)\<rparr>
             \<and> leaves_others unused belongs content stored (\<lambda>_. True) n st st')"
    and insert_law: "\<lbrakk>inv st; belongs st f n\<rbrakk> \<Longrightarrow>
        holds_or fail (so_insert ops st n f)
          (\<lambda>st'. inv st' \<and> stored st' n = Some (content st f)
             \<and> leaves_others unused belongs content stored (\<lambda>_. True) n st st')"

text \<open>The contract with more ways to fail allowed.\<close>

lemma image_store_mono:
  assumes "image_store ops good unused belongs content stored blocks fail"
    and "\<And>e. fail e \<Longrightarrow> fail' e"
  shows "image_store ops good unused belongs content stored blocks fail'"
proof -
  have weaken: "holds_or fail r P \<Longrightarrow> holds_or fail' r P" for r :: "'r res" and P
    using assms(2) by (cases r) auto
  note laws = image_store.create_law [OF assms(1)] image_store.write_law [OF assms(1)]
    image_store.insert_law [OF assms(1)]
  show ?thesis by (unfold_locales) (intro weaken laws; assumption)+
qed

text \<open>A store that never fails when it is used that way.\<close>

locale total_image_store = image_store +
  assumes never_fails: "\<not> fail e"
begin

lemma total: "holds_or fail r P \<Longrightarrow> \<exists>x. r = Inr x \<and> P x"
  by (cases r) (auto simp: never_fails)

end

end
