(* ===== verification/Extract.thy ===== *)
theory Extract
  imports Proto_Marker Filenames Ord_By Image_Store
begin

text \<open>
  The image deserializer of \<open>src/extract.rs\<close>. It first drains the small-file shard to its end,
  then reads markers from whichever of the other shards are readable, keeps out-of-order markers
  in a heap and processes each marker, with its payload, when its sequence number is due.

  \<open>denv\<close> collects what comes from outside the repository: the protobuf and JSON decoders, the
  kernel's \<open>poll()\<close> (indexed by the number of the call; it returns the indices of the ready
  descriptors) and the clock. Loops take fuel; \<open>Drain_Order\<close> and \<open>Roundtrip\<close> show how much
  is enough.
\<close>

section \<open>State\<close>

record denv =
  pb_dec :: "byte list \<Rightarrow> marker option"
  of_json :: "byte list \<Rightarrow> string list option"
  poll_ready :: "nat \<Rightarrow> nat \<Rightarrow> nat list res"   \<comment> \<open>call number, number of descriptors\<close>
  elapsed_millis :: "nat \<Rightarrow> nat"

record dshard =
  dsh_pipe :: reader
  transfer_millis :: nat
  bytes_read :: nat

record pending_marker =
  pm_marker :: marker
  pm_shard :: dshard

record ('s, 'f) deser =
  small_file_shard :: dshard
  small_file_seq :: nat
  de_metadata :: "string list option"
  de_shards :: "dshard list"
  readable_shards :: "dshard list"
  pending_markers :: "pending_marker list"   \<comment> \<open>the binary heap\<close>
  de_seq :: nat
  img_store :: 's
  img_files :: "(string \<times> 'f) list"         \<comment> \<open>the hash map of open files\<close>
  current_img_file :: "(string \<times> 'f) option"
  image_eof :: bool
  finished_shards :: "dshard list"           \<comment> \<open>dropped at EOF; the caller still owns them\<close>
  polls :: nat                               \<comment> \<open>calls of \<open>poll()\<close> so far\<close>

definition dshard_new :: "reader \<Rightarrow> dshard" where
  "dshard_new p = \<lparr>dsh_pipe = p, transfer_millis = 0, bytes_read = 0\<rparr>"

text \<open>The heap order: the lowest sequence number is the greatest element.\<close>

definition pending_cmp :: "pending_marker \<Rightarrow> pending_marker \<Rightarrow> cmp_ord" where
  "pending_cmp a b = reverse_ord (cmp_lin (mseq (pm_marker a)) (mseq (pm_marker b)))"

interpretation pending_order: total_cmp pending_cmp
  by unfold_locales (auto simp: pending_cmp_def cmp_lin_def split: if_splits)

definition deserializer_new :: "'s \<Rightarrow> dshard list \<Rightarrow> ('s, 'f) deser res" where
  "deserializer_new st shs =
     rbind (rassert (2 \<le> length shs)) (\<lambda>_.
       Inr \<lparr>small_file_shard = hd shs, small_file_seq = 0, de_metadata = None,
            de_shards = tl shs, readable_shards = [], pending_markers = [], de_seq = 0,
            img_store = st, img_files = [], current_img_file = None, image_eof = False,
            finished_shards = [], polls = 0\<rparr>)"

section \<open>Processing a marker\<close>

definition mark_image_eof :: "('s, 'f) deser \<Rightarrow> ('s, 'f) deser res" where
  "mark_image_eof d =
     rbind (ensure (img_files d = [] \<and> pending_markers d = []) Image_Eof_Unexpected) (\<lambda>_.
       Inr (d\<lparr>image_eof := True\<rparr>))"

definition select_img_file ::
  "('s, 'f) store_ops \<Rightarrow> ('s, 'f) deser \<Rightarrow> string \<Rightarrow> ('s, 'f) deser res" where
  "select_img_file ops d filename =
     (let files1 = (case current_img_file d of
                      None \<Rightarrow> img_files d
                    | Some (f, out) \<Rightarrow> AList.update f out (img_files d)) in
      case map_of files1 filename of
        Some img_file \<Rightarrow>
          Inr (d\<lparr>img_files := AList.delete filename files1,
                 current_img_file := Some (filename, img_file)\<rparr>)
      | None \<Rightarrow>
          rbind (so_create ops (img_store d) filename) (\<lambda>(st, img_file).
            Inr (d\<lparr>img_store := st, img_files := files1,
                   current_img_file := Some (filename, img_file)\<rparr>)))"

definition process_marker ::
  "('s, 'f) store_ops \<Rightarrow> ('s, 'f) deser \<Rightarrow> marker \<Rightarrow> dshard \<Rightarrow> (('s, 'f) deser \<times> dshard) res" where
  "process_marker ops d m sh =
     (case mbody m of
        Some (Filename filename) \<Rightarrow>
          rbind (select_img_file ops d filename) (\<lambda>d'. Inr (d', sh))
      | Some (FileData sz) \<Rightarrow>
          rbind (ok_or (current_img_file d) Unexpected_FileData) (\<lambda>(filename, img_file).
          rbind (so_write ops (img_store d) img_file (dsh_pipe sh) sz) (\<lambda>(st, img_file', rd).
            Inr (d\<lparr>img_store := st, current_img_file := Some (filename, img_file')\<rparr>,
                 sh\<lparr>dsh_pipe := rd, bytes_read := u64_add (bytes_read sh) sz\<rparr>)))
      | Some (FileEof True) \<Rightarrow>
          rbind (ok_or (current_img_file d) Unexpected_FileEof) (\<lambda>(filename, img_file).
          rbind (so_insert ops (img_store d) filename img_file) (\<lambda>st.
            Inr (d\<lparr>img_store := st, current_img_file := None\<rparr>, sh)))
      | Some (ImageEof True) \<Rightarrow>
          rbind (mark_image_eof d) (\<lambda>d'. Inr (d', sh))
      | _ \<Rightarrow> Inl (Err Malformed_Marker))"

text \<open>The state a marker can change, and the rest.\<close>

lemma select_img_file_keeps:
  "select_img_file ops d f = Inr d' \<Longrightarrow>
   pending_markers d' = pending_markers d \<and> de_shards d' = de_shards d
   \<and> readable_shards d' = readable_shards d \<and> de_seq d' = de_seq d
   \<and> finished_shards d' = finished_shards d \<and> polls d' = polls d
   \<and> small_file_shard d' = small_file_shard d \<and> small_file_seq d' = small_file_seq d
   \<and> de_metadata d' = de_metadata d \<and> image_eof d' = image_eof d"
  by (auto simp: select_img_file_def Let_def split: option.splits)

lemma process_marker_keeps:
  "process_marker ops d m sh = Inr (d', sh') \<Longrightarrow>
   pending_markers d' = pending_markers d \<and> de_shards d' = de_shards d
   \<and> readable_shards d' = readable_shards d \<and> de_seq d' = de_seq d
   \<and> finished_shards d' = finished_shards d \<and> polls d' = polls d
   \<and> (image_eof d \<longrightarrow> image_eof d')"
  by (auto simp: process_marker_def mark_image_eof_def dest: select_img_file_keeps
      split: option.splits body.splits bool.splits)

section \<open>Reassembly\<close>

definition get_next_in_order_marker ::
  "('s, 'f) deser \<Rightarrow> (pending_marker \<times> ('s, 'f) deser) option" where
  "get_next_in_order_marker d =
     (case heap_peek pending_cmp (pending_markers d) of
        None \<Rightarrow> None
      | Some pm \<Rightarrow>
          if mseq (pm_marker pm) = de_seq d
          then (case heap_pop pending_cmp (pending_markers d) of
                  None \<Rightarrow> None
                | Some (pm', h) \<Rightarrow> Some (pm', d\<lparr>pending_markers := h\<rparr>))
          else None)"

lemma get_next_in_order_marker_Some:
  "get_next_in_order_marker d = Some (pm, d1) \<Longrightarrow>
   mseq (pm_marker pm) = de_seq d \<and> (\<exists>l r. pending_markers d = l @ pm # r
     \<and> d1 = d\<lparr>pending_markers := l @ r\<rparr>)"
proof -
  assume "get_next_in_order_marker d = Some (pm, d1)"
  then obtain h where pop: "heap_pop pending_cmp (pending_markers d) = Some (pm, h)"
    and "mseq (pm_marker pm) = de_seq d" "d1 = d\<lparr>pending_markers := h\<rparr>"
    by (auto simp: get_next_in_order_marker_def dest: heap_pop_peek split: option.splits if_splits)
  with heap_pop_split [OF pop] show ?thesis by blast
qed

function process_pending_markers ::
  "('s, 'f) store_ops \<Rightarrow> ('s, 'f) deser \<Rightarrow> ('s, 'f) deser res" where
  "process_pending_markers ops d =
     (case get_next_in_order_marker d of
        None \<Rightarrow> Inr d
      | Some (pm, d1) \<Rightarrow>
          rbind (process_marker ops d1 (pm_marker pm) (pm_shard pm)) (\<lambda>(d2, sh).
            process_pending_markers ops
              (d2\<lparr>de_seq := u64_add (de_seq d2) 1, de_shards := de_shards d2 @ [sh]\<rparr>)))"
  by pat_completeness auto
termination
  by (relation "measure (\<lambda>(ops, d). length (pending_markers d))")
     (auto dest!: get_next_in_order_marker_Some process_marker_keeps)

declare process_pending_markers.simps [simp del]

definition mark_shard_eof :: "denv \<Rightarrow> ('s, 'f) deser \<Rightarrow> dshard \<Rightarrow> dshard" where
  "mark_shard_eof e d sh = sh\<lparr>transfer_millis := elapsed_millis e (length (finished_shards d))\<rparr>"

definition drain_shard ::
  "denv \<Rightarrow> ('s, 'f) store_ops \<Rightarrow> ('s, 'f) deser \<Rightarrow> dshard \<Rightarrow> ('s, 'f) deser res" where
  "drain_shard e ops d sh =
     rbind (pb_read_next (pb_dec e) (dsh_pipe sh)) (\<lambda>(r, rd).
       let sh1 = sh\<lparr>dsh_pipe := rd\<rparr> in
       case r of
         None \<Rightarrow> Inr (d\<lparr>finished_shards := finished_shards d @ [mark_shard_eof e d sh1]\<rparr>)
       | Some (m, marker_size) \<Rightarrow>
           rbind (ensure (\<not> image_eof d) Data_After_Image_Eof) (\<lambda>_.
             let sh2 = sh1\<lparr>bytes_read := u64_add (bytes_read sh1) marker_size\<rparr> in
             process_pending_markers ops
               (d\<lparr>pending_markers :=
                    heap_push \<lparr>pm_marker = m, pm_shard = sh2\<rparr> (pending_markers d)\<rparr>)))"

text \<open>\<open>Vec::pop\<close>\<close>

definition vec_pop :: "'a list \<Rightarrow> 'a option \<times> 'a list" where
  "vec_pop xs = (if xs = [] then (None, []) else (Some (last xs), butlast xs))"

definition get_next_readable_shard ::
  "denv \<Rightarrow> ('s, 'f) deser \<Rightarrow> (dshard option \<times> ('s, 'f) deser) res" where
  "get_next_readable_shard e d =
     (if readable_shards d = [] then
        if length (de_shards d) \<le> 1 then
          (let (sh, rest) = vec_pop (de_shards d) in Inr (sh, d\<lparr>de_shards := rest\<rparr>))
        else
          rbind (poll_ready e (polls d) (length (de_shards d))) (\<lambda>ready.
          rbind (rassert (length ready > 0)) (\<lambda>_.
            let ish = enumerate 0 (de_shards d);
                rds = map snd (filter (\<lambda>(i, _). i \<in> set ready) ish);
                rest = map snd (filter (\<lambda>(i, _). i \<notin> set ready) ish);
                (sh, rds') = vec_pop rds in
            Inr (sh, d\<lparr>de_shards := rest, readable_shards := rds', polls := Suc (polls d)\<rparr>)))
      else
        (let (sh, rds') = vec_pop (readable_shards d) in Inr (sh, d\<lparr>readable_shards := rds'\<rparr>)))"

fun drain_all_loop ::
  "denv \<Rightarrow> ('s, 'f) store_ops \<Rightarrow> nat \<Rightarrow> ('s, 'f) deser \<Rightarrow> ('s, 'f) deser res" where
  "drain_all_loop e ops 0 d = Inl Diverge"
| "drain_all_loop e ops (Suc fuel) d =
     rbind (get_next_readable_shard e d) (\<lambda>(next, d1).
       case next of
         None \<Rightarrow> Inr d1
       | Some sh \<Rightarrow> rbind (drain_shard e ops d1 sh) (\<lambda>d2. drain_all_loop e ops fuel d2))"

definition drain_all ::
  "denv \<Rightarrow> ('s, 'f) store_ops \<Rightarrow> nat \<Rightarrow> ('s, 'f) deser \<Rightarrow> ('s, 'f) deser res" where
  "drain_all e ops fuel d =
     rbind (drain_all_loop e ops fuel d) (\<lambda>d'.
     rbind (ensure (image_eof d') No_Shards_To_Read) (\<lambda>_. Inr d'))"

section \<open>The small-file shard\<close>

definition process_small_file_marker ::
  "denv \<Rightarrow> ('s, 'f) store_ops \<Rightarrow> ('s, 'f) deser \<Rightarrow> marker \<Rightarrow> ('s, 'f) deser res" where
  "process_small_file_marker e ops d m =
     rbind (rassert (mseq m = small_file_seq d)) (\<lambda>_.
     let sh = small_file_shard d in
     case mbody m of
       Some (Filename filename) \<Rightarrow> select_img_file ops d filename
     | Some (FileData sz) \<Rightarrow>
         rbind (ok_or (current_img_file d) Unexpected_FileData) (\<lambda>(filename, img_file).
         rbind (if filename = METADATA_FILE then
                  rbind (take_read_to_end (dsh_pipe sh) sz) (\<lambda>(metadata_bytes, rd).
                  rbind (ok_or (of_json e metadata_bytes) Decode_Error) (\<lambda>names.
                    Inr (d\<lparr>de_metadata := Some names\<rparr>, rd)))
                else
                  rbind (so_write ops (img_store d) img_file (dsh_pipe sh) sz) (\<lambda>(st, img_file', rd).
                    Inr (d\<lparr>img_store := st, current_img_file := Some (filename, img_file')\<rparr>, rd)))
           (\<lambda>(d', rd).
              Inr (d'\<lparr>small_file_shard :=
                        sh\<lparr>dsh_pipe := rd, bytes_read := u64_add (bytes_read sh) sz\<rparr>\<rparr>)))
     | Some (FileEof True) \<Rightarrow>
         rbind (ok_or (current_img_file d) Unexpected_FileEof) (\<lambda>(filename, img_file).
         rbind (if filename \<noteq> METADATA_FILE
                then so_insert ops (img_store d) filename img_file else Inr (img_store d)) (\<lambda>st.
           Inr (d\<lparr>img_store := st, current_img_file := None\<rparr>)))
     | _ \<Rightarrow> Inl (Err Malformed_Marker))"

fun drain_small_loop ::
  "denv \<Rightarrow> ('s, 'f) store_ops \<Rightarrow> nat \<Rightarrow> ('s, 'f) deser \<Rightarrow> ('s, 'f) deser res" where
  "drain_small_loop e ops 0 d = Inl Diverge"
| "drain_small_loop e ops (Suc fuel) d =
     rbind (pb_read_next (pb_dec e) (dsh_pipe (small_file_shard d))) (\<lambda>(r, rd).
       let sh = (small_file_shard d)\<lparr>dsh_pipe := rd\<rparr> in
       case r of
         None \<Rightarrow> Inr (d\<lparr>small_file_shard := sh\<rparr>)
       | Some (m, marker_size) \<Rightarrow>
           rbind (process_small_file_marker e ops
                    (d\<lparr>small_file_shard := sh\<lparr>bytes_read := u64_add (bytes_read sh) marker_size\<rparr>\<rparr>) m)
             (\<lambda>d'. drain_small_loop e ops fuel
                      (d'\<lparr>small_file_seq := u64_add (small_file_seq d') 1\<rparr>)))"

definition drain_small_file_shard ::
  "denv \<Rightarrow> ('s, 'f) store_ops \<Rightarrow> nat \<Rightarrow> ('s, 'f) deser \<Rightarrow> (string list \<times> ('s, 'f) deser) res" where
  "drain_small_file_shard e ops fuel d =
     rbind (drain_small_loop e ops fuel d) (\<lambda>d1.
     rbind (rassert (de_metadata d1 \<noteq> None)) (\<lambda>_.
     rbind (unwrap (de_metadata d1)) (\<lambda>names.
       Inr (names, d1\<lparr>de_metadata := None\<rparr>))))"

section \<open>A whole extraction\<close>

text \<open>
  The calls \<open>drain_shards_into_img_store\<close> and \<open>serve\<close> make on the deserializer. The result is
  the list of file names and the final state.
\<close>

definition extract_image ::
  "denv \<Rightarrow> ('s, 'f) store_ops \<Rightarrow> nat \<Rightarrow> 's \<Rightarrow> reader list \<Rightarrow> (string list \<times> ('s, 'f) deser) res" where
  "extract_image e ops fuel st pipes =
     rbind (deserializer_new st (map dshard_new pipes)) (\<lambda>d.
     rbind (drain_small_file_shard e ops fuel d) (\<lambda>(names, d1).
     rbind (drain_all e ops fuel d1) (\<lambda>d2. Inr (names, d2))))"

section \<open>Properties\<close>

lemma process_pending_none_due:
  "process_pending_markers ops d = Inr d' \<Longrightarrow> get_next_in_order_marker d' = None"
proof (induction ops d rule: process_pending_markers.induct)
  case (1 ops d)
  show ?case
  proof (cases "get_next_in_order_marker d")
    case None
    with "1.prems" show ?thesis by (subst (asm) process_pending_markers.simps) simp
  next
    case (Some x)
    obtain pm d1 where x: "x = (pm, d1)" by force
    with "1.prems" Some obtain d2 sh where
      p: "process_marker ops d1 (pm_marker pm) (pm_shard pm) = Inr (d2, sh)" and
      "process_pending_markers ops (d2\<lparr>de_seq := u64_add (de_seq d2) 1, de_shards := de_shards d2 @ [sh]\<rparr>) = Inr d'"
      by (subst (asm) process_pending_markers.simps) auto
    with "1.IH" [OF Some x [symmetric] p refl] show ?thesis by simp
  qed
qed

text \<open>C31: nothing that is due is left waiting. When pending markers have been processed, none of those
  that remain carries the next sequence number, unless one with an older number, a duplicate, is
  in front of it.\<close>

theorem no_due_marker_left:
  assumes "process_pending_markers ops d = Inr d'" and "pm \<in> set (pending_markers d')"
    and "\<And>x. x \<in> set (pending_markers d') \<Longrightarrow> de_seq d' \<le> mseq (pm_marker x)"
  shows "mseq (pm_marker pm) \<noteq> de_seq d'"
proof
  assume due: "mseq (pm_marker pm) = de_seq d'"
  obtain t where t: "heap_peek pending_cmp (pending_markers d') = Some t"
    using assms(2) by (cases "heap_peek pending_cmp (pending_markers d')") auto
  have "mseq (pm_marker t) \<le> mseq (pm_marker pm)"
    using pending_order.peek_greatest [OF t assms(2)] by (auto simp: pending_cmp_def)
  then have "mseq (pm_marker t) = de_seq d'" using due assms(3) [OF heap_peek_mem [OF t]] by simp
  with t heap_peek_pop [OF t] have "get_next_in_order_marker d' \<noteq> None"
    by (auto simp: get_next_in_order_marker_def)
  with process_pending_none_due [OF assms(1)] show False by simp
qed

text \<open>The end-of-image mark is accepted while a file is still being written: the check looks at the
  files set aside and not at the one in use, which is never inserted into the store.\<close>

theorem image_eof_ignores_open_file:
  assumes "mbody m = Some (ImageEof True)" and "img_files d = []" and "pending_markers d = []"
    and "current_img_file d = Some (f, out)"
  shows "\<exists>d'. process_marker ops d m sh = Inr (d', sh) \<and> image_eof d' \<and> img_store d' = img_store d
       \<and> current_img_file d' = Some (f, out)"
  using assms by (simp add: process_marker_def mark_image_eof_def)

definition open_file_state :: "(unit, nat) deser" where
  "open_file_state = \<lparr>small_file_shard = dshard_new \<lparr>avail = [], broken = False\<rparr>, small_file_seq = 0,
     de_metadata = None, de_shards = [], readable_shards = [], pending_markers = [], de_seq = 5, img_store = (),
     img_files = [], current_img_file = Some (''a.img'', 7), image_eof = False, finished_shards = [], polls = 0\<rparr>"

definition unit_ops :: "(unit, nat) store_ops" where
  "unit_ops = \<lparr>so_create = (\<lambda>_ _. Inr ((), 0)), so_insert = (\<lambda>_ _ _. Inr ()),
     so_write = (\<lambda>_ f r n. Inr ((), f + n, r))\<rparr>"

definition marker_at :: "nat \<Rightarrow> body \<Rightarrow> pending_marker" where
  "marker_at n b = \<lparr>pm_marker = mk_marker n b, pm_shard = dshard_new \<lparr>avail = [], broken = False\<rparr>\<rparr>"

theorem image_eof_ignores_open_file_witness:
  "\<exists>d'. process_marker unit_ops open_file_state (mk_marker 5 (ImageEof True))
           (dshard_new \<lparr>avail = [], broken = False\<rparr>) = Inr (d', dshard_new \<lparr>avail = [], broken = False\<rparr>)
      \<and> image_eof d' \<and> current_img_file d' = Some (''a.img'', 7)"
  using image_eof_ignores_open_file [of "mk_marker 5 (ImageEof True)" open_file_state "''a.img''" 7 unit_ops]
  by (auto simp: open_file_state_def)

theorem no_due_marker_left_witness:
  "\<exists>d'. process_pending_markers unit_ops
          (open_file_state\<lparr>pending_markers := [marker_at 7 (FileEof True), marker_at 5 (Filename ''b.img'')]\<rparr>) = Inr d'
      \<and> (\<forall>pm \<in> set (pending_markers d'). mseq (pm_marker pm) \<noteq> 6)"
proof -
  let ?d = "open_file_state\<lparr>pending_markers := [marker_at 7 (FileEof True), marker_at 5 (Filename ''b.img'')]\<rparr>"
  let ?d' = "open_file_state\<lparr>pending_markers := [marker_at 7 (FileEof True)], de_seq := 6,
      de_shards := [pm_shard (marker_at 5 (Filename ''b.img''))],
      img_files := [(''a.img'', 7)], current_img_file := Some (''b.img'', 0)\<rparr>"
  note defs = marker_at_def open_file_state_def
  have nxt: "get_next_in_order_marker ?d = Some (marker_at 5 (Filename ''b.img''),
      open_file_state\<lparr>pending_markers := [marker_at 7 (FileEof True)]\<rparr>)"
    "get_next_in_order_marker ?d' = None"
    by (simp_all add: get_next_in_order_marker_def heap_peek_def heap_pop_def pending_cmp_def cmp_lin_def
        Let_def defs)
  have step: "process_marker unit_ops (open_file_state\<lparr>pending_markers := [marker_at 7 (FileEof True)]\<rparr>)
      (pm_marker (marker_at 5 (Filename ''b.img''))) (pm_shard (marker_at 5 (Filename ''b.img'')))
    = Inr (?d'\<lparr>de_seq := 5, de_shards := []\<rparr>, pm_shard (marker_at 5 (Filename ''b.img'')))"
    by (simp add: process_marker_def select_img_file_def unit_ops_def defs)
  have "process_pending_markers unit_ops ?d' = Inr ?d'"
    by (subst process_pending_markers.simps) (simp only: nxt option.case)
  then have r: "process_pending_markers unit_ops ?d = Inr ?d'"
    by (subst process_pending_markers.simps, simp only: nxt option.case prod.case step rbind.simps)
       (simp add: u64_add_def defs)
  from no_due_marker_left [OF this] show ?thesis
    by (intro exI [of _ ?d'] conjI r) (simp add: marker_at_def)
qed

end
