(* ===== verification/Play.thy ===== *)
theory Play
  imports Capture_Log Extract
begin

text \<open>
  What a stream of items means, independently of shards, sequence numbers and stores: \<open>play\<close>
  keeps the name of the current file, the bytes of the open files and of the finished ones. The
  first part shows that what the serializer writes for a well-formed run of events plays to the
  files' contents; the second that the deserializer, processing the same items over any store
  that meets its contract, follows the play.
\<close>

section \<open>Playing items\<close>

record pstate =
  p_cur :: "string option"
  p_open :: "string \<Rightarrow> byte list option"
  p_done :: "string \<Rightarrow> byte list option"
  p_eof :: bool

definition play_init :: pstate where
  "play_init = \<lparr>p_cur = None, p_open = Map.empty, p_done = Map.empty, p_eof = False\<rparr>"

text \<open>\<open>None\<close>: the items are not a proper image stream.\<close>

fun play_item :: "pstate \<Rightarrow> item \<Rightarrow> pstate option" where
  "play_item p (Filename f, d) =
     (if d = [] \<and> p_done p f = None
      then Some (p\<lparr>p_cur := Some f,
                   p_open := (p_open p)(f \<mapsto> (case p_open p f of None \<Rightarrow> [] | Some b \<Rightarrow> b))\<rparr>)
      else None)"
| "play_item p (FileData n, d) =
     (case p_cur p of
        None \<Rightarrow> None
      | Some f \<Rightarrow>
          (case p_open p f of
             None \<Rightarrow> None
           | Some b \<Rightarrow> if n = length d then Some (p\<lparr>p_open := (p_open p)(f \<mapsto> b @ d)\<rparr>) else None))"
| "play_item p (FileEof True, d) =
     (case p_cur p of
        None \<Rightarrow> None
      | Some f \<Rightarrow>
          (case p_open p f of
             None \<Rightarrow> None
           | Some b \<Rightarrow>
               if d = [] then Some (p\<lparr>p_cur := None, p_open := (p_open p)(f := None),
                                     p_done := (p_done p)(f \<mapsto> b)\<rparr>) else None))"
| "play_item p (ImageEof True, d) =
     (if d = [] \<and> p_open p = Map.empty then Some (p\<lparr>p_eof := True\<rparr>) else None)"
| "play_item p (b, d) = None"

fun play :: "pstate \<Rightarrow> item list \<Rightarrow> pstate option" where
  "play p [] = Some p"
| "play p (x # xs) = (case play_item p x of None \<Rightarrow> None | Some p' \<Rightarrow> play p' xs)"

lemma play_append:
  "play p (xs @ ys) = (case play p xs of None \<Rightarrow> None | Some p' \<Rightarrow> play p' ys)"
  by (induction xs arbitrary: p) (auto split: option.splits)

section \<open>Well-formed runs\<close>

text \<open>
  A run of drain events in which no file is drained after its end and every file reaches its
  end: what the poller produces when the client sends every file once and closes its pipe.
\<close>

fun no_late_events :: "string list \<Rightarrow> drain_event list \<Rightarrow> bool" where
  "no_late_events fin [] \<longleftrightarrow> True"
| "no_late_events fin (e # es) \<longleftrightarrow>
     fst e \<notin> set fin \<and> no_late_events (if snd e = [] then fst e # fin else fin) es"

definition wf_run :: "drain_event list \<Rightarrow> bool" where
  "wf_run es \<longleftrightarrow> no_late_events [] es \<and> (\<forall>e \<in> set es. (fst e, []) \<in> set es)"

definition file_content :: "string \<Rightarrow> drain_event list \<Rightarrow> byte list" where
  "file_content f es = concat (map snd (filter (\<lambda>e. fst e = f) es))"

lemma file_content_simps [simp]:
  "file_content f [] = []"
  "file_content f (e # es) = (if fst e = f then snd e else []) @ file_content f es"
  by (simp_all add: file_content_def)

lemma no_late_events_done:
  "no_late_events fin es \<Longrightarrow> f \<in> set fin \<Longrightarrow> f \<notin> fst ` set es"
proof (induction es arbitrary: fin)
  case (Cons e es)
  have "f \<notin> fst ` set es"
    by (rule Cons.IH [of "if snd e = [] then fst e # fin else fin"]) (use Cons.prems in auto)
  with Cons.prems show ?case by auto
qed simp

lemma play_data:
  "p_cur p = Some f \<Longrightarrow> p_open p f = Some b \<Longrightarrow>
   play p (map data_item ds) = Some (p\<lparr>p_open := (p_open p)(f \<mapsto> b @ concat ds)\<rparr>)"
proof (induction ds arbitrary: p b)
  case Nil
  then have "(p_open p)(f \<mapsto> b) = p_open p" by (auto simp: fun_eq_iff)
  then show ?case by simp
next
  case (Cons d ds)
  let ?p = "p\<lparr>p_open := (p_open p)(f \<mapsto> b @ d)\<rparr>"
  have "play ?p (map data_item ds)
        = Some (?p\<lparr>p_open := (p_open ?p)(f \<mapsto> (b @ d) @ concat ds)\<rparr>)"
    using Cons.prems by (intro Cons.IH) auto
  moreover have "(p_open ?p)(f \<mapsto> (b @ d) @ concat ds) = (p_open p)(f \<mapsto> b @ concat (d # ds))"
    by (simp add: fun_eq_iff)
  moreover have "play_item p (data_item d) = Some ?p"
    using Cons.prems by (simp add: data_item_def)
  moreover have "?p\<lparr>p_open := X\<rparr> = p\<lparr>p_open := X\<rparr>" for X by simp
  ultimately show ?case by (simp only: play.simps list.map option.simps)
qed

text \<open>One event's items.\<close>

definition after_event :: "pstate \<Rightarrow> string \<Rightarrow> byte list \<Rightarrow> pstate \<Rightarrow> bool" where
  "after_event p f bs p' \<longleftrightarrow>
     (let b = (case p_open p f of None \<Rightarrow> [] | Some b \<Rightarrow> b) @ bs in
      (\<forall>g. g \<noteq> f \<longrightarrow> p_open p' g = p_open p g \<and> p_done p' g = p_done p g)
      \<and> p_cur p' = (if bs = [] then None else Some f)
      \<and> p_open p' f = (if bs = [] then None else Some b)
      \<and> p_done p' f = (if bs = [] then Some b else None)
      \<and> p_eof p' = p_eof p)"

lemma play_event:
  assumes "0 < n" and "p_done p f = None"
    and "cur = Some f \<Longrightarrow> p_cur p = Some f \<and> p_open p f \<noteq> None"
  shows "\<exists>p'. play p (event_items n cur (f, bs)) = Some p' \<and> after_event p f bs p'"
proof -
  define b where "b = (case p_open p f of None \<Rightarrow> [] | Some b \<Rightarrow> b)"
  define p1 where "p1 = p\<lparr>p_cur := Some f, p_open := (p_open p)(f \<mapsto> b)\<rparr>"
  have "play p (if cur = Some f then [] else [(Filename f, [])]) = Some p1"
  proof (cases "cur = Some f")
    case True
    with assms(3) obtain b' where b': "p_open p f = Some b'" "p_cur p = Some f" by auto
    then have "(p_open p)(f \<mapsto> b) = p_open p" by (auto simp: fun_eq_iff b_def)
    with True b' show ?thesis by (simp add: p1_def)
  next
    case False
    with assms(2) show ?thesis by (simp add: p1_def b_def)
  qed
  note start = this
  have p1: "p_cur p1 = Some f" "p_open p1 = (p_open p)(f \<mapsto> b)" "p_done p1 = p_done p"
    "p_eof p1 = p_eof p" by (simp_all add: p1_def)
  define p2 where "p2 = p1\<lparr>p_open := (p_open p1)(f \<mapsto> b @ bs)\<rparr>"
  have data: "play p1 (map data_item (chop n bs)) = Some p2"
    using play_data [of p1 f b "chop n bs"] assms(1) by (simp add: p1 p2_def concat_chop)
  have p2: "p_cur p2 = Some f" "p_open p2 = (p_open p)(f \<mapsto> b @ bs)" "p_done p2 = p_done p"
    "p_eof p2 = p_eof p" "p_open p2 f = Some (b @ bs)"
    "\<forall>g. g \<noteq> f \<longrightarrow> p_open p2 g = p_open p g" by (simp_all add: p2_def p1)
  have ev: "play p (event_items n cur (f, bs))
            = (if bs = [] then play_item p2 (FileEof True, []) else Some p2)"
    by (simp only: event_items_def play_append start data fst_conv snd_conv option.simps)
       (simp split: option.split)
  show ?thesis
  proof (cases "bs = []")
    case True
    with ev p2 have "play p (event_items n cur (f, bs))
        = Some (p2\<lparr>p_cur := None, p_open := (p_open p2)(f := None), p_done := (p_done p2)(f \<mapsto> b @ bs)\<rparr>)"
      by simp
    with True p2 assms(2) show ?thesis by (simp add: after_event_def b_def)
  next
    case False
    with ev p2 assms(2) show ?thesis by (simp add: after_event_def b_def)
  qed
qed

text \<open>A whole run, from any state that agrees with the files that have ended.\<close>

definition run_at :: "(string \<Rightarrow> bool) \<Rightarrow> pstate \<Rightarrow> drain_event list \<Rightarrow> pstate \<Rightarrow> string \<Rightarrow> bool"
where
  "run_at mine p es p' f \<longleftrightarrow>
     p_done p' f =
       (if mine f \<and> (f, []) \<in> set es
        then Some ((case p_open p f of None \<Rightarrow> [] | Some b \<Rightarrow> b) @ file_content f es)
        else p_done p f)
     \<and> (mine f \<and> (f, []) \<in> set es \<longrightarrow> p_open p' f = None)
     \<and> (\<not> mine f \<or> f \<notin> fst ` set es \<longrightarrow> p_open p' f = p_open p f)"

lemma file_content_absent: "f \<notin> fst ` set es \<Longrightarrow> file_content f es = [] \<and> (f, []) \<notin> set es"
  by (force simp: file_content_def filter_empty_conv)

lemma run_at_Cons:
  assumes a: "after_event p f bs p1" and r: "run_at mine p1 es p' g" and m: "mine f"
    and pd: "p_done p f = None" and over: "bs = [] \<Longrightarrow> f \<notin> fst ` set es"
  shows "run_at mine p ((f, bs) # es) p' g"
proof (cases "g = f")
  case False
  with a r show ?thesis by (auto simp: after_event_def Let_def run_at_def)
next
  case True
  show ?thesis
  proof (cases "bs = []")
    case bs: True
    from file_content_absent [OF over [OF bs]] a r m True bs over [OF bs] show ?thesis
      by (simp add: after_event_def Let_def run_at_def)
  next
    case False
    with a r m True pd show ?thesis
      by (simp add: after_event_def Let_def run_at_def)
  qed
qed

lemma play_run:
  "0 < n \<Longrightarrow> no_late_events fin es \<Longrightarrow>
   (\<And>f. p_done p f \<noteq> None \<Longrightarrow> small f = want \<Longrightarrow> f \<in> set fin) \<Longrightarrow>
   (\<And>f. cur = Some f \<Longrightarrow> f \<notin> set fin \<Longrightarrow> small f = want \<Longrightarrow> p_cur p = Some f \<and> p_open p f \<noteq> None) \<Longrightarrow>
   \<exists>p'. play p (run_items small n want cur es) = Some p'
        \<and> (\<forall>f. run_at (\<lambda>f. small f = want) p es p' f) \<and> p_eof p' = p_eof p"
proof (induction es arbitrary: fin p cur)
  case Nil
  then show ?case by (simp add: run_at_def)
next
  case (Cons e es)
  obtain f bs where e: "e = (f, bs)" by (cases e)
  let ?fin = "if bs = [] then f # fin else fin"
  have late: "f \<notin> set fin" "no_late_events ?fin es" using Cons.prems(2) e by auto
  have over: "bs = [] \<Longrightarrow> f \<notin> fst ` set es"
    using no_late_events_done [OF late(2), of f] by simp
  show ?case
  proof (cases "small f = want")
    case True
    have pd: "p_done p f = None" using Cons.prems(3) late(1) True by blast
    have pc: "cur = Some f \<Longrightarrow> p_cur p = Some f \<and> p_open p f \<noteq> None"
      using Cons.prems(4) [of f] late(1) True by simp
    obtain p1 where p1: "play p (event_items n cur (f, bs)) = Some p1 \<and> after_event p f bs p1"
      by (rule exE [OF play_event [OF Cons.prems(1) pd pc]])
    then have a: "after_event p f bs p1" by simp
    have d: "p_done p1 g \<noteq> None \<Longrightarrow> small g = want \<Longrightarrow> g \<in> set ?fin" for g
      using a Cons.prems(3) [of g] by (cases "g = f") (auto simp: after_event_def Let_def split: if_splits)
    have c: "Some f = Some g \<Longrightarrow> g \<notin> set ?fin \<Longrightarrow> small g = want
             \<Longrightarrow> p_cur p1 = Some g \<and> p_open p1 g \<noteq> None" for g
      using a by (auto simp: after_event_def Let_def split: if_splits)
    obtain p' where p': "play p1 (run_items small n want (Some f) es) = Some p'
        \<and> (\<forall>f. run_at (\<lambda>f. small f = want) p1 es p' f) \<and> p_eof p' = p_eof p1"
      by (rule exE [OF Cons.IH [OF Cons.prems(1) late(2) d c]])
    have "run_at (\<lambda>f. small f = want) p ((f, bs) # es) p' g" for g
      by (rule run_at_Cons [OF a]) (use p' True over pd in auto)
    moreover have "p_eof p1 = p_eof p" using a by (simp add: after_event_def Let_def)
    ultimately show ?thesis using p1 p' True
      by (intro exI [of _ p']) (simp add: e play_append)
  next
    case False
    have d: "p_done p g \<noteq> None \<Longrightarrow> small g = want \<Longrightarrow> g \<in> set ?fin" for g
      using Cons.prems(3) by auto
    have c: "Some f = Some g \<Longrightarrow> g \<notin> set ?fin \<Longrightarrow> small g = want
             \<Longrightarrow> p_cur p = Some g \<and> p_open p g \<noteq> None" for g
      using False by auto
    obtain p' where p': "play p (run_items small n want (Some f) es) = Some p'
        \<and> (\<forall>f. run_at (\<lambda>f. small f = want) p es p' f) \<and> p_eof p' = p_eof p"
      by (rule exE [OF Cons.IH [OF Cons.prems(1) late(2) d c]])
    have "run_at (\<lambda>f. small f = want) p ((f, bs) # es) p' g" for g
      using p' False by (cases "g = f") (auto simp: run_at_def)
    with p' False show ?thesis by (intro exI [of _ p']) (simp add: e)
  qed
qed

lemma wf_run_ends: "wf_run es \<Longrightarrow> f \<in> fst ` set es \<longleftrightarrow> (f, []) \<in> set es"
  by (force simp: wf_run_def)

text \<open>From a state with no open file, in which no file of the class has ended.\<close>

lemma play_run_from:
  assumes n: "0 < n" and wf: "wf_run es" and op: "p_open p = Map.empty"
    and dn: "\<And>f. small f = want \<Longrightarrow> p_done p f = None"
  shows "\<exists>p'. play p (run_items small n want None es) = Some p'
          \<and> p_open p' = Map.empty \<and> p_eof p' = p_eof p
          \<and> (\<forall>f. p_done p' f = (if small f = want \<and> f \<in> fst ` set es
                                 then Some (file_content f es) else p_done p f))"
proof -
  have late: "no_late_events [] es" using wf by (simp add: wf_run_def)
  obtain p' where p': "play p (run_items small n want None es) = Some p'
      \<and> (\<forall>f. run_at (\<lambda>f. small f = want) p es p' f) \<and> p_eof p' = p_eof p"
    by (rule exE [OF play_run [OF n late, of p small want None]]) (auto simp: dn)
  then have "p_open p' f = None" for f
    using wf_run_ends [OF wf, of f] op by (auto simp: run_at_def)
  then have "p_open p' = Map.empty" by (rule ext)
  with p' show ?thesis
    using wf_run_ends [OF wf] op by (intro exI [of _ p']) (simp add: run_at_def)
qed

end
