(* ===== verification/Simulation.thy ===== *)
theory Simulation
  imports Play Proto_Marker Image_Store
begin

text \<open>
  The deserializer follows the play. \<open>sim\<close> relates its state, over any store that meets the
  contract \<open>image_store\<close>, to a state of \<open>Play\<close>; every item the play accepts is processed by
  \<open>process_marker\<close> and \<open>process_small_file_marker\<close> without failing, other than as the store
  fails, and the relation is kept.
\<close>

definition open_files :: "('s, 'f) deser \<Rightarrow> string \<Rightarrow> 'f option" where
  "open_files d = (case current_img_file d of
                     None \<Rightarrow> map_of (img_files d)
                   | Some (f, out) \<Rightarrow> (map_of (img_files d))(f \<mapsto> out))"

lemma open_files_cong:
  "img_files d' = img_files d \<Longrightarrow> current_img_file d' = current_img_file d \<Longrightarrow>
   open_files d' = open_files d"
  by (cases "current_img_file d") (auto simp: open_files_def)

lemma open_files_eof [simp]: "open_files (d\<lparr>image_eof := b\<rparr>) = open_files d"
  by (rule open_files_cong) simp_all

context image_store
begin

text \<open>
  \<open>X\<close>: the names the rest of the image must not use (the metadata file after the small
  shard, names the store cannot create any more). \<open>S0\<close>: what the store held at the start; names
  the image does not mention keep it.
\<close>

definition sim ::
  "(string \<Rightarrow> byte list option) \<Rightarrow> string set \<Rightarrow> ('s, 'f) deser \<Rightarrow> pstate \<Rightarrow> bool" where
  "sim S0 X d p \<longleftrightarrow>
     inv (img_store d)
     \<and> p_cur p = map_option fst (current_img_file d)
     \<and> (\<forall>f out. current_img_file d = Some (f, out) \<longrightarrow> map_of (img_files d) f = None)
     \<and> (\<forall>n. p_open p n = map_option (content (img_store d)) (open_files d n))
     \<and> (\<forall>n h. open_files d n = Some h \<longrightarrow> belongs (img_store d) h n \<and> n \<notin> X)
     \<and> (\<forall>n b. p_done p n = Some b \<longrightarrow> open_files d n = None \<and> stored (img_store d) n = Some b)
     \<and> (\<forall>n. n \<notin> X \<longrightarrow> open_files d n = None \<longrightarrow> p_done p n = None \<longrightarrow> unused (img_store d) n)
     \<and> (\<forall>n. n \<noteq> METADATA_FILE \<longrightarrow> open_files d n = None \<longrightarrow> p_done p n = None \<longrightarrow>
            stored (img_store d) n = S0 n)
     \<and> image_eof d = p_eof p"

text \<open>A name that can be created without harm to any other name still to come.\<close>

definition usable :: "string set \<Rightarrow> string \<Rightarrow> bool" where
  "usable X f \<longleftrightarrow> f \<notin> X \<and> (\<forall>m. m \<notin> X \<longrightarrow> \<not> blocks f m)"

text \<open>
  A change to one file: its handle becomes \<open>oh\<close> and its finished content \<open>dn\<close>, and the store
  leaves the other names alone.
\<close>

lemma sim_change:
  assumes s: "sim S0 X d p" and st: "inv (img_store d')"
    and others: "leaves_others unused belongs content stored keep f (img_store d) (img_store d')"
    and keep: "\<And>m. m \<notin> X \<Longrightarrow> keep m"
    and opened: "open_files d' = (open_files d)(f := oh)"
    and h: "\<And>h. oh = Some h \<Longrightarrow> belongs (img_store d') h f \<and> f \<notin> X"
    and dn: "\<And>b. dn = Some b \<Longrightarrow> oh = None \<and> stored (img_store d') f = Some b"
    and un: "oh = None \<Longrightarrow> dn = None \<Longrightarrow> f \<in> X \<union> X' \<and> f = METADATA_FILE"
    and x': "X' \<subseteq> {f}" "oh \<noteq> None \<Longrightarrow> X' = {}"
    and p_opened: "p_open p' = (p_open p)(f := map_option (content (img_store d')) oh)"
    and p_dn: "p_done p' = (p_done p)(f := dn)"
    and cur: "p_cur p' = map_option fst (current_img_file d')"
    and sep: "\<And>g out. current_img_file d' = Some (g, out) \<Longrightarrow> map_of (img_files d') g = None"
    and eof: "image_eof d' = p_eof p'"
  shows "sim S0 (X \<union> X') d' p'"
  unfolding sim_def
proof (intro conjI allI impI)
  note s' = s [unfolded sim_def]
  note o' = others [unfolded leaves_others_def]
  have other: "belongs (img_store d') g n \<and> content (img_store d') g = content (img_store d) g \<and> n \<notin> X"
    if "open_files d n = Some g" "n \<noteq> f" for n g
  proof -
    have "belongs (img_store d) g n" "n \<notin> X" using s' that by auto
    with o' keep that show ?thesis by auto
  qed
  show "inv (img_store d')" "p_cur p' = map_option fst (current_img_file d')"
    "image_eof d' = p_eof p'" by fact+
  show "map_of (img_files d') g = None" if "current_img_file d' = Some (g, out)" for g out
    using that by (rule sep)
  show "p_open p' n = map_option (content (img_store d')) (open_files d' n)" for n
    using s' other [of n] by (cases "n = f"; cases "open_files d n") (auto simp: opened p_opened)
  show "belongs (img_store d') h' n" if "open_files d' n = Some h'" for n h'
    using other [of n h'] h that by (cases "n = f") (auto simp: opened)
  show "n \<notin> X \<union> X'" if "open_files d' n = Some h'" for n h'
    using other [of n h'] h x' that by (cases "n = f") (auto simp: opened)
  show "open_files d' n = None" if "p_done p' n = Some b" for n b
    using s' dn that by (cases "n = f") (auto simp: opened p_dn)
  show "stored (img_store d') n = Some b" if "p_done p' n = Some b" for n b
    using s' o' dn that by (cases "n = f") (auto simp: p_dn)
  show "unused (img_store d') n" if "n \<notin> X \<union> X'" "open_files d' n = None" "p_done p' n = None" for n
    using s' o' keep un that by (cases "n = f") (auto simp: opened p_dn)
  show "stored (img_store d') n = S0 n"
    if "n \<noteq> METADATA_FILE" "open_files d' n = None" "p_done p' n = None" for n
    using s' o' un that by (cases "n = f") (auto simp: opened p_dn)
qed

lemma leaves_others_refl: "leaves_others unused belongs content stored keep f st st"
  by (simp add: leaves_others_def)

lemma sim_select:
  assumes s: "sim S0 X d p" and x: "usable X f" and pd: "p_done p f = None"
  shows "holds_or fail (select_img_file ops d f)
           (\<lambda>d'. sim S0 X d' (p\<lparr>p_cur := Some f,
              p_open := (p_open p)(f \<mapsto> (case p_open p f of None \<Rightarrow> [] | Some b \<Rightarrow> b))\<rparr>))"
proof -
  define files1 where "files1 = (case current_img_file d of None \<Rightarrow> img_files d
                                 | Some (f, out) \<Rightarrow> AList.update f out (img_files d))"
  have f1: "map_of files1 = open_files d"
    by (auto simp: files1_def open_files_def update_conv' split: option.split)
  have eof: "image_eof d = p_eof p" and inv: "inv (img_store d)"
    and opn: "p_open p f = map_option (content (img_store d)) (open_files d f)"
    and blg: "\<And>h. open_files d f = Some h \<Longrightarrow> belongs (img_store d) h f"
    using s by (auto simp: sim_def)
  have fX: "f \<notin> X" using x by (simp add: usable_def)
  have pdn: "p_done p = (p_done p)(f := None)" using pd by auto
  show ?thesis
  proof (cases "open_files d f")
    case (Some h)
    let ?d = "d\<lparr>img_files := AList.delete f files1, current_img_file := Some (f, h)\<rparr>"
    have sel: "select_img_file ops d f = Inr ?d"
      unfolding select_img_file_def files1_def [symmetric] Let_def f1 Some by simp
    have o: "open_files ?d = (open_files d)(f := Some h)"
      by (auto simp: open_files_def [of ?d] delete_conv' f1)
    have "sim S0 (X \<union> {}) ?d (p\<lparr>p_cur := Some f,
            p_open := (p_open p)(f \<mapsto> (case p_open p f of None \<Rightarrow> [] | Some b \<Rightarrow> b))\<rparr>)"
      by (rule sim_change [OF s, where oh = "Some h" and dn = None and keep = "\<lambda>_. True"])
         (use Some pdn opn inv eof blg fX o in \<open>auto simp: leaves_others_refl delete_conv'\<close>)
    with sel show ?thesis by simp
  next
    case None
    then have un: "unused (img_store d) f" using s fX pd by (auto simp: sim_def)
    have "holds_or fail (rbind (so_create ops (img_store d) f) (\<lambda>(st, img_file).
            Inr (d\<lparr>img_store := st, img_files := files1, current_img_file := Some (f, img_file)\<rparr>)))
           (\<lambda>d'. sim S0 X d' (p\<lparr>p_cur := Some f, p_open := (p_open p)(f \<mapsto> [])\<rparr>))"
    proof (rule holds_or_bind [OF create_law [OF inv un]], clarify)
      fix st h
      assume law: "inv st" "belongs st h f" "content st h = []"
        "leaves_others unused belongs content stored (\<lambda>m. \<not> blocks f m) f (img_store d) st"
      let ?d = "d\<lparr>img_store := st, img_files := files1, current_img_file := Some (f, h)\<rparr>"
      have o: "open_files ?d = (open_files d)(f := Some h)"
        by (simp add: open_files_def [of ?d] f1)
      have "sim S0 (X \<union> {}) ?d (p\<lparr>p_cur := Some f, p_open := (p_open p)(f \<mapsto> [])\<rparr>)"
        by (rule sim_change [OF s _ _ _ o, where dn = None and keep = "\<lambda>m. \<not> blocks f m"])
           (use law None pdn eof x in \<open>auto simp: f1 usable_def\<close>)
      then show "holds_or fail (Inr ?d)
           (\<lambda>d'. sim S0 X d' (p\<lparr>p_cur := Some f, p_open := (p_open p)(f \<mapsto> [])\<rparr>))" by simp
    qed
    then show ?thesis
      unfolding select_img_file_def files1_def [symmetric] Let_def f1 None
      using None opn by simp
  qed
qed

lemma sim_current:
  assumes "sim S0 X d p" and "current_img_file d = Some (f, h)"
  shows "inv (img_store d)" "belongs (img_store d) h f" "p_open p f = Some (content (img_store d) h)"
    "p_done p f = None" "p_cur p = Some f" "map_of (img_files d) f = None" "image_eof d = p_eof p"
    "open_files d = (map_of (img_files d))(f \<mapsto> h)" "f \<notin> X"
proof -
  show o: "open_files d = (map_of (img_files d))(f \<mapsto> h)" using assms by (simp add: open_files_def)
  then have "open_files d f = Some h" by simp
  with assms show "inv (img_store d)" "belongs (img_store d) h f" "p_cur p = Some f"
    "p_open p f = Some (content (img_store d) h)" "map_of (img_files d) f = None"
    "image_eof d = p_eof p" "f \<notin> X"
    by (auto simp: sim_def)
  from assms \<open>open_files d f = Some h\<close> show "p_done p f = None"
    by (cases "p_done p f") (auto simp: sim_def)
qed

lemma sim_write:
  assumes s: "sim S0 X d p" and c: "current_img_file d = Some (f, h)"
    and av: "avail r = data @ rest" and n: "n = length data" and b: "p_open p f = Some b"
  shows "holds_or fail (so_write ops (img_store d) h r n)
           (\<lambda>(st, h', r'). sim S0 X (d\<lparr>img_store := st, current_img_file := Some (f, h')\<rparr>)
                              (p\<lparr>p_open := (p_open p)(f \<mapsto> b @ data)\<rparr>)
                            \<and> r' = r\<lparr>avail := rest\<rparr>)"
proof -
  note cur = sim_current [OF s c]
  have len: "n \<le> length (avail r)" by (simp add: av n)
  show ?thesis
  proof (rule holds_or_mono [OF write_law [OF cur(1,2) len]], clarify)
    fix st h' r'
    let ?d = "d\<lparr>img_store := st, current_img_file := Some (f, h')\<rparr>"
    assume law: "inv st" "belongs st h' f"
      "content st h' = content (img_store d) h @ take n (avail r)"
      "leaves_others unused belongs content stored (\<lambda>_. True) f (img_store d) st"
    have o: "open_files ?d = (open_files d)(f := Some h')"
      by (simp add: open_files_def c)
    have "sim S0 (X \<union> {}) ?d (p\<lparr>p_open := (p_open p)(f \<mapsto> b @ data)\<rparr>)"
      by (rule sim_change [OF s _ _ _ o, where dn = None and keep = "\<lambda>_. True"])
         (use law cur av n b in auto)
    then show "sim S0 X ?d (p\<lparr>p_open := (p_open p)(f \<mapsto> b @ data)\<rparr>)
               \<and> r\<lparr>avail := drop n (avail r)\<rparr> = r\<lparr>avail := rest\<rparr>"
      by (simp add: av n)
  qed
qed

lemma sim_insert:
  assumes s: "sim S0 X d p" and c: "current_img_file d = Some (f, h)" and b: "p_open p f = Some b"
  shows "holds_or fail (so_insert ops (img_store d) f h)
           (\<lambda>st. sim S0 X (d\<lparr>img_store := st, current_img_file := None\<rparr>)
                    (p\<lparr>p_cur := None, p_open := (p_open p)(f := None), p_done := (p_done p)(f \<mapsto> b)\<rparr>))"
proof -
  note cur = sim_current [OF s c]
  show ?thesis
  proof (rule holds_or_mono [OF insert_law [OF cur(1,2)]], clarify)
    fix st
    let ?d = "d\<lparr>img_store := st, current_img_file := None\<rparr>"
    assume law: "inv st" "stored st f = Some (content (img_store d) h)"
      "leaves_others unused belongs content stored (\<lambda>_. True) f (img_store d) st"
    have o: "open_files ?d = (open_files d)(f := None)"
      using cur(6) by (auto simp: open_files_def c)
    have "sim S0 (X \<union> {}) ?d
            (p\<lparr>p_cur := None, p_open := (p_open p)(f := None), p_done := (p_done p)(f \<mapsto> b)\<rparr>)"
      by (rule sim_change [OF s _ _ _ o, where dn = "Some b" and keep = "\<lambda>_. True"])
         (use law cur b in auto)
    then show "sim S0 X ?d
            (p\<lparr>p_cur := None, p_open := (p_open p)(f := None), p_done := (p_done p)(f \<mapsto> b)\<rparr>)"
      by simp
  qed
qed

text \<open>The relation only reads the fields of the file table.\<close>

lemma sim_cong:
  "img_store d' = img_store d \<Longrightarrow> img_files d' = img_files d \<Longrightarrow>
   current_img_file d' = current_img_file d \<Longrightarrow> image_eof d' = image_eof d \<Longrightarrow> sim S0 X d' p = sim S0 X d p"
  by (simp add: sim_def open_files_cong [of d' d])

lemma sim_set [simp]:
  "sim S0 X (d\<lparr>small_file_shard := sh\<rparr>) p = sim S0 X d p"
  "sim S0 X (d\<lparr>small_file_seq := n\<rparr>) p = sim S0 X d p"
  "sim S0 X (d\<lparr>de_metadata := md\<rparr>) p = sim S0 X d p"
  "sim S0 X (d\<lparr>pending_markers := pms\<rparr>) p = sim S0 X d p"
  "sim S0 X (d\<lparr>de_shards := shs\<rparr>) p = sim S0 X d p"
  "sim S0 X (d\<lparr>readable_shards := shs\<rparr>) p = sim S0 X d p"
  "sim S0 X (d\<lparr>de_seq := n\<rparr>) p = sim S0 X d p"
  "sim S0 X (d\<lparr>finished_shards := shs\<rparr>) p = sim S0 X d p"
  "sim S0 X (d\<lparr>polls := n\<rparr>) p = sim S0 X d p"
  by (rule sim_cong; simp)+

lemma sim_cur_Some: "sim S0 X d p \<Longrightarrow> p_cur p = Some f \<Longrightarrow> \<exists>h. current_img_file d = Some (f, h)"
  by (cases "current_img_file d") (auto simp: sim_def)

lemma sim_files_empty: "sim S0 X d p \<Longrightarrow> p_open p = Map.empty \<Longrightarrow> img_files d = []"
proof -
  assume s: "sim S0 X d p" and p: "p_open p = Map.empty"
  then have "open_files d n = None" for n by (auto simp: sim_def)
  then have "open_files d = Map.empty" by (rule ext)
  then have "map_of (img_files d) = Map.empty"
    by (cases "current_img_file d") (auto simp: open_files_def)
  then show ?thesis by (simp add: map_of_empty_iff)
qed

text \<open>Between files, more names can be given up.\<close>

lemma sim_weaken: "sim S0 X d p \<Longrightarrow> p_open p = Map.empty \<Longrightarrow> X \<subseteq> X' \<Longrightarrow> sim S0 X' d p"
proof -
  assume s: "sim S0 X d p" and p: "p_open p = Map.empty" and x: "X \<subseteq> X'"
  then have "open_files d n = None" for n by (auto simp: sim_def)
  with s x show ?thesis by (auto simp: sim_def)
qed

lemma sim_process_marker:
  assumes s: "sim S0 X d p" and pl: "play_item p (b, data) = Some p'"
    and av: "avail (dsh_pipe sh) = data @ rest"
    and x: "\<And>f. b = Filename f \<Longrightarrow> usable X f"
    and pend: "b = ImageEof True \<Longrightarrow> pending_markers d = []"
  shows "holds_or fail (process_marker ops d (mk_marker i b) sh)
           (\<lambda>(d', sh'). sim S0 X d' p' \<and> dsh_pipe sh' = (dsh_pipe sh)\<lparr>avail := rest\<rparr>)"
proof (cases b)
  case (Filename f)
  with pl have f: "data = []" "p_done p f = None"
    "p' = p\<lparr>p_cur := Some f, p_open := (p_open p)(f \<mapsto> (case p_open p f of None \<Rightarrow> [] | Some b \<Rightarrow> b))\<rparr>"
    by (auto split: if_splits)
  have "(dsh_pipe sh)\<lparr>avail := rest\<rparr> = dsh_pipe sh" using av f by simp
  with Filename f show ?thesis
    by (simp add: process_marker_def)
       (rule holds_or_bind [OF sim_select [OF s x [OF Filename]]], auto)
next
  case (FileData n)
  with pl obtain f b0 where f: "p_cur p = Some f" "p_open p f = Some b0" "n = length data"
    "p' = p\<lparr>p_open := (p_open p)(f \<mapsto> b0 @ data)\<rparr>"
    by (auto split: option.splits if_splits)
  from sim_cur_Some [OF s f(1)] obtain h where c: "current_img_file d = Some (f, h)" ..
  show ?thesis
    using FileData c f
    by (simp add: process_marker_def)
       (rule holds_or_bind [OF sim_write [OF s c av _ f(2)]], auto)
next
  case (FileEof v)
  with pl have v: "v" by (cases v) auto
  with FileEof pl obtain f b0 where f: "p_cur p = Some f" "p_open p f = Some b0" "data = []"
    "p' = p\<lparr>p_cur := None, p_open := (p_open p)(f := None), p_done := (p_done p)(f \<mapsto> b0)\<rparr>"
    by (auto split: option.splits if_splits)
  from sim_cur_Some [OF s f(1)] obtain h where c: "current_img_file d = Some (f, h)" ..
  have "(dsh_pipe sh)\<lparr>avail := rest\<rparr> = dsh_pipe sh" using av f by simp
  then show ?thesis
    using FileEof v c f
    by (simp add: process_marker_def)
       (rule holds_or_bind [OF sim_insert [OF s c f(2)]], auto)
next
  case (ImageEof v)
  with pl have v: "v" by (cases v) auto
  with ImageEof pl have f: "data = []" "p_open p = Map.empty" "p' = p\<lparr>p_eof := True\<rparr>"
    by (auto split: if_splits)
  have "(dsh_pipe sh)\<lparr>avail := rest\<rparr> = dsh_pipe sh" using av f by simp
  moreover have "sim S0 X (d\<lparr>image_eof := True\<rparr>) p'"
    using s f by (simp add: sim_def)
  ultimately show ?thesis
    using ImageEof v sim_files_empty [OF s f(2)] pend
    by (simp add: process_marker_def mark_image_eof_def)
qed

end

section \<open>The small-file shard\<close>

text \<open>What draining the small shard leaves alone.\<close>

definition same_large :: "('s, 'f) deser \<Rightarrow> ('s, 'f) deser \<Rightarrow> bool" where
  "same_large d d' \<longleftrightarrow>
     pending_markers d' = pending_markers d \<and> de_shards d' = de_shards d
     \<and> readable_shards d' = readable_shards d \<and> de_seq d' = de_seq d
     \<and> finished_shards d' = finished_shards d \<and> polls d' = polls d"

lemma same_large_refl [simp]: "same_large d d"
  by (simp add: same_large_def)

lemma same_large_trans: "same_large d e \<Longrightarrow> same_large e f \<Longrightarrow> same_large d f"
  by (simp add: same_large_def)

lemma process_small_same:
  "process_small_file_marker e ops d m = Inr d' \<Longrightarrow>
   same_large d d' \<and> small_file_seq d' = small_file_seq d"
  by (auto simp: process_small_file_marker_def Let_def same_large_def dest: select_img_file_keeps
      split: option.splits body.splits bool.splits if_splits)

lemma drain_small_loop_same: "drain_small_loop e ops fuel d = Inr d' \<Longrightarrow> same_large d d'"
proof (induction fuel arbitrary: d)
  case (Suc fuel)
  show ?case
  proof (cases "pb_read_next (pb_dec e) (dsh_pipe (small_file_shard d))")
    case (Inr z)
    obtain r rd where z: "z = (r, rd)" by (cases z)
    show ?thesis
    proof (cases r)
      case None
      with Suc.prems Inr z show ?thesis by (auto simp: same_large_def)
    next
      case (Some mm)
      obtain m n where mm: "mm = (m, n)" by (cases mm)
      let ?sh = "(small_file_shard d)\<lparr>dsh_pipe := rd\<rparr>"
      let ?d1 = "d\<lparr>small_file_shard := ?sh\<lparr>bytes_read := u64_add (bytes_read ?sh) n\<rparr>\<rparr>"
      from Suc.prems Inr z Some mm obtain d2 where
        d2: "process_small_file_marker e ops ?d1 m = Inr d2"
        and rec: "drain_small_loop e ops fuel (d2\<lparr>small_file_seq := u64_add (small_file_seq d2) 1\<rparr>)
                  = Inr d'"
        by (auto simp: Let_def)
      from process_small_same [OF d2] Suc.IH [OF rec] show ?thesis
        by (simp add: same_large_def)
    qed
  qed (use Suc.prems in auto)
qed simp

lemma drain_small_file_shard_same:
  "drain_small_file_shard e ops fuel d = Inr (names, d') \<Longrightarrow> same_large d d'"
  by (auto simp: drain_small_file_shard_def same_large_def dest!: drain_small_loop_same)

text \<open>The items of image files on the small shard.\<close>

definition plain_item :: "(string \<Rightarrow> bool) \<Rightarrow> item \<Rightarrow> bool" where
  "plain_item P x \<longleftrightarrow>
     body_ok (fst x) \<and> (\<forall>v. fst x \<noteq> ImageEof v) \<and> (\<forall>f. fst x = Filename f \<longrightarrow> P f)"

lemma plain_item_mono: "plain_item P x \<Longrightarrow> (\<And>f. P f \<Longrightarrow> Q f) \<Longrightarrow> plain_item Q x"
  by (auto simp: plain_item_def)

text \<open>The store and the codec together: what both sides of an image stream rely on.\<close>

locale image_stream =
  image_store ops inv unused belongs content stored blocks fail + msg_codec enc dec marker_ok
  for ops :: "('s, 'f) store_ops" and inv unused belongs content stored blocks fail
    and enc :: "marker \<Rightarrow> byte list" and dec
begin

lemma sim_process_small:
  assumes s: "sim S0 X d p" and pl: "play_item p (b, data) = Some p'"
    and av: "avail (dsh_pipe (small_file_shard d)) = data @ rest"
    and seq: "small_file_seq d = i"
    and x: "\<And>f. b = Filename f \<Longrightarrow> usable X f"
    and nm: "p_cur p \<noteq> Some METADATA_FILE" and ne: "\<And>v. b \<noteq> ImageEof v"
  shows "holds_or fail (process_small_file_marker e ops d (mk_marker i b))
           (\<lambda>d'. sim S0 X d' p'
                 \<and> dsh_pipe (small_file_shard d') = (dsh_pipe (small_file_shard d))\<lparr>avail := rest\<rparr>
                 \<and> de_metadata d' = de_metadata d)"
proof (cases b)
  case (Filename f)
  with pl have f: "data = []" "p_done p f = None"
    "p' = p\<lparr>p_cur := Some f, p_open := (p_open p)(f \<mapsto> (case p_open p f of None \<Rightarrow> [] | Some b \<Rightarrow> b))\<rparr>"
    by (auto split: if_splits)
  have "(dsh_pipe (small_file_shard d))\<lparr>avail := rest\<rparr> = dsh_pipe (small_file_shard d)"
    using av f by simp
  with Filename f seq sim_select [OF s x [OF Filename] f(2)] show ?thesis
    by (cases "select_img_file ops d f")
       (auto simp: process_small_file_marker_def Let_def dest: select_img_file_keeps)
next
  case (FileData n)
  with pl obtain f b0 where f: "p_cur p = Some f" "p_open p f = Some b0" "n = length data"
    "p' = p\<lparr>p_open := (p_open p)(f \<mapsto> b0 @ data)\<rparr>"
    by (auto split: option.splits if_splits)
  from sim_cur_Some [OF s f(1)] obtain h where c: "current_img_file d = Some (f, h)" ..
  have "f \<noteq> METADATA_FILE" using nm f by auto
  then show ?thesis
    using FileData c f seq sim_write [OF s c av f(3,2)]
    by (cases "so_write ops (img_store d) h (dsh_pipe (small_file_shard d)) n")
       (auto simp: process_small_file_marker_def Let_def)
next
  case (FileEof v)
  with pl have v: "v" by (cases v) auto
  with FileEof pl obtain f b0 where f: "p_cur p = Some f" "p_open p f = Some b0" "data = []"
    "p' = p\<lparr>p_cur := None, p_open := (p_open p)(f := None), p_done := (p_done p)(f \<mapsto> b0)\<rparr>"
    by (auto split: option.splits if_splits)
  from sim_cur_Some [OF s f(1)] obtain h where c: "current_img_file d = Some (f, h)" ..
  have "(dsh_pipe (small_file_shard d))\<lparr>avail := rest\<rparr> = dsh_pipe (small_file_shard d)"
    using av f by simp
  moreover have "f \<noteq> METADATA_FILE" using nm f by auto
  ultimately show ?thesis
    using FileEof v c f seq sim_insert [OF s c f(2)]
    by (cases "so_insert ops (img_store d) f h") (auto simp: process_small_file_marker_def Let_def)
qed (use ne in auto)

lemma play_item_cur:
  "play_item p (b, data) = Some p' \<Longrightarrow> p_cur p \<noteq> Some g \<Longrightarrow> b \<noteq> Filename g \<Longrightarrow> p_cur p' \<noteq> Some g"
  by (cases "(p, b, data)" rule: play_item.cases) (auto split: option.splits if_splits)

lemma item_marker_ok: "body_ok (fst x) \<Longrightarrow> marker_ok (item_marker i x)"
  by (simp add: item_marker_def marker_ok_def)

lemma read_item:
  "body_ok (fst x) \<Longrightarrow>
   pb_read_next dec \<lparr>avail = item_bytes enc i x @ rest, broken = br\<rparr>
   = Inr (Some (item_marker i x, 4 + length (enc (item_marker i x))),
          \<lparr>avail = snd x @ rest, broken = br\<rparr>)"
  by (simp add: item_bytes_def read_frame item_marker_ok)

text \<open>The state in which the marker of item \<open>x\<close> is processed.\<close>

definition small_read :: "nat \<Rightarrow> item \<Rightarrow> byte list \<Rightarrow> ('s, 'f) deser \<Rightarrow> ('s, 'f) deser" where
  "small_read i x rest d = d\<lparr>small_file_shard := (small_file_shard d)\<lparr>
      dsh_pipe := \<lparr>avail = snd x @ rest, broken = False\<rparr>,
      bytes_read := u64_add (bytes_read (small_file_shard d)) (4 + length (enc (item_marker i x)))\<rparr>\<rparr>"

lemma small_read_simps [simp]:
  "sim S0 X (small_read i x rest d) p = sim S0 X d p"
  "dsh_pipe (small_file_shard (small_read i x rest d)) = \<lparr>avail = snd x @ rest, broken = False\<rparr>"
  "small_file_seq (small_read i x rest d) = small_file_seq d"
  "de_metadata (small_read i x rest d) = de_metadata d"
  "img_store (small_read i x rest d) = img_store d"
  "img_files (small_read i x rest d) = img_files d"
  "current_img_file (small_read i x rest d) = current_img_file d"
  "image_eof (small_read i x rest d) = image_eof d"
  by (simp_all add: small_read_def)

lemma drain_small_step:
  assumes "body_ok (fst x)" and "pb_dec e = dec"
    and "dsh_pipe (small_file_shard d) = \<lparr>avail = item_bytes enc i x @ rest, broken = False\<rparr>"
  shows "drain_small_loop e ops (Suc n) d
         = rbind (process_small_file_marker e ops (small_read i x rest d) (item_marker i x))
             (\<lambda>d'. drain_small_loop e ops n (d'\<lparr>small_file_seq := u64_add (small_file_seq d') 1\<rparr>))"
  using assms by (simp add: read_item Let_def small_read_def)

declare drain_small_loop.simps [simp del]

lemma next_seq_mod:
  "small_file_seq d = i mod 2 ^ 64 \<Longrightarrow> u64_add (small_file_seq d) 1 = Suc i mod 2 ^ 64"
  by (simp add: u64_add_def mod_Suc_eq)

lemma drain_small_items:
  "sim S0 X d p \<Longrightarrow> play p xs = Some p' \<Longrightarrow>
   dsh_pipe (small_file_shard d) = \<lparr>avail = stream_from enc i xs @ rest, broken = False\<rparr> \<Longrightarrow>
   small_file_seq d = i mod 2 ^ 64 \<Longrightarrow> (\<And>x. x \<in> set xs \<Longrightarrow> plain_item (\<lambda>f. usable X f \<and> f \<noteq> METADATA_FILE) x) \<Longrightarrow>
   p_cur p \<noteq> Some METADATA_FILE \<Longrightarrow> pb_dec e = dec \<Longrightarrow>
   (\<And>d'. sim S0 X d' p' \<Longrightarrow> dsh_pipe (small_file_shard d') = \<lparr>avail = rest, broken = False\<rparr> \<Longrightarrow>
      small_file_seq d' = (i + length xs) mod 2 ^ 64 \<Longrightarrow> de_metadata d' = de_metadata d \<Longrightarrow>
      holds_or fail (drain_small_loop e ops n d') Q) \<Longrightarrow>
   holds_or fail (drain_small_loop e ops (length xs + n) d) Q"
proof (induction xs arbitrary: d p i)
  case Nil
  then show ?case by simp
next
  case (Cons x xs)
  obtain b data where x: "x = (b, data)" by (cases x)
  from Cons.prems(2) x obtain p1 where p1: "play_item p (b, data) = Some p1" "play p1 xs = Some p'"
    by (auto split: option.splits)
  have pi: "plain_item (\<lambda>f. usable X f \<and> f \<noteq> METADATA_FILE) x" using Cons.prems(5) by simp
  define rest1 where "rest1 = stream_from enc (Suc i) xs @ rest"
  let ?d1 = "small_read i x rest1 d"
  have "dsh_pipe (small_file_shard d) = \<lparr>avail = item_bytes enc i x @ rest1, broken = False\<rparr>"
    using Cons.prems(3) by (simp add: rest1_def)
  with pi Cons.prems(7) have step: "drain_small_loop e ops (Suc (length xs + n)) d
      = rbind (process_small_file_marker e ops ?d1 (item_marker i x)) (\<lambda>d'.
          drain_small_loop e ops (length xs + n) (d'\<lparr>small_file_seq := u64_add (small_file_seq d') 1\<rparr>))"
    by (intro drain_small_step) (simp_all add: plain_item_def)
  have "holds_or fail (process_small_file_marker e ops ?d1 (mk_marker (i mod 2 ^ 64) b))
          (\<lambda>d'. sim S0 X d' p1 \<and> dsh_pipe (small_file_shard d') = (dsh_pipe (small_file_shard ?d1))\<lparr>avail := rest1\<rparr>
                \<and> de_metadata d' = de_metadata ?d1)"
    by (rule sim_process_small [of S0 X ?d1 p b data p1 rest1])
       (use Cons.prems(1,4,6) p1 pi in \<open>auto simp: plain_item_def x\<close>)
  then have "holds_or fail (rbind (process_small_file_marker e ops ?d1 (item_marker i x)) (\<lambda>d'.
      drain_small_loop e ops (length xs + n) (d'\<lparr>small_file_seq := u64_add (small_file_seq d') 1\<rparr>))) Q"
    unfolding item_marker_def x fst_conv
  proof (rule holds_or_bind, elim conjE, goal_cases)
    case (1 d')
    then have "small_file_seq d' = i mod 2 ^ 64"
      using process_small_same [OF 1(1)] Cons.prems(4) by simp
    note sq = next_seq_mod [OF this]
    show ?case
    proof (rule Cons.IH [of _ p1 "Suc i"], goal_cases)
      case (5 y)
      then show ?case using Cons.prems(5) by simp
    next
      case 6
      then show ?case
        using play_item_cur [OF p1(1) Cons.prems(6)] pi by (auto simp: plain_item_def x)
    next
      case (8 d'')
      then show ?case using Cons.prems(8) [of d''] 1 by simp
    qed (use 1 p1 sq Cons.prems(7) in \<open>simp_all add: rest1_def\<close>)
  qed
  then show ?case using step by simp
qed

text \<open>The metadata file: its handle is given up, its names are kept.\<close>

lemma drain_small_metadata:
  assumes s: "sim S0 X d p" and op: "p_open p = Map.empty" and pd: "p_done p METADATA_FILE = None"
    and x: "usable X METADATA_FILE" and seq: "small_file_seq d = i mod 2 ^ 64"
    and pipe: "dsh_pipe (small_file_shard d)
               = \<lparr>avail = stream_from enc i [(Filename METADATA_FILE, []), (FileData (length js), js),
                                             (FileEof True, [])], broken = False\<rparr>"
    and js: "of_json e js = Some names" "length js < 2 ^ 32" and dec: "pb_dec e = dec"
  shows "holds_or fail (drain_small_loop e ops (Suc (Suc (Suc (Suc n)))) d)
           (\<lambda>d'. sim S0 (insert METADATA_FILE X) d' p \<and> de_metadata d' = Some names)"
proof -
  let ?f = METADATA_FILE
  define r2 where "r2 = stream_from enc (Suc (Suc i)) [(FileEof True, [])]"
  define r1 where "r1 = item_bytes enc (Suc i) (FileData (length js), js) @ r2"
  let ?p1 = "p\<lparr>p_cur := Some ?f, p_open := (p_open p)(?f \<mapsto> [])\<rparr>"
  have cur: "p_cur p = None"
  proof (cases "p_cur p")
    case (Some f)
    with sim_cur_Some [OF s] obtain h where "current_img_file d = Some (f, h)" by blast
    from sim_current [OF s this] op show ?thesis by simp
  qed
  have step1: "holds_or fail (process_small_file_marker e ops
          (small_read i (Filename ?f, []) r1 d) (mk_marker (i mod 2 ^ 64) (Filename ?f)))
        (\<lambda>d'. sim S0 X d' ?p1 \<and> dsh_pipe (small_file_shard d')
              = (dsh_pipe (small_file_shard (small_read i (Filename ?f, []) r1 d)))\<lparr>avail := r1\<rparr>
              \<and> de_metadata d' = de_metadata (small_read i (Filename ?f, []) r1 d))"
    by (rule sim_process_small [where p = p and data = "[]"])
       (use s op pd x seq cur in auto)
  have "holds_or fail (rbind (process_small_file_marker e ops
          (small_read i (Filename ?f, []) r1 d) (item_marker i (Filename ?f, []))) (\<lambda>d'.
        drain_small_loop e ops (Suc (Suc (Suc n)))
          (d'\<lparr>small_file_seq := u64_add (small_file_seq d') 1\<rparr>)))
        (\<lambda>d'. sim S0 (insert ?f X) d' p \<and> de_metadata d' = Some names)"
    unfolding item_marker_def fst_conv
  proof (rule holds_or_bind [OF step1], elim conjE, goal_cases)
    case (1 d1)
    then have "small_file_seq d1 = i mod 2 ^ 64" using process_small_same [OF 1(1)] seq by simp
    note sq1 = next_seq_mod [OF this]
    let ?d1 = "d1\<lparr>small_file_seq := Suc i mod 2 ^ 64\<rparr>"
    from 1 obtain h where h: "current_img_file d1 = Some (?f, h)"
      using sim_cur_Some [of S0 X d1 ?p1 ?f] by auto
    let ?d2 = "small_read (Suc i) (FileData (length js), js) r2 ?d1"
    let ?sh = "(small_file_shard ?d2)\<lparr>dsh_pipe := \<lparr>avail = r2, broken = False\<rparr>,
        bytes_read := u64_add (bytes_read (small_file_shard ?d2)) (length js)\<rparr>"
    let ?d3 = "?d2\<lparr>de_metadata := Some names, small_file_shard := ?sh\<rparr>"
    have p2: "process_small_file_marker e ops ?d2 (item_marker (Suc i) (FileData (length js), js))
              = Inr ?d3"
      using h js by (simp add: process_small_file_marker_def item_marker_def Let_def)
    have s3: "drain_small_loop e ops (Suc (Suc (Suc n))) ?d1
              = drain_small_loop e ops (Suc (Suc n)) (?d3\<lparr>small_file_seq := Suc (Suc i) mod 2 ^ 64\<rparr>)"
      by (subst drain_small_step [where x = "(FileData (length js), js)" and i = "Suc i" and rest = r2])
         (use 1 js dec p2 in \<open>simp_all add: r1_def next_index_mod\<close>)
    let ?d3' = "?d3\<lparr>small_file_seq := Suc (Suc i) mod 2 ^ 64\<rparr>"
    let ?d4 = "small_read (Suc (Suc i)) (FileEof True, []) [] ?d3'"
    have p4: "process_small_file_marker e ops ?d4 (item_marker (Suc (Suc i)) (FileEof True, []))
              = Inr (?d4\<lparr>current_img_file := None\<rparr>)"
      using h by (simp add: process_small_file_marker_def item_marker_def Let_def)
    have s4: "drain_small_loop e ops (Suc (Suc n)) ?d3'
              = drain_small_loop e ops (Suc n) (?d4\<lparr>current_img_file := None,
                   small_file_seq := Suc (Suc (Suc i)) mod 2 ^ 64\<rparr>)"
      by (subst drain_small_step [where x = "(FileEof True, [])" and i = "Suc (Suc i)" and rest = "[]"])
         (use dec p4 in \<open>simp_all add: r2_def next_index_mod\<close>)
    define d5 where "d5 = ?d4\<lparr>current_img_file := None,
                             small_file_seq := Suc (Suc (Suc i)) mod 2 ^ 64\<rparr>"
    have s5: "drain_small_loop e ops (Suc n) d5 = Inr (d5\<lparr>small_file_shard :=
                (small_file_shard d5)\<lparr>dsh_pipe := \<lparr>avail = [], broken = False\<rparr>\<rparr>\<rparr>)"
      using dec by (simp add: drain_small_loop.simps d5_def pb_read_next_eof)
    have "sim S0 (X \<union> {?f}) d5 p"
    proof (rule sim_change [OF 1(2), where oh = None and dn = None and keep = "\<lambda>_. True"])
      show "open_files d5 = (open_files d1)(?f := None)"
        using sim_current [OF 1(2) h] by (auto simp: open_files_def d5_def)
    qed (use 1 sim_current [OF 1(2) h] op pd cur in \<open>auto simp: d5_def leaves_others_refl\<close>)
    then show ?case
      using sq1 s3 s4 s5 by (simp flip: d5_def) (simp add: d5_def)
  qed
  then show ?thesis
    by (subst drain_small_step [where x = "(Filename ?f, [])" and i = i and rest = r1])
       (use pipe dec in \<open>simp_all add: r1_def r2_def METADATA_FILE_def\<close>)
qed

lemma play_no_name:
  "play p xs = Some p' \<Longrightarrow> (\<And>x. x \<in> set xs \<Longrightarrow> fst x \<noteq> Filename g) \<Longrightarrow> p_cur p \<noteq> Some g \<Longrightarrow>
   p_done p g = None \<Longrightarrow> p_done p' g = None"
proof (induction xs arbitrary: p)
  case (Cons x xs)
  obtain b data where x: "x = (b, data)" by (cases x)
  from Cons.prems x obtain p1 where p1: "play_item p (b, data) = Some p1" "play p1 xs = Some p'"
    by (auto split: option.splits)
  have "b \<noteq> Filename g" using Cons.prems(2) [of x] x by simp
  then have "p_cur p1 \<noteq> Some g" using play_item_cur [OF p1(1) Cons.prems(3)] by simp
  moreover have "p_done p1 g = None"
    using p1(1) Cons.prems(3,4)
    by (cases "(p, b, data)" rule: play_item.cases) (auto split: option.splits if_splits)
  ultimately show ?case using Cons.IH [OF p1(2)] Cons.prems(2) by simp
qed simp

text \<open>The whole small shard: the files play, and the metadata gives the names.\<close>

lemma drain_small_shard_sim:
  assumes s: "sim S0 X d p" and mx: "usable X METADATA_FILE"
    and pl: "play p xs = Some p'" and op: "p_open p' = Map.empty"
    and pd: "p_done p METADATA_FILE = None" and cur: "p_cur p = None"
    and seq: "small_file_seq d = 0"
    and pipe: "dsh_pipe (small_file_shard d)
               = \<lparr>avail = stream_from enc 0 (xs @ [(Filename METADATA_FILE, []),
                    (FileData (length js), js), (FileEof True, [])]), broken = False\<rparr>"
    and plain: "\<And>x. x \<in> set xs \<Longrightarrow> plain_item (\<lambda>f. usable X f \<and> f \<noteq> METADATA_FILE) x"
    and js: "of_json e js = Some names" "length js < 2 ^ 32" and dec: "pb_dec e = dec"
    and fuel: "length xs + 4 \<le> fuel"
  shows "holds_or fail (drain_small_file_shard e ops fuel d)
           (\<lambda>(names', d'). names' = names \<and> sim S0 (insert METADATA_FILE X) d' p' \<and> same_large d d')"
proof -
  obtain n where n: "fuel = length xs + Suc (Suc (Suc (Suc n)))"
    using fuel by (auto simp: le_iff_add numeral_eq_Suc)
  have "p_done p' METADATA_FILE = None"
    by (rule play_no_name [OF pl]) (use plain cur pd in \<open>auto simp: plain_item_def\<close>)
  note md = drain_small_metadata [OF _ op this mx _ _ js dec]
  have loop: "holds_or fail (drain_small_loop e ops fuel d)
                (\<lambda>d'. sim S0 (insert METADATA_FILE X) d' p' \<and> de_metadata d' = Some names)"
    unfolding n
    by (rule drain_small_items [OF s pl _ _ _ _ dec, where i = 0])
       (use pipe seq plain cur in \<open>auto simp: stream_from_append intro!: md\<close>)
  show ?thesis
  proof (cases "drain_small_loop e ops fuel d")
    case (Inl x)
    with loop show ?thesis by (simp add: drain_small_file_shard_def)
  next
    case (Inr d1)
    with loop drain_small_loop_same [OF Inr] show ?thesis
      by (simp add: drain_small_file_shard_def same_large_def)
  qed
qed

end

end
