(* ===== verification/Drain_Order.thy ===== *)
theory Drain_Order
  imports Simulation "HOL-Library.Multiset"
begin

text \<open>
  Reassembly of the image from its shards. \<open>L\<close> is the log the shards were written from: the item
  with sequence number \<open>q\<close> is on shard \<open>fst (L ! q)\<close>. \<open>tracked\<close> says what the deserializer's
  multisets of idle shards and of pending markers hold when the items below \<open>p\<close> have been
  processed; reading a marker and processing the marker that is due keep it, whatever order
  the kernel reports the shards in. \<open>drain_all\<close> then processes all items in the order of the log.
\<close>

section \<open>Tracking the shards\<close>

definition idle :: "(marker \<Rightarrow> byte list) \<Rightarrow> (nat \<times> item) list \<Rightarrow> nat \<Rightarrow> nat \<Rightarrow> dshard \<Rightarrow> bool" where
  "idle enc L p j sh \<longleftrightarrow> dsh_pipe sh = \<lparr>avail = shard_from enc j p (drop p L), broken = False\<rparr>"

text \<open>The marker of item \<open>q\<close>, the next one of its shard, was read; its payload was not.\<close>

definition held_at ::
  "(marker \<Rightarrow> byte list) \<Rightarrow> (nat \<times> item) list \<Rightarrow> nat \<Rightarrow> nat \<Rightarrow> nat \<Rightarrow> pending_marker \<Rightarrow> bool" where
  "held_at enc L p q j pm \<longleftrightarrow>
     p \<le> q \<and> q < length L \<and> fst (L ! q) = j \<and> (\<forall>r. p \<le> r \<and> r < q \<longrightarrow> fst (L ! r) \<noteq> j)
     \<and> pm_marker pm = item_marker q (snd (L ! q))
     \<and> dsh_pipe (pm_shard pm)
       = \<lparr>avail = snd (snd (L ! q)) @ shard_from enc j (Suc q) (drop (Suc q) L), broken = False\<rparr>"

definition tracked ::
  "(marker \<Rightarrow> byte list) \<Rightarrow> (nat \<times> item) list \<Rightarrow> nat \<Rightarrow> dshard multiset \<Rightarrow> pending_marker multiset \<Rightarrow> bool"
where
  "tracked enc L p M N \<longleftrightarrow> (\<exists>A P.
     mset (map snd A) = M \<and> mset (map snd P) = N
     \<and> (\<forall>x \<in> set A. idle enc L p (fst x) (snd x))
     \<and> (\<forall>x \<in> set P. \<exists>q. held_at enc L p q (fst x) (snd x))
     \<and> distinct (map fst A @ map fst P)
     \<and> (\<forall>q < length L. p \<le> q \<longrightarrow> fst (L ! q) \<in> fst ` set A \<union> fst ` set P))"

lemma tracked_E:
  assumes "tracked enc L p M N"
  obtains A P where "mset (map snd A) = M" "mset (map snd P) = N"
    "\<forall>x \<in> set A. idle enc L p (fst x) (snd x)"
    "\<forall>x \<in> set P. \<exists>q. held_at enc L p q (fst x) (snd x)"
    "distinct (map fst A @ map fst P)"
    "\<forall>q < length L. p \<le> q \<longrightarrow> fst (L ! q) \<in> fst ` set A \<union> fst ` set P"
  using assms unfolding tracked_def by blast

lemma drop_step: "p < length L \<Longrightarrow> drop p L = L ! p # drop (Suc p) L"
  by (simp add: Cons_nth_drop_Suc)

lemma shard_from_skip:
  "p \<le> q \<Longrightarrow> q \<le> length L \<Longrightarrow> (\<And>r. p \<le> r \<Longrightarrow> r < q \<Longrightarrow> fst (L ! r) \<noteq> j) \<Longrightarrow>
   shard_from enc j p (drop p L) = shard_from enc j q (drop q L)"
proof (induction "q - p" arbitrary: p)
  case (Suc n)
  then have p: "p < q" "n = q - Suc p" by auto
  with Suc.prems have "fst (L ! p) \<noteq> j" "p < length L" by auto
  then have "shard_from enc j p (drop p L) = shard_from enc j (Suc p) (drop (Suc p) L)"
    by (cases "L ! p") (simp add: drop_step)
  also have "\<dots> = shard_from enc j q (drop q L)"
    using Suc.hyps(1) [OF p(2)] Suc.prems p by simp
  finally show ?case .
qed simp

lemma shard_from_at:
  "q < length L \<Longrightarrow> fst (L ! q) = j \<Longrightarrow>
   shard_from enc j q (drop q L)
   = item_bytes enc q (snd (L ! q)) @ shard_from enc j (Suc q) (drop (Suc q) L)"
  by (cases "L ! q") (simp add: drop_step)

text \<open>The next item of a shard, if it has one.\<close>

lemma next_item:
  assumes "p \<le> length L"
  obtains (none) "\<forall>r. p \<le> r \<and> r < length L \<longrightarrow> fst (L ! r) \<noteq> j" "shard_from enc j p (drop p L) = []"
  | (some) q where "p \<le> q" "q < length L" "fst (L ! q) = j"
      "\<forall>r. p \<le> r \<and> r < q \<longrightarrow> fst (L ! r) \<noteq> j"
      "shard_from enc j p (drop p L)
       = item_bytes enc q (snd (L ! q)) @ shard_from enc j (Suc q) (drop (Suc q) L)"
proof (cases "\<exists>q. p \<le> q \<and> q < length L \<and> fst (L ! q) = j")
  case False
  with assms shard_from_skip [of p "length L" L j enc] show ?thesis by (intro none) auto
next
  case True
  define q where "q = (LEAST q. p \<le> q \<and> q < length L \<and> fst (L ! q) = j)"
  have q: "p \<le> q" "q < length L" "fst (L ! q) = j"
    using LeastI_ex [OF True] by (simp_all add: q_def)
  have first: "\<forall>r. p \<le> r \<and> r < q \<longrightarrow> fst (L ! r) \<noteq> j"
  proof (intro allI impI)
    fix r
    assume r: "p \<le> r \<and> r < q"
    with not_less_Least [of r "\<lambda>q. p \<le> q \<and> q < length L \<and> fst (L ! q) = j"] q
    show "fst (L ! r) \<noteq> j" by (auto simp: q_def)
  qed
  with q show ?thesis
    using shard_from_skip [of p q L j enc] shard_from_at [of q L j enc] by (intro some) auto
qed

section \<open>The three steps\<close>

lemma in_mset_split:
  assumes "mset (map snd A) = add_mset y M"
  obtains l x r where "A = l @ (x, y) # r" "mset (map snd (l @ r)) = M"
proof -
  have "y \<in> set (map snd A)" using assms by (metis set_mset_mset union_single_eq_member)
  then obtain x where "(x, y) \<in> set A" by auto
  then obtain l r where "A = l @ (x, y) # r" by (meson split_list)
  with assms that [of l x r] show ?thesis by simp
qed

lemma tracked_read:
  assumes t: "tracked enc L p (add_mset sh M) N" and p: "p \<le> length L"
  shows "(dsh_pipe sh = \<lparr>avail = [], broken = False\<rparr> \<and> tracked enc L p M N)
         \<or> (\<exists>q rest. q < length L \<and> p \<le> q
              \<and> dsh_pipe sh = \<lparr>avail = item_bytes enc q (snd (L ! q)) @ rest, broken = False\<rparr>
              \<and> (\<forall>sh'. dsh_pipe sh' = \<lparr>avail = snd (snd (L ! q)) @ rest, broken = False\<rparr> \<longrightarrow>
                   tracked enc L p M
                     (add_mset \<lparr>pm_marker = item_marker q (snd (L ! q)), pm_shard = sh'\<rparr> N)))"
proof -
  from t obtain A P where A: "mset (map snd A) = add_mset sh M" and P: "mset (map snd P) = N"
    and i: "\<forall>x \<in> set A. idle enc L p (fst x) (snd x)"
    and h: "\<forall>x \<in> set P. \<exists>q. held_at enc L p q (fst x) (snd x)"
    and dist: "distinct (map fst A @ map fst P)"
    and cov: "\<forall>q < length L. p \<le> q \<longrightarrow> fst (L ! q) \<in> fst ` set A \<union> fst ` set P"
    by (rule tracked_E)
  from A obtain l j r where lr: "A = l @ (j, sh) # r" "mset (map snd (l @ r)) = M"
    by (rule in_mset_split)
  have sh: "dsh_pipe sh = \<lparr>avail = shard_from enc j p (drop p L), broken = False\<rparr>"
    using i lr by (simp add: idle_def)
  from p show ?thesis
  proof (cases rule: next_item [of p L j enc])
    case none
    have "tracked enc L p M N" unfolding tracked_def
      by (intro exI [of _ "l @ r"] exI [of _ P]) (use lr P i h dist cov none in auto)
    with sh none show ?thesis by simp
  next
    case (some q)
    let ?rest = "shard_from enc j (Suc q) (drop (Suc q) L)"
    have "tracked enc L p M (add_mset \<lparr>pm_marker = item_marker q (snd (L ! q)), pm_shard = sh'\<rparr> N)"
      if "dsh_pipe sh' = \<lparr>avail = snd (snd (L ! q)) @ ?rest, broken = False\<rparr>" for sh'
    proof -
      let ?pm = "\<lparr>pm_marker = item_marker q (snd (L ! q)), pm_shard = sh'\<rparr>"
      have "held_at enc L p q j ?pm" using some that by (simp add: held_at_def)
      then show ?thesis unfolding tracked_def
        by (intro exI [of _ "l @ r"] exI [of _ "(j, ?pm) # P"]) (use lr P i h dist cov in auto)
    qed
    with sh some show ?thesis by auto
  qed
qed

lemma idle_later:
  "idle enc L p j sh \<Longrightarrow> p < length L \<Longrightarrow> fst (L ! p) \<noteq> j \<Longrightarrow> idle enc L (Suc p) j sh"
  using shard_from_skip [of p "Suc p" L j enc] by (auto simp: idle_def less_Suc_eq)

lemma held_later:
  "held_at enc L p q j pm \<Longrightarrow> q \<noteq> p \<Longrightarrow> held_at enc L (Suc p) q j pm"
  by (auto simp: held_at_def)

lemma tracked_process:
  assumes t: "tracked enc L p M (add_mset pm N)" and len: "length L < 2 ^ 64"
    and seq: "mseq (pm_marker pm) = p"
  shows "p < length L \<and> pm_marker pm = item_marker p (snd (L ! p))
         \<and> (Suc p = length L \<longrightarrow> N = {#})
         \<and> (\<exists>rest. dsh_pipe (pm_shard pm) = \<lparr>avail = snd (snd (L ! p)) @ rest, broken = False\<rparr>
              \<and> (\<forall>sh. dsh_pipe sh = \<lparr>avail = rest, broken = False\<rparr> \<longrightarrow>
                   tracked enc L (Suc p) (add_mset sh M) N))"
proof -
  from t obtain A P where A: "mset (map snd A) = M" and P: "mset (map snd P) = add_mset pm N"
    and i: "\<forall>x \<in> set A. idle enc L p (fst x) (snd x)"
    and h: "\<forall>x \<in> set P. \<exists>q. held_at enc L p q (fst x) (snd x)"
    and dist: "distinct (map fst A @ map fst P)"
    and cov: "\<forall>q < length L. p \<le> q \<longrightarrow> fst (L ! q) \<in> fst ` set A \<union> fst ` set P"
    by (rule tracked_E)
  from P obtain l j r where lr: "P = l @ (j, pm) # r" "mset (map snd (l @ r)) = N"
    by (rule in_mset_split)
  from h lr obtain q where q: "held_at enc L p q j pm" by auto
  then have "q = p" using seq len by (simp add: held_at_def item_marker_def)
  with q have p: "p < length L" "fst (L ! p) = j" "pm_marker pm = item_marker p (snd (L ! p))"
    and pipe: "dsh_pipe (pm_shard pm)
      = \<lparr>avail = snd (snd (L ! p)) @ shard_from enc j (Suc p) (drop (Suc p) L), broken = False\<rparr>"
    by (auto simp: held_at_def)
  have other: "\<exists>q. held_at enc L (Suc p) q (fst x) (snd x)" if "x \<in> set (l @ r)" for x
  proof -
    from that h lr obtain q' where q': "held_at enc L p q' (fst x) (snd x)" by auto
    moreover have "fst x \<noteq> j" using that dist lr by (auto simp: image_iff)
    ultimately have "q' \<noteq> p" using p by (auto simp: held_at_def)
    with q' show ?thesis by (blast intro: held_later)
  qed
  have "N = {#}" if "Suc p = length L"
  proof -
    have "l @ r = []"
    proof (rule ccontr)
      assume "l @ r \<noteq> []"
      then obtain x where "x \<in> set (l @ r)" by (cases "l @ r") auto
      from other [OF this] that show False by (auto simp: held_at_def)
    qed
    with lr show ?thesis by simp
  qed
  moreover have "tracked enc L (Suc p) (add_mset sh M) N"
    if "dsh_pipe sh = \<lparr>avail = shard_from enc j (Suc p) (drop (Suc p) L), broken = False\<rparr>" for sh
  proof -
    have "idle enc L (Suc p) j sh" using that by (simp add: idle_def)
    moreover have "idle enc L (Suc p) (fst x) (snd x)" if "x \<in> set A" for x
      by (rule idle_later) (use that i p dist lr in \<open>auto simp: image_iff\<close>)
    ultimately show ?thesis unfolding tracked_def
      by (intro exI [of _ "(j, sh) # A"] exI [of _ "l @ r"])
         (use A lr other dist cov in auto)
  qed
  ultimately show ?thesis using p pipe by blast
qed

lemma tracked_done:
  assumes t: "tracked enc L p {#} N" and len: "length L < 2 ^ 64" and p: "p \<le> length L"
    and due: "\<forall>pm \<in># N. mseq (pm_marker pm) \<noteq> p"
  shows "p = length L \<and> N = {#}"
proof -
  from t obtain A P where A: "mset (map snd A) = {#}" and P: "mset (map snd P) = N"
    and "\<forall>x \<in> set A. idle enc L p (fst x) (snd x)"
    and h: "\<forall>x \<in> set P. \<exists>q. held_at enc L p q (fst x) (snd x)"
    and "distinct (map fst A @ map fst P)"
    and cov0: "\<forall>q < length L. p \<le> q \<longrightarrow> fst (L ! q) \<in> fst ` set A \<union> fst ` set P"
    by (rule tracked_E)
  from A have "A = []" by simp
  with cov0 have cov: "\<forall>q < length L. p \<le> q \<longrightarrow> fst (L ! q) \<in> fst ` set P" by simp
  have "p = length L"
  proof (rule ccontr)
    assume "p \<noteq> length L"
    with p have lt: "p < length L" by simp
    with cov obtain x where x: "x \<in> set P" "fst x = fst (L ! p)" by auto
    with h obtain q where q: "held_at enc L p q (fst x) (snd x)" by blast
    have "q = p"
    proof (rule ccontr)
      assume "q \<noteq> p"
      with q have "p < q" by (simp add: held_at_def)
      with q x(2) show False unfolding held_at_def by (metis order_refl)
    qed
    with q lt len have "mseq (pm_marker (snd x)) = p" by (simp add: held_at_def item_marker_def)
    moreover have "snd x \<in># N" using x(1) unfolding P [symmetric] by simp
    ultimately show False using due by blast
  qed
  moreover have "P = []"
  proof (rule ccontr)
    assume "P \<noteq> []"
    then obtain x where "x \<in> set P" by (cases P) auto
    with h \<open>p = length L\<close> show False by (auto simp: held_at_def)
  qed
  ultimately show ?thesis using P by simp
qed

lemma tracked_fresh:
  assumes "\<And>x. x \<in> set L \<Longrightarrow> fst x < n"
  shows "tracked enc L 0 (mset (map (\<lambda>j. dshard_new \<lparr>avail = shard_from enc j 0 L, broken = False\<rparr>)
                                    [0..<n])) {#}"
  unfolding tracked_def
  by (intro exI [of _ "map (\<lambda>j. (j, dshard_new \<lparr>avail = shard_from enc j 0 L, broken = False\<rparr>)) [0..<n]"]
      exI [of _ "[]"])
     (use assms in \<open>auto simp: idle_def dshard_new_def comp_def image_iff\<close>)

text \<open>No pending marker is overdue.\<close>

lemma tracked_seq_ge:
  assumes t: "tracked enc L p M N" and len: "length L < 2 ^ 64" and pm: "pm \<in># N"
  shows "p \<le> mseq (pm_marker pm)"
proof -
  from t obtain A P where "mset (map snd A) = M" and P: "mset (map snd P) = N"
    and "\<forall>x \<in> set A. idle enc L p (fst x) (snd x)"
    and h: "\<forall>x \<in> set P. \<exists>q. held_at enc L p q (fst x) (snd x)"
    and "distinct (map fst A @ map fst P)"
    and "\<forall>q < length L. p \<le> q \<longrightarrow> fst (L ! q) \<in> fst ` set A \<union> fst ` set P"
    by (rule tracked_E)
  from pm P have "pm \<in> set (map snd P)" by (metis set_mset_mset)
  then obtain x where "x \<in> set P" "pm = snd x" by auto
  with h obtain q where "held_at enc L p q (fst x) pm" by blast
  with len show ?thesis by (simp add: held_at_def item_marker_def)
qed

section \<open>The deserializer keeps track\<close>

text \<open>
  A log that can be extracted: it plays, its markers can be sent, and the end of the image is
  its last item. \<open>P\<close> are the names it may use.
\<close>

definition good_log :: "(string \<Rightarrow> bool) \<Rightarrow> pstate \<Rightarrow> (nat \<times> item) list \<Rightarrow> bool" where
  "good_log P p0 L \<longleftrightarrow>
     length L < 2 ^ 64 \<and> play p0 (map snd L) \<noteq> None \<and> p_eof p0 = False
     \<and> L \<noteq> [] \<and> fst (snd (last L)) = ImageEof True
     \<and> (\<forall>x \<in> set (butlast L). fst (snd x) \<noteq> ImageEof True)
     \<and> (\<forall>x \<in> set L. body_ok (fst (snd x)) \<and> (\<forall>f. fst (snd x) = Filename f \<longrightarrow> P f))"

lemma play_item_eof:
  "play_item p (b, data) = Some p' \<Longrightarrow> p_eof p' = (b = ImageEof True \<or> p_eof p)"
  by (cases "(p, b, data)" rule: play_item.cases) (auto split: option.splits if_splits)

lemma play_eof:
  "play p xs = Some p' \<Longrightarrow> p_eof p' \<longleftrightarrow> p_eof p \<or> (\<exists>x \<in> set xs. fst x = ImageEof True)"
proof (induction xs arbitrary: p)
  case (Cons x xs)
  obtain b data where x: "x = (b, data)" by (cases x)
  from Cons.prems x obtain p1 where "play_item p (b, data) = Some p1" "play p1 xs = Some p'"
    by (auto split: option.splits)
  with Cons.IH play_item_eof x show ?case by auto
qed simp

lemma good_log_step:
  assumes g: "good_log P p0 L" and p: "p < length L" and ps: "play p0 (map snd (take p L)) = Some ps"
  shows "\<exists>ps'. play_item ps (snd (L ! p)) = Some ps' \<and> play p0 (map snd (take (Suc p) L)) = Some ps'"
proof -
  have "L = take p L @ L ! p # drop (Suc p) L" using p by (simp add: id_take_nth_drop)
  then have "play p0 (map snd (take p L @ L ! p # drop (Suc p) L)) \<noteq> None"
    using g by (simp add: good_log_def)
  then obtain ps' where "play_item ps (snd (L ! p)) = Some ps'"
    using ps by (auto simp: play_append split: option.splits)
  moreover from this have "play p0 (map snd (take (Suc p) L)) = Some ps'"
    using p ps by (simp add: take_Suc_conv_app_nth play_append)
  ultimately show ?thesis by blast
qed

lemma good_log_not_last:
  "good_log P p0 L \<Longrightarrow> p < length L \<Longrightarrow> fst (snd (L ! p)) = ImageEof True \<Longrightarrow> Suc p = length L"
proof (rule ccontr)
  assume g: "good_log P p0 L" and p: "p < length L" "fst (snd (L ! p)) = ImageEof True"
    and n: "Suc p \<noteq> length L"
  then have "p < length (butlast L)" by simp
  then have "butlast L ! p \<in> set (butlast L)" by (rule nth_mem)
  moreover have "butlast L ! p = L ! p" using \<open>p < length (butlast L)\<close> by (rule nth_butlast)
  ultimately show False using g p by (auto simp: good_log_def)
qed

lemma good_log_eof:
  assumes g: "good_log P p0 L" and ps: "play p0 (map snd (take p L)) = Some ps" and p: "p < length L"
  shows "\<not> p_eof ps"
proof
  assume "p_eof ps"
  with play_eof [OF ps] g obtain x where x: "x \<in> set (take p L)" "fst (snd x) = ImageEof True"
    by (auto simp: good_log_def)
  then obtain i where "i < p" "x = L ! i" by (auto simp: in_set_conv_nth)
  with good_log_not_last [OF g, of i] p x show False by simp
qed

text \<open>\<open>poll()\<close> reports descriptors it was asked about, at least one of them, or fails.\<close>

definition poll_ok :: "(failure \<Rightarrow> bool) \<Rightarrow> denv \<Rightarrow> bool" where
  "poll_ok fail e \<longleftrightarrow>
     (\<forall>n k. 2 \<le> k \<longrightarrow> holds_or fail (poll_ready e n k) (\<lambda>ready. ready \<noteq> [] \<and> set ready \<subseteq> {..<k}))"

lemma poll_ok_mono:
  assumes "poll_ok (\<lambda>_. False) e"
  shows "poll_ok fail e"
  unfolding poll_ok_def
proof (intro allI impI)
  fix n k :: nat
  assume "2 \<le> k"
  with assms obtain r where "poll_ready e n k = Inr r" "r \<noteq> [] \<and> set r \<subseteq> {..<k}"
    unfolding poll_ok_def holds_or_total by blast
  then show "holds_or fail (poll_ready e n k) (\<lambda>r. r \<noteq> [] \<and> set r \<subseteq> {..<k})" by simp
qed

definition pool :: "('s, 'f) deser \<Rightarrow> dshard list" where
  "pool d = de_shards d @ readable_shards d"

definition same_files :: "('s, 'f) deser \<Rightarrow> ('s, 'f) deser \<Rightarrow> bool" where
  "same_files d d' \<longleftrightarrow>
     img_store d' = img_store d \<and> img_files d' = img_files d
     \<and> current_img_file d' = current_img_file d \<and> image_eof d' = image_eof d
     \<and> de_seq d' = de_seq d \<and> pending_markers d' = pending_markers d"

lemma vec_pop_mset:
  "vec_pop xs = (x, ys) \<Longrightarrow>
   (case x of None \<Rightarrow> xs = [] \<and> ys = [] | Some y \<Rightarrow> xs = ys @ [y])"
  by (auto simp: vec_pop_def split: if_splits)

lemma filter_enumerate_mset:
  "mset (map snd (filter P xs)) + mset (map snd (filter (\<lambda>x. \<not> P x) xs)) = mset (map snd xs)"
  by (induction xs) auto

lemma get_next_readable_shard_pool:
  assumes "poll_ok fail e"
  shows "holds_or fail (get_next_readable_shard e d) (\<lambda>(next, d').
           same_files d d'
           \<and> (case next of None \<Rightarrow> pool d = [] \<and> pool d' = []
              | Some sh \<Rightarrow> mset (pool d) = add_mset sh (mset (pool d'))))"
proof (cases "readable_shards d = []")
  case False
  then obtain s ys where "readable_shards d = ys @ [s]" by (cases "readable_shards d" rule: rev_cases) auto
  then show ?thesis
    by (simp add: get_next_readable_shard_def vec_pop_def pool_def same_files_def)
next
  case True
  show ?thesis
  proof (cases "length (de_shards d) \<le> 1")
    case le: True
    then show ?thesis using True
      by (cases "de_shards d")
         (auto simp: get_next_readable_shard_def vec_pop_def pool_def same_files_def)
  next
    case False
    let ?k = "length (de_shards d)"
    from assms False have po: "holds_or fail (poll_ready e (polls d) ?k)
        (\<lambda>ready. ready \<noteq> [] \<and> set ready \<subseteq> {..<?k})"
      by (auto simp: poll_ok_def)
    show ?thesis
    proof (cases "poll_ready e (polls d) ?k")
      case (Inl x)
      with po True False show ?thesis by (simp add: get_next_readable_shard_def)
    next
      case (Inr ready)
      with po have r: "ready \<noteq> []" "set ready \<subseteq> {..<?k}" by simp_all
      define xs where "xs = enumerate 0 (de_shards d)"
      define rds where "rds = map snd (filter (\<lambda>(i, _). i \<in> set ready) xs)"
      define rest where "rest = map snd (filter (\<lambda>(i, _). i \<notin> set ready) xs)"
      have all: "mset rds + mset rest = mset (de_shards d)"
        using filter_enumerate_mset [of "\<lambda>(i, _). i \<in> set ready" xs]
        by (simp add: rds_def rest_def xs_def case_prod_unfold)
      have "hd ready < ?k" using r by (cases ready) auto
      then have "(hd ready, de_shards d ! hd ready) \<in> set xs"
        by (force simp: xs_def in_set_enumerate_eq)
      moreover have "hd ready \<in> set ready" using r by simp
      ultimately have "rds \<noteq> []" by (auto simp: rds_def filter_empty_conv)
      then obtain s ys where ys: "rds = ys @ [s]" by (cases rds rule: rev_cases) auto
      then have vec: "vec_pop rds = (Some s, ys)" by (simp add: vec_pop_def)
      have "get_next_readable_shard e d
            = Inr (Some s, d\<lparr>de_shards := rest, readable_shards := ys, polls := Suc (polls d)\<rparr>)"
        using True False Inr r vec
        by (simp add: get_next_readable_shard_def Let_def flip: xs_def rds_def rest_def)
      then show ?thesis
        using all [symmetric] ys True by (simp add: same_files_def pool_def)
    qed
  qed
qed

context image_stream
begin

definition merge ::
  "(string \<Rightarrow> byte list option) \<Rightarrow> string set \<Rightarrow> pstate \<Rightarrow> (nat \<times> item) list \<Rightarrow> nat \<Rightarrow> ('s, 'f) deser \<Rightarrow> bool" where
  "merge S0 X p0 L p d \<longleftrightarrow>
     p \<le> length L \<and> de_seq d = p
     \<and> (\<exists>ps. play p0 (map snd (take p L)) = Some ps \<and> sim S0 X d ps)
     \<and> tracked enc L p (mset (pool d)) (mset (pending_markers d))"

definition settled :: "('s, 'f) deser \<Rightarrow> bool" where
  "settled d \<longleftrightarrow> (\<forall>pm \<in> set (pending_markers d). mseq (pm_marker pm) \<noteq> de_seq d)"

lemma merge_due:
  assumes g: "good_log (usable X) p0 L" and m: "merge S0 X p0 L p d"
    and due: "get_next_in_order_marker d = Some (pm, d1)"
  shows "p < length L \<and> holds_or fail (process_marker ops d1 (pm_marker pm) (pm_shard pm))
           (\<lambda>(d2, sh). merge S0 X p0 L (Suc p)
              (d2\<lparr>de_seq := u64_add (de_seq d2) 1, de_shards := de_shards d2 @ [sh]\<rparr>)
            \<and> length (pool d2) = length (pool d)
            \<and> length (pending_markers d) = Suc (length (pending_markers d2)))"
proof -
  from get_next_in_order_marker_Some [OF due] obtain l r where seq: "mseq (pm_marker pm) = p"
    and lr: "pending_markers d = l @ pm # r" "d1 = d\<lparr>pending_markers := l @ r\<rparr>"
    using m by (auto simp: merge_def)
  have len: "length L < 2 ^ 64" using g by (simp add: good_log_def)
  have t: "tracked enc L p (mset (pool d)) (add_mset pm (mset (l @ r)))"
    using m lr by (simp add: merge_def)
  obtain rest where p: "p < length L" and pm: "pm_marker pm = item_marker p (snd (L ! p))"
    and last: "Suc p = length L \<longrightarrow> l @ r = []"
    and pipe: "dsh_pipe (pm_shard pm) = \<lparr>avail = snd (snd (L ! p)) @ rest, broken = False\<rparr>"
    and t': "\<And>sh. dsh_pipe sh = \<lparr>avail = rest, broken = False\<rparr> \<Longrightarrow>
                 tracked enc L (Suc p) (add_mset sh (mset (pool d))) (mset (l @ r))"
    using tracked_process [OF t len seq] unfolding mset_zero_iff by blast
  from m obtain ps where ps: "play p0 (map snd (take p L)) = Some ps" "sim S0 X d ps"
    by (auto simp: merge_def)
  from good_log_step [OF g p ps(1)] obtain ps' where
    ps': "play_item ps (snd (L ! p)) = Some ps'" "play p0 (map snd (take (Suc p) L)) = Some ps'"
    by blast
  have mem: "L ! p \<in> set L" using p by simp
  have "holds_or fail (process_marker ops d1 (mk_marker (p mod 2 ^ 64) (fst (snd (L ! p)))) (pm_shard pm))
          (\<lambda>(d', sh'). sim S0 X d' ps' \<and> dsh_pipe sh' = (dsh_pipe (pm_shard pm))\<lparr>avail := rest\<rparr>)"
  proof (rule sim_process_marker)
    show "sim S0 X d1 ps" using ps lr by simp
    show "play_item ps (fst (snd (L ! p)), snd (snd (L ! p))) = Some ps'" using ps' by simp
    show "avail (dsh_pipe (pm_shard pm)) = snd (snd (L ! p)) @ rest" using pipe by simp
    show "usable X f" if "fst (snd (L ! p)) = Filename f" for f
      using g mem that by (auto simp: good_log_def)
    show "pending_markers d1 = []" if "fst (snd (L ! p)) = ImageEof True"
      using good_log_not_last [OF g p that] last lr by simp
  qed
  moreover have "merge S0 X p0 L (Suc p)
        (d2\<lparr>de_seq := u64_add (de_seq d2) 1, de_shards := de_shards d2 @ [sh]\<rparr>)
      \<and> length (pool d2) = length (pool d)
      \<and> length (pending_markers d) = Suc (length (pending_markers d2))"
    if run: "process_marker ops d1 (pm_marker pm) (pm_shard pm) = Inr (d2, sh)"
      and d2: "sim S0 X d2 ps'" "dsh_pipe sh = (dsh_pipe (pm_shard pm))\<lparr>avail := rest\<rparr>" for d2 sh
  proof -
    note k = process_marker_keeps [OF run]
    have "mset (de_shards d2) + mset (readable_shards d2) = mset (pool d)"
      using k lr by (simp add: pool_def)
    moreover have "u64_add p 1 = Suc p" using p len by (simp add: u64_add_small)
    moreover have "tracked enc L (Suc p) (add_mset sh (mset (pool d))) (mset (l @ r))"
      using d2 pipe by (intro t') simp
    ultimately show ?thesis
      using k lr p ps' d2 m by (simp add: merge_def pool_def)
  qed
  ultimately show ?thesis
    using p pm by (cases "process_marker ops d1 (pm_marker pm) (pm_shard pm)")
      (auto simp: item_marker_def)
qed

lemma process_pending_merge:
  assumes g: "good_log (usable X) p0 L"
  shows "merge S0 X p0 L p d \<Longrightarrow> holds_or fail (process_pending_markers ops d)
           (\<lambda>d'. \<exists>p'. merge S0 X p0 L p' d' \<and> settled d'
                \<and> p' + length (pool d) = p + length (pool d'))"
proof (induction "length (pending_markers d)" arbitrary: d p rule: less_induct)
  case less
  show ?case
  proof (cases "get_next_in_order_marker d")
    case None
    have len: "length L < 2 ^ 64" using g by (simp add: good_log_def)
    have "settled d" unfolding settled_def
    proof
      fix pm
      assume pm: "pm \<in> set (pending_markers d)"
      then obtain top :: pending_marker where top: "heap_peek pending_cmp (pending_markers d) = Some top"
        by (cases "heap_peek pending_cmp (pending_markers d)") auto
      with None have "mseq (pm_marker top) \<noteq> de_seq d"
        by (auto simp: get_next_in_order_marker_def heap_pop_def heap_peek_def Let_def split: if_splits)
      moreover have "top \<in># mset (pending_markers d)" using heap_peek_mem [OF top] by simp
      then have "de_seq d \<le> mseq (pm_marker top)"
        using tracked_seq_ge [OF _ len, of enc p "mset (pool d)"] less.prems by (auto simp: merge_def)
      moreover have "pending_cmp pm top \<noteq> Greater"
        by (rule pending_order.peek_greatest [OF top pm])
      then have "mseq (pm_marker top) \<le> mseq (pm_marker pm)"
        by (auto simp: pending_cmp_def cmp_lin_def split: if_splits)
      ultimately show "mseq (pm_marker pm) \<noteq> de_seq d" by simp
    qed
    with None less.prems show ?thesis
      by (subst process_pending_markers.simps) auto
  next
    case (Some a)
    then obtain pm d1 where a: "get_next_in_order_marker d = Some (pm, d1)" by (cases a) auto
    note due = merge_due [OF g less.prems a]
    show ?thesis
    proof (cases "process_marker ops d1 (pm_marker pm) (pm_shard pm)")
      case (Inl x)
      with due a show ?thesis by (subst process_pending_markers.simps) simp
    next
      case (Inr z)
      then obtain d2 sh where z: "process_marker ops d1 (pm_marker pm) (pm_shard pm) = Inr (d2, sh)"
        by (cases z) auto
      let ?d3 = "d2\<lparr>de_seq := u64_add (de_seq d2) 1, de_shards := de_shards d2 @ [sh]\<rparr>"
      from due z have m: "merge S0 X p0 L (Suc p) ?d3" "length (pool d2) = length (pool d)"
        "length (pending_markers ?d3) < length (pending_markers d)" by auto
      have "holds_or fail (process_pending_markers ops ?d3)
           (\<lambda>d'. \<exists>p'. merge S0 X p0 L p' d' \<and> settled d' \<and> p' + length (pool d) = p + length (pool d'))"
        by (rule holds_or_mono [OF less.hyps [OF m(3,1)]]) (use m(2) in \<open>auto simp: pool_def\<close>)
      with a z show ?thesis by (subst process_pending_markers.simps) simp
    qed
  qed
qed

text \<open>
  Reading one shard either ends it, or reads the marker of a later item and processes everything
  that is due. Both bring the end nearer: \<open>length L - p\<close> items and \<open>pool\<close> shards are left.
\<close>

lemma drain_shard_merge:
  assumes g: "good_log (usable X) p0 L" and m: "merge S0 X p0 L p d" and st: "settled d"
    and nx: "mset (pool d) = add_mset sh (mset (pool d1))" and sf: "same_files d d1"
    and dec: "pb_dec e = dec"
  shows "holds_or fail (drain_shard e ops d1 sh)
           (\<lambda>d2. \<exists>p'. merge S0 X p0 L p' d2 \<and> settled d2
                \<and> length L - p' + length (pool d2) < length L - p + length (pool d))"
proof -
  have len: "length (pool d) = Suc (length (pool d1))" using arg_cong [OF nx, of size] by simp
  have t: "tracked enc L p (add_mset sh (mset (pool d1))) (mset (pending_markers d))"
    and p: "p \<le> length L"
    using m nx by (simp_all add: merge_def)
  have files: "merge S0 X p0 L p (d1\<lparr>finished_shards := fs, pending_markers := pms\<rparr>)"
    if "tracked enc L p (mset (pool d1)) (mset pms)" for fs pms
    using m sf that sim_cong [of d1 d S0 X] by (auto simp: merge_def same_files_def pool_def)
  from tracked_read [OF t p] show ?thesis
  proof (elim disjE conjE exE)
    assume eof: "dsh_pipe sh = \<lparr>avail = [], broken = False\<rparr>"
      and t': "tracked enc L p (mset (pool d1)) (mset (pending_markers d))"
    have "merge S0 X p0 L p (d1\<lparr>finished_shards := fs, pending_markers := pending_markers d\<rparr>)" for fs
      by (rule files [OF t'])
    moreover have "d1\<lparr>finished_shards := fs, pending_markers := pending_markers d\<rparr>
                   = d1\<lparr>finished_shards := fs\<rparr>" for fs
      using sf by (simp add: same_files_def)
    ultimately have "merge S0 X p0 L p (d1\<lparr>finished_shards := fs\<rparr>)" for fs by simp
    then show ?thesis using eof dec st sf len
      by (auto simp: drain_shard_def pb_read_next_eof settled_def same_files_def pool_def
          intro!: exI [of _ p])
  next
    fix q rest
    assume q: "q < length L" "p \<le> q"
      and pipe: "dsh_pipe sh = \<lparr>avail = item_bytes enc q (snd (L ! q)) @ rest, broken = False\<rparr>"
      and t': "\<forall>sh'. dsh_pipe sh' = \<lparr>avail = snd (snd (L ! q)) @ rest, broken = False\<rparr> \<longrightarrow>
                 tracked enc L p (mset (pool d1)) (add_mset
                   \<lparr>pm_marker = item_marker q (snd (L ! q)), pm_shard = sh'\<rparr> (mset (pending_markers d)))"
    have ok: "body_ok (fst (snd (L ! q)))" using g q by (auto simp: good_log_def)
    obtain ps where ps: "play p0 (map snd (take p L)) = Some ps" "sim S0 X d ps"
      using m by (auto simp: merge_def)
    have ne: "\<not> image_eof d1"
      using good_log_eof [OF g ps(1)] q ps(2) sf by (simp add: sim_def same_files_def)
    let ?n = "4 + length (enc (item_marker q (snd (L ! q))))"
    let ?sh = "sh\<lparr>dsh_pipe := \<lparr>avail = snd (snd (L ! q)) @ rest, broken = False\<rparr>,
                  bytes_read := u64_add (bytes_read sh) ?n\<rparr>"
    let ?pm = "\<lparr>pm_marker = item_marker q (snd (L ! q)), pm_shard = ?sh\<rparr>"
    let ?d2 = "d1\<lparr>pending_markers := heap_push ?pm (pending_markers d1)\<rparr>"
    have run: "drain_shard e ops d1 sh = process_pending_markers ops ?d2"
      using read_item [OF ok, of q rest False] pipe dec ne
      by (simp add: drain_shard_def Let_def)
    have "tracked enc L p (mset (pool d1)) (add_mset ?pm (mset (pending_markers d)))"
      using t' by simp
    then have "merge S0 X p0 L p (d1\<lparr>finished_shards := finished_shards d1,
        pending_markers := pending_markers d @ [?pm]\<rparr>)"
      by (intro files) simp
    then have m2: "merge S0 X p0 L p ?d2"
      using sf by (simp add: heap_push_def same_files_def)
    have "holds_or fail (process_pending_markers ops ?d2)
            (\<lambda>d'. \<exists>p'. merge S0 X p0 L p' d' \<and> settled d' \<and> p' + length (pool ?d2) = p + length (pool d'))"
      by (rule process_pending_merge [OF g m2])
    then show ?thesis unfolding run
    proof (rule holds_or_mono, elim exE conjE, goal_cases)
      case (1 d' p')
      then have "p' \<le> length L" by (simp add: merge_def)
      with 1 len p show ?case by (intro exI [of _ p']) (simp add: pool_def)
    qed
  qed
qed

lemma drain_all_loop_merge:
  assumes g: "good_log (usable X) p0 L" and po: "poll_ok fail e" and dec: "pb_dec e = dec"
  shows "merge S0 X p0 L p d \<Longrightarrow> settled d \<Longrightarrow> length L - p + length (pool d) < fuel \<Longrightarrow>
         holds_or fail (drain_all_loop e ops fuel d)
           (\<lambda>d'. \<exists>pf. play p0 (map snd L) = Some pf \<and> sim S0 X d' pf)"
proof (induction fuel arbitrary: p d)
  case (Suc fuel)
  note nx = get_next_readable_shard_pool [OF po, of d]
  show ?case
  proof (cases "get_next_readable_shard e d")
    case (Inl x)
    with nx show ?thesis by simp
  next
    case (Inr z)
    obtain nxt d1 where z: "z = (nxt, d1)" by (cases z)
    from nx Inr z have sf: "same_files d d1" by simp
    show ?thesis
    proof (cases nxt)
      case None
      with nx Inr z have empty: "pool d = []" by simp
      have len: "length L < 2 ^ 64" using g by (simp add: good_log_def)
      from Suc.prems empty have t: "tracked enc L p {#} (mset (pending_markers d))"
        and p: "p \<le> length L" and due: "\<forall>pm \<in># mset (pending_markers d). mseq (pm_marker pm) \<noteq> p"
        by (auto simp: merge_def settled_def)
      from tracked_done [OF t len p due] have "p = length L" by simp
      with Suc.prems(1) obtain ps where "play p0 (map snd L) = Some ps" "sim S0 X d ps"
        by (auto simp: merge_def)
      moreover from this have "sim S0 X d1 ps"
        using sf sim_cong [of d1 d S0 X ps] by (simp add: same_files_def)
      ultimately show ?thesis using Inr z None by simp
    next
      case (Some sh)
      with nx Inr z have "mset (pool d) = add_mset sh (mset (pool d1))" by simp
      from drain_shard_merge [OF g Suc.prems(1,2) this sf dec]
      have "holds_or fail (rbind (drain_shard e ops d1 sh) (drain_all_loop e ops fuel))
              (\<lambda>d'. \<exists>pf. play p0 (map snd L) = Some pf \<and> sim S0 X d' pf)"
      proof (rule holds_or_bind, elim exE conjE, goal_cases)
        case (1 d2 p')
        then show ?case using Suc.prems(3) by (intro Suc.IH [of p']) auto
      qed
      then show ?thesis using Inr z Some by simp
    qed
  qed
qed simp

text \<open>From the shards as the serializer left them.\<close>

lemma drain_all_play:
  assumes g: "good_log (usable X) p0 L" and po: "poll_ok fail e" and dec: "pb_dec e = dec"
    and s: "sim S0 X d p0" and pend: "pending_markers d = []" and seq: "de_seq d = 0"
    and shards: "mset (pool d)
      = mset (map (\<lambda>j. dshard_new \<lparr>avail = shard_from enc j 0 L, broken = False\<rparr>) [0..<n])"
    and ids: "\<And>x. x \<in> set L \<Longrightarrow> fst x < n" and fuel: "length L + n < fuel"
  shows "holds_or fail (drain_all e ops fuel d)
           (\<lambda>d'. \<exists>pf. play p0 (map snd L) = Some pf \<and> sim S0 X d' pf)"
proof -
  have "tracked enc L 0 (mset (pool d)) {#}"
    unfolding shards by (rule tracked_fresh) (rule ids)
  then have "merge S0 X p0 L 0 d"
    using s pend seq by (simp add: merge_def)
  moreover have "settled d" using pend by (simp add: settled_def)
  ultimately have loop: "holds_or fail (drain_all_loop e ops fuel d)
      (\<lambda>d'. \<exists>pf. play p0 (map snd L) = Some pf \<and> sim S0 X d' pf)"
    using drain_all_loop_merge [OF g po dec, of S0 0 d fuel] fuel
      arg_cong [OF shards, of size] by simp
  have "last L \<in> set L" "fst (snd (last L)) = ImageEof True" using g by (auto simp: good_log_def)
  then have "p_eof pf" if "play p0 (map snd L) = Some pf" for pf
    using play_eof [OF that] by force
  then have eof: "image_eof d'" if "play p0 (map snd L) = Some pf" "sim S0 X d' pf" for d' pf
    using that by (simp add: sim_def)
  show ?thesis
  proof (cases "drain_all_loop e ops fuel d")
    case (Inl x)
    with loop show ?thesis by (simp add: drain_all_def)
  next
    case (Inr d')
    with loop eof [of _ d'] show ?thesis by (auto simp: drain_all_def)
  qed
qed

end

end
