(* ===== verification/Mem_Store.thy ===== *)
theory Mem_Store
  imports Image_Store Unix_Pipe
begin

text \<open>
  \<open>src/mmap_buf.rs\<close> and the in-memory store of \<open>src/image_store/mem.rs\<close>. A file is a plain
  buffer while it fits in a page and a queue of 10 MB mmap chunks afterwards. Running out of
  memory (\<open>mmap() failed\<close>) is not modelled.
\<close>

section \<open>MmapBuf\<close>

record mmap_buf =
  mm_mem :: "byte list"   \<comment> \<open>the mapped region; its length is the capacity\<close>
  mm_len :: nat

definition mm_capacity :: "mmap_buf \<Rightarrow> nat" where
  "mm_capacity b = length (mm_mem b)"

definition mm_deref :: "mmap_buf \<Rightarrow> byte list" where
  "mm_deref b = take (mm_len b) (mm_mem b)"

text \<open>Anonymous mappings are zero-filled; an empty one is refused.\<close>

definition mm_with_capacity :: "nat \<Rightarrow> mmap_buf res" where
  "mm_with_capacity c =
     (if c = 0 then Inl (Panic Unwrap_None) else Inr \<lparr>mm_mem = replicate c 0, mm_len = 0\<rparr>)"

definition mm_resize :: "mmap_buf \<Rightarrow> nat \<Rightarrow> mmap_buf res" where
  "mm_resize b n = rbind (rassert (n \<le> mm_capacity b)) (\<lambda>_. Inr (b\<lparr>mm_len := n\<rparr>))"

text \<open>
  Writing through \<open>&mut buf[off..]\<close>; the callers fill the slice to its end, and
  \<open>copy_from_slice\<close> panics where the lengths differ.
\<close>

definition mm_fill :: "mmap_buf \<Rightarrow> nat \<Rightarrow> byte list \<Rightarrow> mmap_buf res" where
  "mm_fill b off bs =
     rbind (rassert (off + length bs = mm_len b \<and> mm_len b \<le> mm_capacity b)) (\<lambda>_.
       Inr (b\<lparr>mm_mem := take off (mm_mem b) @ bs @ drop (off + length bs) (mm_mem b)\<rparr>))"

definition mm_wf :: "mmap_buf \<Rightarrow> bool" where
  "mm_wf b \<longleftrightarrow> mm_len b \<le> mm_capacity b"

lemma mm_with_capacity_Inr:
  "mm_with_capacity c = Inr b \<longleftrightarrow> 0 < c \<and> b = \<lparr>mm_mem = replicate c 0, mm_len = 0\<rparr>"
  by (auto simp: mm_with_capacity_def)

lemma mm_resize_Inr: "mm_resize b n = Inr b' \<longleftrightarrow> n \<le> mm_capacity b \<and> b' = b\<lparr>mm_len := n\<rparr>"
  by (auto simp: mm_resize_def)

lemma mm_resize_keeps:
  "mm_resize b n = Inr b' \<Longrightarrow> mm_mem b' = mm_mem b \<and> mm_capacity b' = mm_capacity b \<and> mm_len b' = n
   \<and> n \<le> mm_capacity b"
  by (auto simp: mm_resize_Inr mm_capacity_def)

lemma mm_fill_Inr:
  "mm_fill b off bs = Inr b' \<Longrightarrow> off + length bs = mm_len b \<and> mm_wf b'
   \<and> mm_capacity b' = mm_capacity b \<and> mm_len b' = mm_len b
   \<and> mm_deref b' = take off (mm_mem b) @ bs"
  by (auto simp: mm_fill_def mm_wf_def mm_capacity_def mm_deref_def)

lemma mm_fill_total:
  "off + length bs = mm_len b \<Longrightarrow> mm_wf b \<Longrightarrow> \<exists>b'. mm_fill b off bs = Inr b'"
  by (simp add: mm_fill_def mm_wf_def)

section \<open>Files in memory\<close>

definition MAX_LARGE_CHUNK_SIZE :: nat where
  "MAX_LARGE_CHUNK_SIZE = 10 * MB"

datatype memfile = Small "byte list" | Large "mmap_buf list"

definition large_from_slice :: "byte list \<Rightarrow> memfile res" where
  "large_from_slice d =
     rbind (rassert (length d \<le> MAX_LARGE_CHUNK_SIZE)) (\<lambda>_.
     rbind (mm_with_capacity MAX_LARGE_CHUNK_SIZE) (\<lambda>b0.
     rbind (mm_resize b0 (length d)) (\<lambda>b1.
     rbind (mm_fill b1 0 d) (\<lambda>b2. Inr (Large [b2])))))"

definition reserve_chunk :: "nat \<Rightarrow> memfile \<Rightarrow> nat \<Rightarrow> memfile res" where
  "reserve_chunk page f size_hint =
     (case f of
        Small chunk \<Rightarrow>
          if length chunk + size_hint > page then large_from_slice chunk else Inr (Small chunk)
      | Large chunks \<Rightarrow>
          if chunks \<noteq> [] \<and> mm_len (last chunks) < mm_capacity (last chunks) then Inr (Large chunks)
          else rbind (mm_with_capacity MAX_LARGE_CHUNK_SIZE) (\<lambda>b. Inr (Large (chunks @ [b]))))"

text \<open>Returns the file, the reader and the number of bytes the caller is told were copied.\<close>

definition copy_from_reader :: "nat \<Rightarrow> memfile \<Rightarrow> reader \<Rightarrow> nat \<Rightarrow> (memfile \<times> reader \<times> nat) res" where
  "copy_from_reader page f rd sz =
     rbind (reserve_chunk page f sz) (\<lambda>f1.
     case f1 of
       Small chunk \<Rightarrow>
         rbind (take_read_to_end rd sz) (\<lambda>(bs, rd'). Inr (Small (chunk @ bs), rd', sz))
     | Large chunks \<Rightarrow>
         if chunks = [] then Inl (Panic Unwrap_None)
         else
           let chunk = last chunks;
               current_offset = mm_len chunk;
               to_read = min sz (mm_capacity chunk - current_offset) in
           rbind (mm_resize chunk (current_offset + to_read)) (\<lambda>c1.
           rbind (read_exact rd to_read) (\<lambda>(bs, rd').
           rbind (mm_fill c1 current_offset bs) (\<lambda>c2.
             Inr (Large (butlast chunks @ [c2]), rd', to_read)))))"

text \<open>The loop of \<open>write_all_from_pipe\<close>; every round copies at least one byte.\<close>

fun mem_write_loop :: "nat \<Rightarrow> nat \<Rightarrow> memfile \<Rightarrow> reader \<Rightarrow> nat \<Rightarrow> (memfile \<times> reader) res" where
  "mem_write_loop page fuel f rd sz =
     (if sz > 0 then
        (case fuel of
           0 \<Rightarrow> Inl Diverge
         | Suc fuel' \<Rightarrow>
             rbind (copy_from_reader page f rd sz) (\<lambda>(f', rd', n).
               mem_write_loop page fuel' f' rd' (sz - n)))
      else Inr (f, rd))"

declare mem_write_loop.simps [simp del]

definition mem_write_all_from_pipe :: "nat \<Rightarrow> memfile \<Rightarrow> reader \<Rightarrow> nat \<Rightarrow> (memfile \<times> reader) res" where
  "mem_write_all_from_pipe page f rd sz = mem_write_loop page sz f rd sz"

text \<open>\<open>File::drain\<close>: a small file is written, a large one vmspliced chunk by chunk.\<close>

fun vmsplice_chunks :: "(nat \<Rightarrow> nat \<Rightarrow> nat) \<Rightarrow> nat \<Rightarrow> mmap_buf list \<Rightarrow> sink \<Rightarrow> sink res" where
  "vmsplice_chunks ask i [] dst = Inr dst"
| "vmsplice_chunks ask i (c # cs) dst =
     rbind (vmsplice_all (ask i) dst (mm_deref c)) (\<lambda>dst'. vmsplice_chunks ask (Suc i) cs dst')"

definition mem_drain :: "(nat \<Rightarrow> nat \<Rightarrow> nat) \<Rightarrow> memfile \<Rightarrow> sink \<Rightarrow> sink res" where
  "mem_drain ask f dst =
     (case f of Small chunk \<Rightarrow> write_all dst chunk | Large chunks \<Rightarrow> vmsplice_chunks ask 0 chunks dst)"

text \<open>\<open>FileReader\<close>: \<open>read\<close> serves from the first chunk and drops it when it is used up.\<close>

definition mem_reader :: "memfile \<Rightarrow> byte list list" where
  "mem_reader f = (case f of Small chunk \<Rightarrow> [chunk] | Large chunks \<Rightarrow> map mm_deref chunks)"

fun reader_read :: "byte list list \<Rightarrow> nat \<Rightarrow> byte list \<times> byte list list" where
  "reader_read [] n = ([], [])"
| "reader_read (c # cs) n =
     (let rest = drop n c in (take n c, if rest = [] then cs else rest # cs))"

section \<open>The store\<close>

type_synonym mem_store = "(string \<times> memfile) list"

definition new_small :: memfile where
  "new_small = Small []"

definition mem_create :: "mem_store \<Rightarrow> string \<Rightarrow> (mem_store \<times> memfile) res" where
  "mem_create st n = Inr (st, new_small)"

definition mem_insert :: "mem_store \<Rightarrow> string \<Rightarrow> memfile \<Rightarrow> mem_store res" where
  "mem_insert st n f =
     rbind (rassert (map_of st n = None)) (\<lambda>_. Inr (AList.update n f st))"

definition mem_remove :: "mem_store \<Rightarrow> string \<Rightarrow> memfile option \<times> mem_store" where
  "mem_remove st n = (map_of st n, AList.delete n st)"

definition mem_ops :: "nat \<Rightarrow> (mem_store, memfile) store_ops" where
  "mem_ops page =
     \<lparr>so_create = mem_create, so_insert = mem_insert,
      so_write = (\<lambda>st f rd sz.
        rbind (mem_write_all_from_pipe page f rd sz) (\<lambda>(f', rd'). Inr (st, f', rd')))\<rparr>"

section \<open>What the operations do to a file's bytes\<close>

fun file_bytes :: "memfile \<Rightarrow> byte list" where
  "file_bytes (Small c) = c"
| "file_bytes (Large cs) = concat (map mm_deref cs)"

fun memfile_wf :: "nat \<Rightarrow> memfile \<Rightarrow> bool" where
  "memfile_wf page (Small c) \<longleftrightarrow> length c \<le> page"
| "memfile_wf page (Large cs) \<longleftrightarrow>
     cs \<noteq> [] \<and> (\<forall>c \<in> set cs. mm_wf c \<and> mm_capacity c = MAX_LARGE_CHUNK_SIZE)"

lemma MAX_LARGE_pos [simp]: "0 < MAX_LARGE_CHUNK_SIZE"
  by (simp add: MAX_LARGE_CHUNK_SIZE_def MB_def)

lemma mm_deref_empty: "mm_with_capacity c = Inr b \<Longrightarrow> mm_deref b = [] \<and> mm_wf b \<and> mm_capacity b = c"
  by (auto simp: mm_with_capacity_Inr mm_deref_def mm_wf_def mm_capacity_def)

lemma large_from_slice_Inr:
  assumes "large_from_slice d = Inr f"
  shows "file_bytes f = d \<and> memfile_wf page f \<and> (\<exists>c. f = Large [c])"
proof -
  from assms obtain b0 b1 b2 where
    b: "mm_with_capacity MAX_LARGE_CHUNK_SIZE = Inr b0" "mm_resize b0 (length d) = Inr b1"
       "mm_fill b1 0 d = Inr b2" and f: "f = Large [b2]"
    by (auto simp: large_from_slice_def)
  from mm_fill_Inr [OF b(3)] mm_deref_empty [OF b(1)] mm_resize_keeps [OF b(2)] f show ?thesis
    by simp
qed

lemma large_from_slice_total: "length d \<le> MAX_LARGE_CHUNK_SIZE \<Longrightarrow> \<exists>f. large_from_slice d = Inr f"
  by (simp add: large_from_slice_def mm_with_capacity_def mm_resize_def mm_fill_def mm_capacity_def)

lemma reserve_chunk_Inr:
  assumes "reserve_chunk page f n = Inr f1" and "memfile_wf page f"
  shows "file_bytes f1 = file_bytes f \<and> memfile_wf page f1
         \<and> (case f1 of Small c \<Rightarrow> length c + n \<le> page
            | Large cs \<Rightarrow> cs \<noteq> [] \<and> (page < MAX_LARGE_CHUNK_SIZE \<longrightarrow> mm_len (last cs) < mm_capacity (last cs)))"
proof (cases f)
  case (Small c)
  show ?thesis
  proof (cases "length c + n > page")
    case True
    with assms Small have l: "large_from_slice c = Inr f1" by (simp add: reserve_chunk_def)
    from large_from_slice_Inr [OF l, of page] obtain b where b: "f1 = Large [b]"
      "mm_deref b = c" "mm_wf b" "mm_capacity b = MAX_LARGE_CHUNK_SIZE" by auto
    from b have "length c = mm_len b" by (auto simp: mm_deref_def mm_wf_def mm_capacity_def)
    with b assms(2) Small show ?thesis by auto
  next
    case False
    with assms Small show ?thesis by (auto simp: reserve_chunk_def)
  qed
next
  case (Large cs)
  show ?thesis
  proof (cases "cs \<noteq> [] \<and> mm_len (last cs) < mm_capacity (last cs)")
    case True
    with assms Large show ?thesis by (auto simp: reserve_chunk_def)
  next
    case False
    with assms Large obtain b where b: "mm_with_capacity MAX_LARGE_CHUNK_SIZE = Inr b"
      "f1 = Large (cs @ [b])" by (auto simp: reserve_chunk_def)
    with mm_deref_empty [OF b(1)] assms(2) Large show ?thesis
      by (auto simp: mm_with_capacity_Inr mm_capacity_def)
  qed
qed

lemma reserve_chunk_total:
  "memfile_wf page f \<Longrightarrow> page \<le> MAX_LARGE_CHUNK_SIZE \<Longrightarrow> \<exists>f1. reserve_chunk page f n = Inr f1"
  by (cases f) (auto simp: reserve_chunk_def mm_with_capacity_def intro: large_from_slice_total)

text \<open>
  One round: with enough bytes on the stream it appends what it says it copied, and it copies
  something.
\<close>

lemma copy_from_reader_Inr:
  assumes run: "copy_from_reader page f rd sz = Inr (f', rd', n)"
    and wf: "memfile_wf page f" and len: "sz \<le> length (avail rd)"
  shows "n \<le> sz \<and> file_bytes f' = file_bytes f @ take n (avail rd) \<and> memfile_wf page f'
         \<and> rd' = rd\<lparr>avail := drop n (avail rd)\<rparr>
         \<and> (0 < sz \<longrightarrow> page < MAX_LARGE_CHUNK_SIZE \<longrightarrow> 0 < n)"
proof -
  from run obtain f1 where r: "reserve_chunk page f sz = Inr f1" by (auto simp: copy_from_reader_def)
  note f1 = reserve_chunk_Inr [OF r wf]
  show ?thesis
  proof (cases f1)
    case (Small c)
    with run r f1 len show ?thesis
      by (auto simp: copy_from_reader_def take_read_to_end_def)
  next
    case (Large cs)
    define b where "b = last cs"
    define k where "k = min sz (mm_capacity b - mm_len b)"
    have cs: "cs = butlast cs @ [b]" "mm_wf b" "mm_capacity b = MAX_LARGE_CHUNK_SIZE"
      using Large f1 by (auto simp: b_def)
    have ne: "cs \<noteq> []" using Large f1 by simp
    from run r Large ne obtain b1 bs b2 where
      b1: "mm_resize b (mm_len b + k) = Inr b1" and bs: "read_exact rd k = Inr (bs, rd')"
      and b2: "mm_fill b1 (mm_len b) bs = Inr b2"
      and out: "f' = Large (butlast cs @ [b2])" "n = k"
      by (auto simp: copy_from_reader_def Let_def b_def k_def)
    from bs have bs': "bs = take k (avail rd)" "rd' = rd\<lparr>avail := drop k (avail rd)\<rparr>"
      by (auto simp: read_exact_def split: if_splits)
    have d: "mm_deref b2 = mm_deref b @ bs" "mm_wf b2" "mm_capacity b2 = MAX_LARGE_CHUNK_SIZE"
      using mm_fill_Inr [OF b2] mm_resize_keeps [OF b1] cs(3) by (auto simp: mm_deref_def)
    have "file_bytes f1 = concat (map mm_deref (butlast cs)) @ mm_deref b"
      unfolding Large by (subst cs(1)) simp
    with d out f1 bs' have "file_bytes f' = file_bytes f @ take n (avail rd)" by simp
    moreover have "memfile_wf page f'"
      using d out Large f1 by (auto dest: in_set_butlastD)
    moreover have "0 < sz \<longrightarrow> page < MAX_LARGE_CHUNK_SIZE \<longrightarrow> 0 < n"
      using f1 Large out by (auto simp: k_def b_def)
    ultimately show ?thesis using out bs' by (simp add: k_def)
  qed
qed

lemma copy_from_reader_total:
  assumes "memfile_wf page f" and "sz \<le> length (avail rd)" and "page \<le> MAX_LARGE_CHUNK_SIZE"
  shows "\<exists>f' rd' n. copy_from_reader page f rd sz = Inr (f', rd', n)"
proof -
  from reserve_chunk_total [OF assms(1,3)] obtain f1 where r: "reserve_chunk page f sz = Inr f1" by blast
  note f1 = reserve_chunk_Inr [OF r assms(1)]
  show ?thesis
  proof (cases f1)
    case (Small c)
    with r assms show ?thesis by (simp add: copy_from_reader_def take_read_to_end_def)
  next
    case (Large cs)
    define k where "k = min sz (length (mm_mem (last cs)) - mm_len (last cs))"
    from Large f1 have "cs \<noteq> []" "mm_wf (last cs)" by auto
    moreover from this have "mm_len (last cs) + k \<le> length (mm_mem (last cs))" "k \<le> length (avail rd)"
      using assms(2) by (auto simp: k_def mm_wf_def mm_capacity_def)
    ultimately show ?thesis using r Large
      by (simp add: copy_from_reader_def Let_def mm_resize_def read_exact_def mm_fill_def
          mm_capacity_def flip: k_def)
  qed
qed

lemma mem_write_loop_total:
  "memfile_wf page f \<Longrightarrow> sz \<le> length (avail rd) \<Longrightarrow> page < MAX_LARGE_CHUNK_SIZE \<Longrightarrow> sz \<le> fuel \<Longrightarrow>
   \<exists>f'. mem_write_loop page fuel f rd sz = Inr (f', rd\<lparr>avail := drop sz (avail rd)\<rparr>)
        \<and> file_bytes f' = file_bytes f @ take sz (avail rd) \<and> memfile_wf page f'"
proof (induction fuel arbitrary: f rd sz)
  case 0
  then show ?case by (subst mem_write_loop.simps) simp
next
  case (Suc fuel)
  show ?case
  proof (cases "sz > 0")
    case False
    with Suc.prems show ?thesis by (subst mem_write_loop.simps) simp
  next
    case True
    from copy_from_reader_total [OF Suc.prems(1,2)] Suc.prems(3) obtain f1 rd1 n where
      c: "copy_from_reader page f rd sz = Inr (f1, rd1, n)" by auto
    note s = copy_from_reader_Inr [OF c Suc.prems(1,2)]
    have "\<exists>f'. mem_write_loop page fuel f1 rd1 (sz - n) = Inr (f', rd1\<lparr>avail := drop (sz - n) (avail rd1)\<rparr>)
          \<and> file_bytes f' = file_bytes f1 @ take (sz - n) (avail rd1) \<and> memfile_wf page f'"
      using s True Suc.prems by (intro Suc.IH) auto
    moreover have "take sz (avail rd) = take n (avail rd) @ take (sz - n) (drop n (avail rd))"
      using s by (metis le_add_diff_inverse take_add)
    ultimately show ?thesis
      using True c s by (subst mem_write_loop.simps) auto
  qed
qed

text \<open>The whole write: all bytes, in order, and nothing but the store's own invariant needed.\<close>

lemma mem_write_all_total:
  assumes "memfile_wf page f" and "sz \<le> length (avail rd)" and "page < MAX_LARGE_CHUNK_SIZE"
  shows "\<exists>f'. mem_write_all_from_pipe page f rd sz = Inr (f', rd\<lparr>avail := drop sz (avail rd)\<rparr>)
              \<and> file_bytes f' = file_bytes f @ take sz (avail rd) \<and> memfile_wf page f'"
  unfolding mem_write_all_from_pipe_def using mem_write_loop_total [OF assms] by simp

lemma vmsplice_chunks_total:
  "(\<And>i j. 0 < ask i j) \<Longrightarrow> room dst = None \<Longrightarrow>
   vmsplice_chunks ask i cs dst = Inr (dst\<lparr>written := written dst @ concat (map mm_deref cs)\<rparr>)"
  by (induction cs arbitrary: i dst) (simp_all add: vmsplice_all_total)

lemma mem_drain_total:
  assumes "\<And>i j. 0 < ask i j" and "room dst = None"
  shows "mem_drain ask f dst = Inr (dst\<lparr>written := written dst @ file_bytes f\<rparr>)"
  using assms by (cases f) (simp_all add: mem_drain_def write_all_unlimited vmsplice_chunks_total)

lemma mem_reader_bytes: "concat (mem_reader f) = file_bytes f"
  by (cases f) (simp_all add: mem_reader_def)

lemma reader_read_bytes: "reader_read cs n = (bs, cs') \<Longrightarrow> bs @ concat cs' = concat cs"
proof (cases cs)
  case (Cons c ds)
  have "take n c @ drop n c = c" by simp
  moreover assume "reader_read cs n = (bs, cs')"
  ultimately show ?thesis using Cons by (auto simp: Let_def split: if_splits)
qed auto

section \<open>The store meets its contract\<close>

abbreviation mem_inv :: "nat \<Rightarrow> mem_store \<Rightarrow> bool" where
  "mem_inv page st \<equiv> page < MAX_LARGE_CHUNK_SIZE"

abbreviation mem_unused :: "mem_store \<Rightarrow> string \<Rightarrow> bool" where
  "mem_unused st n \<equiv> map_of st n = None"

definition mem_stored :: "mem_store \<Rightarrow> string \<Rightarrow> byte list option" where
  "mem_stored st n = map_option file_bytes (map_of st n)"

definition mem_belongs :: "nat \<Rightarrow> mem_store \<Rightarrow> memfile \<Rightarrow> string \<Rightarrow> bool" where
  "mem_belongs page st f n \<longleftrightarrow> memfile_wf page f \<and> map_of st n = None"

interpretation mem: total_image_store "mem_ops page" "mem_inv page" mem_unused
  "mem_belongs page" "\<lambda>st f. file_bytes f" mem_stored "\<lambda>_ _. False" "\<lambda>_. False"
  for page
proof (unfold_locales, goal_cases)
  case (1 st n)
  then show ?case by (simp add: mem_ops_def mem_create_def new_small_def mem_belongs_def leaves_others_def)
next
  case (2 st f n k r)
  then show ?case using mem_write_all_total [of page f k r]
    by (auto simp: mem_ops_def mem_belongs_def leaves_others_def)
next
  case (3 st f n)
  then show ?case
    by (auto simp: mem_ops_def mem_insert_def mem_belongs_def mem_stored_def update_conv'
        leaves_others_def)
qed simp

section \<open>Properties\<close>

text \<open>C38: the in-memory file. Writing data to a file in memory, in one page or in large chunks, and
  draining the file to a pipe sends what the file held before followed by the data.\<close>

theorem mem_write_then_drain:
  assumes "memfile_wf page f" and "n \<le> length (avail rd)" and "page < MAX_LARGE_CHUNK_SIZE"
    and "\<And>i j. 0 < ask i j" and "room dst = None"
  shows "\<exists>f'. mem_write_all_from_pipe page f rd n = Inr (f', rd\<lparr>avail := drop n (avail rd)\<rparr>)
            \<and> mem_drain ask f' dst = Inr (dst\<lparr>written := written dst @ file_bytes f @ take n (avail rd)\<rparr>)"
  using mem_write_all_total [OF assms(1-3)] mem_drain_total [of ask dst, OF assms(4,5)] by auto

theorem mem_write_then_drain_witness:
  "\<exists>f'. mem_write_all_from_pipe 4 (Small [1, 2]) \<lparr>avail = [3, 4, 5], broken = False\<rparr> 3
          = Inr (f', \<lparr>avail = [], broken = False\<rparr>)
      \<and> mem_drain (\<lambda>_ _. 2) f' \<lparr>written = [], room = None\<rparr> = Inr \<lparr>written = [1, 2, 3, 4, 5], room = None\<rparr>"
  using mem_write_then_drain [of 4 "Small [1, 2]" 3 "\<lparr>avail = [3, 4, 5], broken = False\<rparr>" "\<lambda>_ _. 2"
      "\<lparr>written = [], room = None\<rparr>"]
  by (simp add: MAX_LARGE_CHUNK_SIZE_def MB_def)

text \<open>Reading a file in memory piece by piece, with buffers of any size, yields its bytes in order,
  none twice and none left out.\<close>

theorem mem_reader_in_order:
  assumes "reader_read cs n = (bs, cs')" and "concat (mem_reader f) = done @ concat cs"
  shows "file_bytes f = (done @ bs) @ concat cs'"
  using reader_read_bytes [OF assms(1)] assms(2) by (simp add: mem_reader_bytes)

theorem mem_reader_in_order_witness: "file_bytes (Small [1, 2, 3]) = [1, 2] @ concat [[3]]"
  using mem_reader_in_order [of "[[1, 2, 3]]" 2 "[1, 2]" "[[3]]" "Small [1, 2, 3]" "[]"]
  by (simp add: mem_reader_def)

text \<open>A payload that ends early is not noticed while the file fits in a page: the write succeeds with
  the bytes that were there.\<close>

theorem mem_short_payload_accepted:
  assumes "length chunk + n \<le> page" and "length bs < n"
  shows "mem_write_all_from_pipe page (Small chunk) \<lparr>avail = bs, broken = False\<rparr> n
         = Inr (Small (chunk @ bs), \<lparr>avail = [], broken = False\<rparr>)"
proof -
  obtain k where k: "n = Suc k" using assms(2) by (cases n) auto
  have "mem_write_loop page k f rd 0 = Inr (f, rd)" for f rd by (subst mem_write_loop.simps) simp
  with assms k show ?thesis
    by (simp add: mem_write_all_from_pipe_def mem_write_loop.simps [of page "Suc k"] copy_from_reader_def
        reserve_chunk_def take_read_to_end_def)
qed

theorem mem_short_payload_accepted_witness:
  "mem_write_all_from_pipe 4096 (Small []) \<lparr>avail = [1, 2], broken = False\<rparr> 100
   = Inr (Small [1, 2], \<lparr>avail = [], broken = False\<rparr>)"
  using mem_short_payload_accepted [of "[]" 100 4096 "[1, 2]"] by simp

end
