(* ===== verification/Roundtrip.thy ===== *)
theory Roundtrip
  imports Drain_Order Mem_Store
begin

text \<open>
  Capture and extraction together. Whatever the kernel answers to \<open>FIONREAD\<close>, \<open>splice()\<close> and
  \<open>poll()\<close>, and in whatever order the other shards are handed over, extracting what a capture
  wrote gives back the names and the bytes of its files. The store is any that meets the
  contract \<open>image_store\<close>, the protobuf library any that meets \<open>msg_codec\<close>.
\<close>

section \<open>The items of a run\<close>

text \<open>The names an image can have: they fit a marker, and none is the metadata file's.\<close>

definition names_ok :: "drain_event list \<Rightarrow> bool" where
  "names_ok es \<longleftrightarrow> (\<forall>e \<in> set es. length (fst e) \<le> 10000 \<and> fst e \<noteq> METADATA_FILE)"

lemma event_items_plain:
  "length (snd e) < 2 ^ 31 \<Longrightarrow> length (fst e) \<le> 10000 \<Longrightarrow> x \<in> set (event_items n cur e) \<Longrightarrow>
   body_ok (fst x) \<and> (\<forall>v. fst x \<noteq> ImageEof v) \<and> (\<forall>f. fst x = Filename f \<longrightarrow> f = fst e)"
  using chop_bounds [of _ n "snd e"]
  by (auto simp: event_items_def data_item_def split: if_splits) force+

lemma run_items_plain:
  "(\<forall>e \<in> set es. length (snd e) < 2 ^ 31) \<Longrightarrow> names_ok es \<Longrightarrow>
   x \<in> set (run_items small n want cur es) \<Longrightarrow>
   plain_item (\<lambda>f. f \<in> fst ` set es \<and> f \<noteq> METADATA_FILE \<and> small f = want) x"
proof (induction es arbitrary: cur)
  case (Cons e es)
  show ?case
  proof (cases "small (fst e) = want \<and> x \<in> set (event_items n cur e)")
    case True
    have "length (snd e) < 2 ^ 31" "length (fst e) \<le> 10000" using Cons.prems by (auto simp: names_ok_def)
    from event_items_plain [OF this conjunct2 [OF True]] Cons.prems(2) True show ?thesis
      by (auto simp: plain_item_def names_ok_def)
  next
    case False
    with Cons.prems(3) have "x \<in> set (run_items small n want (Some (fst e)) es)"
      by (auto split: if_splits)
    with Cons.prems have "plain_item (\<lambda>f. f \<in> fst ` set es \<and> f \<noteq> METADATA_FILE \<and> small f = want) x"
      by (intro Cons.IH [of "Some (fst e)"]) (auto simp: names_ok_def)
    then show ?thesis by (rule plain_item_mono) auto
  qed
qed simp

section \<open>The image plays\<close>

definition all_done :: "drain_event list \<Rightarrow> pstate \<Rightarrow> bool" where
  "all_done es p \<longleftrightarrow> (\<forall>f. p_done p f = (if f \<in> fst ` set es then Some (file_content f es) else None))"

lemma image_plays:
  assumes n: "0 < chunk_bytes k cap" and wf: "wf_run es"
  shows "\<exists>p1 p2. play play_init (run_items (small_name k) (chunk_bytes k cap) True None es) = Some p1
           \<and> p_open p1 = Map.empty \<and> p_eof p1 = False
           \<and> play p1 (large_items k cap es) = Some p2 \<and> all_done es p2 \<and> p_open p2 = Map.empty"
proof -
  let ?run = "\<lambda>want. run_items (small_name k) (chunk_bytes k cap) want None es"
  have i: "p_open play_init = Map.empty" "p_done play_init f = None" for f
    by (simp_all add: play_init_def)
  obtain p1 where p1: "play play_init (?run True) = Some p1
      \<and> p_open p1 = Map.empty \<and> p_eof p1 = p_eof play_init
      \<and> (\<forall>f. p_done p1 f = (if small_name k f = True \<and> f \<in> fst ` set es
                            then Some (file_content f es) else p_done play_init f))"
    by (rule exE [OF play_run_from [OF n wf i]])
  then have d1: "small_name k f = False \<Longrightarrow> p_done p1 f = None" for f by (simp add: i)
  obtain p2 where p2: "play p1 (?run False) = Some p2
      \<and> p_open p2 = Map.empty \<and> p_eof p2 = p_eof p1
      \<and> (\<forall>f. p_done p2 f = (if small_name k f = False \<and> f \<in> fst ` set es
                            then Some (file_content f es) else p_done p1 f))"
    using p1 by (elim conjE) (rule exE [OF play_run_from [OF n wf _ d1]])
  have "play p1 (large_items k cap es) = Some (p2\<lparr>p_eof := True\<rparr>)"
    using p2 by (simp add: large_items_def play_append)
  moreover have "all_done es (p2\<lparr>p_eof := True\<rparr>)"
    unfolding all_done_def
  proof
    fix f
    show "p_done (p2\<lparr>p_eof := True\<rparr>) f = (if f \<in> fst ` set es then Some (file_content f es) else None)"
      using p1 p2 i by (cases "small_name k f") auto
  qed
  ultimately show ?thesis
    using p1 p2 by (intro exI [of _ p1] exI [of _ "p2\<lparr>p_eof := True\<rparr>"]) (simp add: play_init_def)
qed

section \<open>Round trip\<close>

definition pipe_of :: "shard \<Rightarrow> reader" where
  "pipe_of sh = \<lparr>avail = written (sh_pipe sh), broken = False\<rparr>"

text \<open>Both sides of the image: the limits of the integer types, and enough fuel.\<close>

definition image_fits :: "cenv \<Rightarrow> int \<Rightarrow> drain_event list \<Rightarrow> nat \<Rightarrow> nat \<Rightarrow> bool" where
  "image_fits k cap es n fuel \<longleftrightarrow>
     length (large_items k cap es) < 2 ^ 64
     \<and> length (small_items k cap es) + length (large_items k cap es) + n < fuel"

context image_stream
begin

definition extracted ::
  "(string \<Rightarrow> byte list option) \<Rightarrow> drain_event list \<Rightarrow> ('s, 'f) deser \<Rightarrow> bool" where
  "extracted S0 es d \<longleftrightarrow>
     image_eof d \<and> inv (img_store d)
     \<and> (\<forall>f. f \<noteq> METADATA_FILE \<longrightarrow>
          stored (img_store d) f = (if f \<in> fst ` set es then Some (file_content f es) else S0 f))"

text \<open>
  Every name of the image can be created in the store, and creating one is never too late for
  another: at most a large file may block small ones, which come first.
\<close>

definition store_ready :: "cenv \<Rightarrow> drain_event list \<Rightarrow> 's \<Rightarrow> bool" where
  "store_ready k es st \<longleftrightarrow>
     inv st \<and> (\<forall>f \<in> insert METADATA_FILE (fst ` set es). unused st f)
     \<and> (\<forall>n m. blocks n m \<longrightarrow> \<not> small_name k n \<and> small_name k m)
     \<and> (\<forall>m. \<not> blocks METADATA_FILE m)"

lemma extract_capture:
  assumes cap: "capture_events k shs cap es = Inr s" and fresh: "fresh_shards shs"
    and fits: "run_fits k es" "image_fits k cap es (length shs) fuel"
    and wf: "wf_run es" "names_ok es"
    and libs: "pb_enc k = enc" "pb_dec e = dec" "poll_ok fail e"
      "of_json e (to_json k (finished_names es)) = Some (finished_names es)"
    and st: "store_ready k es st"
    and pipes: "mset pipes = mset (map pipe_of (shards s))"
  shows "holds_or fail (extract_image e ops fuel st (pipe_of (small_shard s) # pipes))
           (\<lambda>(names, d). names = finished_names es \<and> extracted (stored st) es d)"
proof -
  obtain c where c: "logged k s c \<and> items c True = small_items k cap es
      \<and> items c False = large_items k cap es \<and> length (shards s) = length shs - 1 \<and> 2 \<le> length shs"
    by (rule exE [OF capture_logged [OF cap fresh fits(1)]])
  let ?small = "run_items (small_name k) (chunk_bytes k cap) True None es"
  let ?large = "run_items (small_name k) (chunk_bytes k cap) False None es"
  let ?L = "snd c"
  have n: "0 < chunk_bytes k cap" using fits(1) by (simp add: run_fits_def chunk_bytes_pos)
  obtain p1 p2 where p: "play play_init ?small = Some p1" "p_open p1 = Map.empty" "p_eof p1 = False"
    "play p1 (large_items k cap es) = Some p2" "all_done es p2" "p_open p2 = Map.empty"
    using image_plays [OF n wf(1)] by (elim exE conjE) (rule that)
  have data: "\<forall>e \<in> set es. length (snd e) < 2 ^ 31" using fits(1) by (simp add: run_fits_def)
  note plain = run_items_plain [OF data wf(2)]
  define X where "X = - insert METADATA_FILE (fst ` set es)"
  define X2 where "X2 = insert METADATA_FILE X \<union> {f. small_name k f}"
  have small_ok: "plain_item (\<lambda>f. usable X f \<and> f \<noteq> METADATA_FILE) x" if "x \<in> set ?small" for x
    using plain [OF that] by (rule plain_item_mono) (use st in \<open>auto simp: usable_def X_def store_ready_def\<close>)
  have large_ok: "plain_item (usable X2) x" if "x \<in> set ?large" for x
    using plain [OF that] by (rule plain_item_mono)
      (use st in \<open>auto simp: usable_def X_def X2_def store_ready_def\<close>)
  have L: "map snd ?L = large_items k cap es" using c by simp
  have lenL: "length ?L = length (large_items k cap es)" using arg_cong [OF L, of length] by simp
  have good: "good_log (usable X2) p1 ?L"
    unfolding good_log_def
  proof (intro conjI)
    show "length ?L < 2 ^ 64" using fits(2) lenL by (simp add: image_fits_def)
    show "play p1 (map snd ?L) \<noteq> None" using p(4) L by simp
    show "p_eof p1 = False" by fact
    show ne: "?L \<noteq> []" using L by (auto simp: large_items_def)
    have "snd (last ?L) = (ImageEof True, [])"
      using L ne by (metis last_map last_snoc large_items_def)
    then show "fst (snd (last ?L)) = ImageEof True" by simp
    have bl: "map snd (butlast ?L) = ?large"
      using L by (simp add: map_butlast large_items_def)
    show "\<forall>x \<in> set (butlast ?L). fst (snd x) \<noteq> ImageEof True"
    proof
      fix x
      assume "x \<in> set (butlast ?L)"
      then have "snd x \<in> set ?large" by (simp flip: bl)
      from large_ok [OF this] show "fst (snd x) \<noteq> ImageEof True" by (simp add: plain_item_def)
    qed
    show "\<forall>x \<in> set ?L. body_ok (fst (snd x)) \<and> (\<forall>f. fst (snd x) = Filename f \<longrightarrow> usable X2 f)"
    proof
      fix x
      assume "x \<in> set ?L"
      then have "snd x \<in> set (large_items k cap es)" by (simp flip: L)
      then have "snd x \<in> set ?large \<or> snd x = (ImageEof True, [])" by (auto simp: large_items_def)
      then show "body_ok (fst (snd x)) \<and> (\<forall>f. fst (snd x) = Filename f \<longrightarrow> usable X2 f)"
        using large_ok [of "snd x"] by (auto simp: plain_item_def)
    qed
  qed
  have shs: "mset (map dshard_new pipes)
      = mset (map (\<lambda>j. dshard_new \<lparr>avail = shard_from enc j 0 ?L, broken = False\<rparr>) [0..<length (shards s)])"
  proof -
    have "map pipe_of (shards s)
        = map (\<lambda>j. \<lparr>avail = shard_from enc j 0 ?L, broken = False\<rparr>) [0..<length (shards s)]"
      using c libs(1) by (intro nth_equalityI) (simp_all add: logged_def pipe_of_def)
    with pipes have "mset pipes
        = mset (map (\<lambda>j. \<lparr>avail = shard_from enc j 0 ?L, broken = False\<rparr>) [0..<length (shards s)])"
      by simp
    then have "image_mset dshard_new (mset pipes) = image_mset dshard_new
        (mset (map (\<lambda>j. \<lparr>avail = shard_from enc j 0 ?L, broken = False\<rparr>) [0..<length (shards s)]))"
      by simp
    then show ?thesis by (simp add: multiset.map_comp comp_def)
  qed
  let ?pipes = "pipe_of (small_shard s) # pipes"
  have "length pipes = length (shards s)" using arg_cong [OF pipes, of size] by simp
  then have lp: "2 \<le> length ?pipes" using c by auto
  define d :: "('s, 'f) deser" where
    "d = \<lparr>small_file_shard = dshard_new (pipe_of (small_shard s)), small_file_seq = 0,
          de_metadata = None, de_shards = map dshard_new pipes, readable_shards = [],
          pending_markers = [], de_seq = 0, img_store = st, img_files = [],
          current_img_file = None, image_eof = False, finished_shards = [], polls = 0\<rparr>"
  have new: "deserializer_new st (map dshard_new ?pipes) = Inr d"
    using lp by (simp add: deserializer_new_def d_def)
  have s0: "sim (stored st) X d play_init"
    using st by (auto simp: sim_def d_def play_init_def open_files_def store_ready_def X_def)
  have x: "usable X METADATA_FILE" using st by (simp add: usable_def X_def store_ready_def)
  have small: "holds_or fail (drain_small_file_shard e ops fuel d)
      (\<lambda>(names', d'). names' = finished_names es \<and> sim (stored st) (insert METADATA_FILE X) d' p1 \<and> same_large d d')"
  proof (rule drain_small_shard_sim [OF s0 x p(1,2)])
    show "dsh_pipe (small_file_shard d) = \<lparr>avail = stream_from enc 0 (?small @
        [(Filename METADATA_FILE, []),
         (FileData (length (to_json k (finished_names es))), to_json k (finished_names es)),
         (FileEof True, [])]), broken = False\<rparr>"
      using c libs(1) by (simp add: d_def dshard_new_def pipe_of_def logged_def small_items_def
          metadata_items_def)
    show "length ?small + 4 \<le> fuel"
      using fits(2) by (simp add: image_fits_def small_items_def large_items_def metadata_items_def)
  qed (use small_ok libs fits(1) in \<open>auto simp: play_init_def d_def run_fits_def\<close>)
  have large: "holds_or fail (drain_all e ops fuel d1)
      (\<lambda>d2. \<exists>pf. play p1 (map snd ?L) = Some pf \<and> sim (stored st) X2 d2 pf)"
    if s1: "sim (stored st) (insert METADATA_FILE X) d1 p1" and sl: "same_large d d1" for d1
  proof -
    have "sim (stored st) X2 d1 p1" by (rule sim_weaken [OF s1 p(2)]) (auto simp: X2_def)
    then show ?thesis
    proof (rule drain_all_play [OF good libs(3,2), where n = "length (shards s)"])
      show "fst x < length (shards s)" if "x \<in> set ?L" for x
        using c that by (auto simp: logged_def)
      show "length ?L + length (shards s) < fuel"
        using fits(2) lenL c unfolding image_fits_def by linarith
    qed (use sl shs in \<open>simp_all add: same_large_def pool_def d_def\<close>)
  qed
  have eof: "p_eof p2"
    using play_eof [OF p(4)] by (simp add: large_items_def)
  have final: "extracted (stored st) es d2" if "sim (stored st) X2 d2 p2" for d2
  proof -
    have "open_files d2 f = None" for f
      using that p(6) by (cases "open_files d2 f") (auto simp: sim_def)
    with that p(5) eof show ?thesis
      by (auto simp: extracted_def sim_def all_done_def split: if_splits)
  qed
  show ?thesis unfolding extract_image_def new
  proof (simp only: rbind.simps, rule holds_or_bind [OF small], clarify)
    fix d1
    assume "sim (stored st) (insert METADATA_FILE X) d1 p1" "same_large d d1"
    from large [OF this] show "holds_or fail (rbind (drain_all e ops fuel d1)
        (\<lambda>d2. Inr (finished_names es, d2)))
        (\<lambda>(names, d). names = finished_names es \<and> extracted (stored st) es d)"
    proof (rule holds_or_bind, elim exE conjE)
      fix d2 pf
      assume "play p1 (map snd ?L) = Some pf" "sim (stored st) X2 d2 pf"
      with p(4) L final [of d2] show "holds_or fail (Inr (finished_names es, d2))
          (\<lambda>(names, d). names = finished_names es \<and> extracted (stored st) es d)" by simp
    qed
  qed
qed

end

end
