(* ===== verification/Fs_Store.thy ===== *)
theory Fs_Store
  imports Image_Store Unix_Pipe
begin

text \<open>
  The on-disk store of \<open>src/image_store/fs.rs\<close>, which the extract command uses. The state holds
  the images directory and the part of the kernel's state the store works on: the contents of the
  files by path, the kernel's answer to \<open>open(O_CREAT | O_TRUNC)\<close>, the room on the device and
  the number of bytes each \<open>splice()\<close> moves. An open file is its path and its offset.
\<close>

section \<open>State and operations\<close>

record fs_store =
  images_dir :: string
  files :: "string \<Rightarrow> byte list option"
  openable :: "string \<Rightarrow> bool"
  disk_room :: "nat option"
  disk_splice :: "nat \<Rightarrow> nat \<Rightarrow> nat"   \<comment> \<open>call number, iteration\<close>
  splice_calls :: nat

record fs_file =
  fd_path :: string
  fd_pos :: nat

abbreviation slash :: char where "slash \<equiv> CHR 0x2F"

text \<open>\<open>Path::join\<close>: an absolute second path replaces the first.\<close>

definition path_join :: "string \<Rightarrow> string \<Rightarrow> string" where
  "path_join dir f =
     (if f \<noteq> [] \<and> hd f = slash then f
      else if dir = [] \<or> last dir = slash then dir @ f
      else dir @ slash # f)"

definition fs_create :: "fs_store \<Rightarrow> string \<Rightarrow> (fs_store \<times> fs_file) res" where
  "fs_create st filename =
     (let full_path = path_join (images_dir st) filename in
      if openable st full_path
      then Inr (st\<lparr>files := (files st)(full_path \<mapsto> [])\<rparr>, \<lparr>fd_path = full_path, fd_pos = 0\<rparr>)
      else Inl (Err Io_Error))"

definition fs_insert :: "fs_store \<Rightarrow> string \<Rightarrow> fs_file \<Rightarrow> fs_store res" where
  "fs_insert st filename file = Inr st"

text \<open>Writing at an offset; a gap reads as zeros.\<close>

definition write_at :: "byte list \<Rightarrow> nat \<Rightarrow> byte list \<Rightarrow> byte list" where
  "write_at c pos data =
     take pos (c @ replicate (pos - length c) 0) @ data @ drop (pos + length data) c"

definition fs_write :: "fs_store \<Rightarrow> fs_file \<Rightarrow> reader \<Rightarrow> nat \<Rightarrow> (fs_store \<times> fs_file \<times> reader) res" where
  "fs_write st file shard_pipe sz =
     rbind (splice_all (disk_splice st (splice_calls st)) shard_pipe
              \<lparr>written = [], room = disk_room st\<rparr> sz) (\<lambda>(shard_pipe', out).
       let old = (case files st (fd_path file) of None \<Rightarrow> [] | Some c \<Rightarrow> c) in
       Inr (st\<lparr>files := (files st)(fd_path file \<mapsto> write_at old (fd_pos file) (written out)),
               disk_room := room out, splice_calls := Suc (splice_calls st)\<rparr>,
            file\<lparr>fd_pos := fd_pos file + length (written out)\<rparr>, shard_pipe'))"

definition fs_ops :: "(fs_store, fs_file) store_ops" where
  "fs_ops = \<lparr>so_create = fs_create, so_insert = fs_insert, so_write = fs_write\<rparr>"

section \<open>The store meets its contract\<close>

text \<open>Names of one path component, as CRIU and the client send them.\<close>

definition plain_name :: "string \<Rightarrow> bool" where
  "plain_name f \<longleftrightarrow> slash \<notin> set f"

lemma plain_name_hd: "plain_name f \<Longrightarrow> f \<noteq> [] \<Longrightarrow> hd f \<noteq> slash"
  by (cases f) (auto simp: plain_name_def)

lemma path_join_plain:
  "plain_name f \<Longrightarrow> path_join dir f = dir @ (if dir = [] \<or> last dir = slash then [] else [slash]) @ f"
  using plain_name_hd [of f] by (auto simp: path_join_def)

lemma path_join_inject:
  "plain_name f \<Longrightarrow> plain_name g \<Longrightarrow> path_join dir f = path_join dir g \<longleftrightarrow> f = g"
  by (simp add: path_join_plain)

lemma write_at_end: "write_at c (length c) data = c @ data"
  by (simp add: write_at_def)

definition io_failure :: "failure \<Rightarrow> bool" where
  "io_failure e \<longleftrightarrow> e = Err Io_Error \<or> e = Err Splice_Eof"

lemma splice_loop_Inl:
  "splice_loop ask i src dst n = Inl e \<Longrightarrow> io_failure e"
proof (induction ask i src dst n rule: splice_loop.induct)
  case (1 ask i src dst n)
  show ?case
  proof (cases "n > 0")
    case False
    with "1.prems" show ?thesis by (subst (asm) splice_loop.simps) simp
  next
    case True
    define w where "w = min (ask i) (min n (length (avail src)))"
    show ?thesis
    proof (cases "w > 0 \<and> \<not> (avail src = [] \<and> broken src)")
      case False
      with "1.prems" True show ?thesis
        by (subst (asm) splice_loop.simps)
           (auto simp: Let_def io_failure_def simp flip: w_def split: if_splits)
    next
      case w: True
      show ?thesis
      proof (cases "write_all dst (take w (avail src))")
        case (Inl x)
        then have "x = Err Io_Error" by (auto simp: write_all_def split: option.splits if_splits)
        with "1.prems" True w Inl show ?thesis
          by (subst (asm) splice_loop.simps) (auto simp: Let_def io_failure_def simp flip: w_def)
      next
        case (Inr d)
        from "1.prems" True w Inr
        have "splice_loop ask (Suc i) (src\<lparr>avail := drop w (avail src)\<rparr>) d (n - w) = Inl e"
          by (subst (asm) splice_loop.simps) (simp add: Let_def flip: w_def)
        then show ?thesis using "1.IH" [OF True w_def] w Inr by simp
      qed
    qed
  qed
qed

lemma splice_all_holds:
  "n \<le> length (avail src) \<Longrightarrow>
   holds_or io_failure (splice_all ask src dst n)
     (\<lambda>(src', dst'). src' = src\<lparr>avail := drop n (avail src)\<rparr>
                     \<and> written dst' = written dst @ take n (avail src))"
proof (cases "splice_all ask src dst n")
  case (Inl e)
  then show ?thesis using splice_loop_Inl [of ask 0 src dst n e] by (simp add: splice_all_def)
next
  case (Inr z)
  then show ?thesis using splice_all_Inr [of ask src dst n] by (cases z) auto
qed

definition fs_unused :: "fs_store \<Rightarrow> string \<Rightarrow> bool" where
  "fs_unused st n \<longleftrightarrow> plain_name n"

definition fs_stored :: "fs_store \<Rightarrow> string \<Rightarrow> byte list option" where
  "fs_stored st n = (if plain_name n then files st (path_join (images_dir st) n) else None)"

definition fs_belongs :: "fs_store \<Rightarrow> fs_file \<Rightarrow> string \<Rightarrow> bool" where
  "fs_belongs st h n \<longleftrightarrow>
     plain_name n \<and> fd_path h = path_join (images_dir st) n
     \<and> (\<exists>c. files st (fd_path h) = Some c \<and> fd_pos h = length c)"

definition fs_content :: "fs_store \<Rightarrow> fs_file \<Rightarrow> byte list" where
  "fs_content st h = (case files st (fd_path h) of None \<Rightarrow> [] | Some c \<Rightarrow> c)"

lemma fs_leaves_others:
  assumes "plain_name n" and "images_dir st' = images_dir st"
    and "\<And>q. q \<noteq> path_join (images_dir st) n \<Longrightarrow> files st' q = files st q"
  shows "leaves_others fs_unused fs_belongs fs_content fs_stored keep n st st'"
  unfolding leaves_others_def
proof (intro allI impI conjI)
  fix m :: string
  assume m: "m \<noteq> n"
  have other: "plain_name m \<Longrightarrow> files st' (path_join (images_dir st) m) = files st (path_join (images_dir st) m)"
    using assms m by (intro assms(3)) (simp add: path_join_inject)
  then show "fs_stored st' m = fs_stored st m" by (simp add: fs_stored_def assms(2))
  show "fs_unused st m \<Longrightarrow> fs_unused st' m" by (simp add: fs_unused_def)
  fix g
  assume g: "fs_belongs st g m"
  with other show "fs_belongs st' g m" by (auto simp: fs_belongs_def assms(2))
  from g other show "fs_content st' g = fs_content st g" by (auto simp: fs_belongs_def fs_content_def)
qed

interpretation fs: image_store fs_ops "\<lambda>st. images_dir st = dir" fs_unused fs_belongs fs_content
  fs_stored "\<lambda>_ _. False" io_failure for dir
proof (unfold_locales, goal_cases)
  case (1 st n)
  then have n: "plain_name n" and dir: "images_dir st = dir" by (simp_all add: fs_unused_def)
  let ?st = "st\<lparr>files := (files st)(path_join (images_dir st) n \<mapsto> [])\<rparr>"
  have "leaves_others fs_unused fs_belongs fs_content fs_stored keep n st ?st"
    for keep by (rule fs_leaves_others [OF n]) simp_all
  then show ?case using n dir
    by (simp add: fs_ops_def fs_create_def Let_def io_failure_def fs_belongs_def fs_content_def)
next
  case (2 st h n k r)
  then obtain c where dir: "images_dir st = dir" and h: "plain_name n" "fd_path h = path_join (images_dir st) n"
    "files st (path_join (images_dir st) n) = Some c" "fd_pos h = length c"
    by (auto simp: fs_belongs_def)
  show ?case unfolding fs_ops_def fs_write_def store_ops.simps
  proof (rule holds_or_bind [OF splice_all_holds [OF 2(3)]], clarify, goal_cases)
    case (1 r' out)
    let ?st = "st\<lparr>files := (files st)(path_join (images_dir st) n \<mapsto> c @ take k (avail r)),
                  disk_room := room out, splice_calls := Suc (splice_calls st)\<rparr>"
    have "leaves_others fs_unused fs_belongs fs_content fs_stored keep n st ?st"
      for keep by (rule fs_leaves_others [OF h(1)]) simp_all
    with 1 h dir show ?case
      by (simp add: Let_def write_at_end fs_belongs_def fs_content_def)
  qed
next
  case (3 st h n)
  then show ?case
    by (auto simp: fs_ops_def fs_insert_def fs_stored_def fs_content_def fs_belongs_def leaves_others_def)
qed

text \<open>A disk that works: every file can be opened, there is room, and bytes keep moving.\<close>

definition disk_works :: "fs_store \<Rightarrow> bool" where
  "disk_works st \<longleftrightarrow> (\<forall>p. openable st p) \<and> disk_room st = None \<and> (\<forall>i j. 0 < disk_splice st i j)"

lemma fs_works:
  "disk_works st \<Longrightarrow> \<exists>st' f. fs_create st n = Inr (st', f) \<and> disk_works st'"
  "disk_works st \<Longrightarrow> k \<le> length (avail r) \<Longrightarrow> \<exists>st' f' r'. fs_write st f r k = Inr (st', f', r') \<and> disk_works st'"
  by (auto simp: disk_works_def fs_create_def fs_write_def splice_all_total Let_def)

interpretation fs_live: total_image_store fs_ops "\<lambda>st. images_dir st = dir \<and> disk_works st" fs_unused
  fs_belongs fs_content fs_stored "\<lambda>_ _. False" "\<lambda>_. False" for dir
proof (unfold_locales, goal_cases)
  case (1 st n)
  then obtain st' f where "so_create fs_ops st n = Inr (st', f)" "disk_works st'"
    using fs_works(1) [of st n] by (auto simp: fs_ops_def)
  with fs.create_law [of st dir n] 1 show ?case by simp
next
  case (2 st f n k r)
  then obtain st' f' r' where "so_write fs_ops st f r k = Inr (st', f', r')" "disk_works st'"
    using fs_works(2) [of st k r f] by (auto simp: fs_ops_def)
  with fs.write_law [of st dir f n k r] 2 show ?case by simp
next
  case (3 st f n)
  then have "so_insert fs_ops st n f = Inr st" by (simp add: fs_ops_def fs_insert_def)
  with fs.insert_law [of st dir f n] 3 show ?case by simp
qed simp

section \<open>Properties\<close>

text \<open>A name that starts with a slash leaves the images directory: the file is created, and
  truncated, at that path of the machine that restores the image.\<close>

theorem absolute_name_escapes:
  assumes "openable st (slash # n)"
  shows "\<exists>st' f. fs_create st (slash # n) = Inr (st', f) \<and> files st' (slash # n) = Some []
       \<and> fd_path f = slash # n"
  using assms by (simp add: fs_create_def path_join_def Let_def)

theorem absolute_name_escapes_witness:
  "\<exists>st' f. fs_create \<lparr>images_dir = ''/img'', files = [''/etc/passwd'' \<mapsto> [1]], openable = (\<lambda>_. True),
       disk_room = None, disk_splice = (\<lambda>_ _. 3), splice_calls = 0\<rparr> ''/etc/passwd'' = Inr (st', f)
      \<and> files st' ''/etc/passwd'' = Some []"
  using absolute_name_escapes [of "\<lparr>images_dir = ''/img'', files = [''/etc/passwd'' \<mapsto> [1]],
      openable = (\<lambda>_. True), disk_room = None, disk_splice = (\<lambda>_ _. 3), splice_calls = 0\<rparr>" "''etc/passwd''"]
  by auto

end
