(* ===== verification/Overlay_Store.thy ===== *)
theory Overlay_Store
  imports Fs_Store
begin

text \<open>
  The overlay of \<open>src/image_store/fs_overlay.rs\<close>: files named on the command line are streamed
  into the pipes that came with them, every other file goes to the underlying store. The locale
  \<open>overlay_store\<close> shows that the overlay meets the contract of a store whenever the underlying
  store does; \<open>delivered\<close> records what each overlay pipe had been given when it was closed.
\<close>

section \<open>State and operations\<close>

record 's overlay =
  underlying :: 's
  overlayed_files :: "(string \<times> sink) list"
  ov_splice :: "nat \<Rightarrow> nat \<Rightarrow> nat"           \<comment> \<open>call number, iteration\<close>
  ov_calls :: nat
  delivered :: "(string \<times> byte list) list"

datatype 'f ov_file = Overlayed sink | Underlying 'f

definition overlay_new :: "'s \<Rightarrow> (nat \<Rightarrow> nat \<Rightarrow> nat) \<Rightarrow> 's overlay" where
  "overlay_new st ask =
     \<lparr>underlying = st, overlayed_files = [], ov_splice = ask, ov_calls = 0, delivered = []\<rparr>"

definition add_overlay :: "'s overlay \<Rightarrow> string \<Rightarrow> sink \<Rightarrow> 's overlay" where
  "add_overlay st filename file =
     st\<lparr>overlayed_files := AList.update filename file (overlayed_files st)\<rparr>"

definition ov_create ::
  "('s, 'f) store_ops \<Rightarrow> 's overlay \<Rightarrow> string \<Rightarrow> ('s overlay \<times> 'f ov_file) res" where
  "ov_create ops st filename =
     (case map_of (overlayed_files st) filename of
        Some file \<Rightarrow>
          Inr (st\<lparr>overlayed_files := AList.delete filename (overlayed_files st)\<rparr>, Overlayed file)
      | None \<Rightarrow>
          rbind (so_create ops (underlying st) filename) (\<lambda>(u, file).
            Inr (st\<lparr>underlying := u\<rparr>, Underlying file)))"

definition ov_insert ::
  "('s, 'f) store_ops \<Rightarrow> 's overlay \<Rightarrow> string \<Rightarrow> 'f ov_file \<Rightarrow> 's overlay res" where
  "ov_insert ops st filename out =
     (case out of
        Overlayed p \<Rightarrow> Inr (st\<lparr>delivered := AList.update filename (written p) (delivered st)\<rparr>)
      | Underlying file \<Rightarrow>
          rbind (so_insert ops (underlying st) filename file) (\<lambda>u. Inr (st\<lparr>underlying := u\<rparr>)))"

definition ov_write ::
  "('s, 'f) store_ops \<Rightarrow> 's overlay \<Rightarrow> 'f ov_file \<Rightarrow> reader \<Rightarrow> nat
   \<Rightarrow> ('s overlay \<times> 'f ov_file \<times> reader) res" where
  "ov_write ops st out shard_pipe sz =
     (case out of
        Overlayed p \<Rightarrow>
          rbind (splice_all (ov_splice st (ov_calls st)) shard_pipe p sz) (\<lambda>(shard_pipe', p').
            Inr (st\<lparr>ov_calls := Suc (ov_calls st)\<rparr>, Overlayed p', shard_pipe'))
      | Underlying file \<Rightarrow>
          rbind (so_write ops (underlying st) file shard_pipe sz) (\<lambda>(u, file', shard_pipe').
            Inr (st\<lparr>underlying := u\<rparr>, Underlying file', shard_pipe')))"

definition ov_ops :: "('s, 'f) store_ops \<Rightarrow> ('s overlay, 'f ov_file) store_ops" where
  "ov_ops ops = \<lparr>so_create = ov_create ops, so_insert = ov_insert ops, so_write = ov_write ops\<rparr>"

section \<open>The overlay meets the contract\<close>

text \<open>\<open>E\<close>: the names that came with a pipe on the command line.\<close>

definition ov_inv :: "string set \<Rightarrow> ('s \<Rightarrow> bool) \<Rightarrow> 's overlay \<Rightarrow> bool" where
  "ov_inv E ok st \<longleftrightarrow>
     ok (underlying st)
     \<and> (\<forall>n p. map_of (overlayed_files st) n = Some p \<longrightarrow> n \<in> E \<and> written p = [])"

definition ov_unused :: "string set \<Rightarrow> ('s \<Rightarrow> string \<Rightarrow> bool) \<Rightarrow> 's overlay \<Rightarrow> string \<Rightarrow> bool" where
  "ov_unused E unused st n \<longleftrightarrow>
     (if n \<in> E then map_of (overlayed_files st) n \<noteq> None else unused (underlying st) n)"

definition ov_belongs ::
  "string set \<Rightarrow> ('s \<Rightarrow> 'f \<Rightarrow> string \<Rightarrow> bool) \<Rightarrow> 's overlay \<Rightarrow> 'f ov_file \<Rightarrow> string \<Rightarrow> bool" where
  "ov_belongs E belongs st out n \<longleftrightarrow>
     (case out of
        Overlayed p \<Rightarrow> n \<in> E
      | Underlying file \<Rightarrow> n \<notin> E \<and> belongs (underlying st) file n)"

definition ov_blocks :: "string set \<Rightarrow> (string \<Rightarrow> string \<Rightarrow> bool) \<Rightarrow> string \<Rightarrow> string \<Rightarrow> bool" where
  "ov_blocks E blocks n m \<longleftrightarrow> n \<notin> E \<and> m \<notin> E \<and> blocks n m"

definition ov_content :: "('s \<Rightarrow> 'f \<Rightarrow> byte list) \<Rightarrow> 's overlay \<Rightarrow> 'f ov_file \<Rightarrow> byte list" where
  "ov_content content st out =
     (case out of Overlayed p \<Rightarrow> written p | Underlying file \<Rightarrow> content (underlying st) file)"

definition ov_stored ::
  "string set \<Rightarrow> ('s \<Rightarrow> string \<Rightarrow> byte list option) \<Rightarrow> 's overlay \<Rightarrow> string \<Rightarrow> byte list option" where
  "ov_stored E stored st n = (if n \<in> E then map_of (delivered st) n else stored (underlying st) n)"

locale overlay_store = image_store ops inv unused belongs content stored blocks fail
  for ops :: "('s, 'f) store_ops" and inv unused belongs content stored blocks fail +
  fixes E :: "string set"
  assumes pipe_fail: "E \<noteq> {} \<Longrightarrow> io_failure e \<Longrightarrow> fail e"
begin

abbreviation ov_leaves_others :: "(string \<Rightarrow> bool) \<Rightarrow> string \<Rightarrow> 's overlay \<Rightarrow> 's overlay \<Rightarrow> bool" where
  "ov_leaves_others \<equiv>
     leaves_others (ov_unused E unused) (ov_belongs E belongs) (ov_content content) (ov_stored E stored)"

lemma holds_io_mono: "E \<noteq> {} \<Longrightarrow> holds_or io_failure r P \<Longrightarrow> holds_or fail r P"
  by (cases r) (auto simp: pipe_fail)

lemmas ov_defs = leaves_others_def ov_stored_def ov_unused_def ov_belongs_def ov_content_def ov_inv_def

text \<open>A change of the underlying store alone.\<close>

lemma under_leaves_others:
  assumes "leaves_others unused belongs content stored keep n (underlying st) u"
    and "\<And>m. keep' m \<Longrightarrow> m \<notin> E \<Longrightarrow> keep m"
  shows "ov_leaves_others keep' n st (st\<lparr>underlying := u\<rparr>)"
  using assms by (auto simp: ov_defs split: ov_file.split)

lemma ov_create_law:
  assumes i: "ov_inv E inv st" and un: "ov_unused E unused st n"
  shows "holds_or fail (ov_create ops st n) (\<lambda>(st', f).
           ov_inv E inv st' \<and> ov_belongs E belongs st' f n \<and> ov_content content st' f = []
           \<and> ov_leaves_others (\<lambda>m. \<not> ov_blocks E blocks n m) n st st')"
proof (cases "map_of (overlayed_files st) n")
  case (Some p)
  let ?st = "st\<lparr>overlayed_files := AList.delete n (overlayed_files st)\<rparr>"
  have "ov_leaves_others (\<lambda>m. \<not> ov_blocks E blocks n m) n st ?st"
    by (auto simp: ov_defs delete_conv' split: ov_file.split)
  with Some i show ?thesis
    by (auto simp: ov_create_def ov_inv_def ov_belongs_def ov_content_def delete_conv')
next
  case None
  with un i have u: "inv (underlying st)" "unused (underlying st) n" "n \<notin> E"
    by (auto simp: ov_unused_def ov_inv_def split: if_splits)
  have "holds_or fail (rbind (so_create ops (underlying st) n) (\<lambda>(u, file).
            Inr (st\<lparr>underlying := u\<rparr>, Underlying file)))
          (\<lambda>(st', f). ov_inv E inv st' \<and> ov_belongs E belongs st' f n \<and> ov_content content st' f = []
                     \<and> ov_leaves_others (\<lambda>m. \<not> ov_blocks E blocks n m) n st st')"
    by (rule holds_or_bind [OF create_law [OF u(1,2)]])
       (use None u i in \<open>auto simp: ov_inv_def ov_belongs_def ov_content_def ov_blocks_def
          intro: under_leaves_others [where keep = "\<lambda>m. \<not> blocks n m"]\<close>)
  with None show ?thesis by (simp add: ov_create_def)
qed

lemma ov_write_law:
  assumes i: "ov_inv E inv st" and b: "ov_belongs E belongs st f n" and len: "k \<le> length (avail r)"
  shows "holds_or fail (ov_write ops st f r k) (\<lambda>(st', f', r').
           ov_inv E inv st' \<and> ov_belongs E belongs st' f' n
           \<and> ov_content content st' f' = ov_content content st f @ take k (avail r)
           \<and> r' = r\<lparr>avail := drop k (avail r)\<rparr> \<and> ov_leaves_others (\<lambda>_. True) n st st')"
proof (cases f)
  case (Overlayed p)
  let ?st = "st\<lparr>ov_calls := Suc (ov_calls st)\<rparr>"
  have "ov_leaves_others (\<lambda>_. True) n st ?st"
    by (auto simp: ov_defs split: ov_file.split)
  moreover have "ov_inv E inv ?st" "\<And>p'. ov_belongs E belongs ?st (Overlayed p') n"
    using i b Overlayed by (simp_all add: ov_inv_def ov_belongs_def)
  moreover have "E \<noteq> {}" using b Overlayed by (auto simp: ov_belongs_def)
  note mono = holds_io_mono [OF this]
  ultimately have "holds_or fail (rbind (splice_all (ov_splice st (ov_calls st)) r p k)
        (\<lambda>(r', p'). Inr (?st, Overlayed p', r')))
      (\<lambda>(st', f', r'). ov_inv E inv st' \<and> ov_belongs E belongs st' f' n
           \<and> ov_content content st' f' = ov_content content st f @ take k (avail r)
           \<and> r' = r\<lparr>avail := drop k (avail r)\<rparr> \<and> ov_leaves_others (\<lambda>_. True) n st st')"
    by (intro holds_or_bind [OF mono [OF splice_all_holds [OF len]]])
       (auto simp: ov_content_def Overlayed)
  with Overlayed show ?thesis by (simp add: ov_write_def)
next
  case (Underlying h)
  with b i have u: "inv (underlying st)" "belongs (underlying st) h n" "n \<notin> E"
    by (auto simp: ov_belongs_def ov_inv_def)
  have "holds_or fail (rbind (so_write ops (underlying st) h r k) (\<lambda>(u, file', r').
            Inr (st\<lparr>underlying := u\<rparr>, Underlying file', r')))
      (\<lambda>(st', f', r'). ov_inv E inv st' \<and> ov_belongs E belongs st' f' n
           \<and> ov_content content st' f' = ov_content content st f @ take k (avail r)
           \<and> r' = r\<lparr>avail := drop k (avail r)\<rparr> \<and> ov_leaves_others (\<lambda>_. True) n st st')"
    by (rule holds_or_bind [OF write_law [OF u(1,2) len]])
       (use Underlying u i under_leaves_others in \<open>auto simp: ov_inv_def ov_belongs_def ov_content_def\<close>)
  with Underlying show ?thesis by (simp add: ov_write_def)
qed

lemma ov_insert_law:
  assumes i: "ov_inv E inv st" and b: "ov_belongs E belongs st f n"
  shows "holds_or fail (ov_insert ops st n f) (\<lambda>st'.
           ov_inv E inv st' \<and> ov_stored E stored st' n = Some (ov_content content st f)
           \<and> ov_leaves_others (\<lambda>_. True) n st st')"
proof (cases f)
  case (Overlayed p)
  let ?st = "st\<lparr>delivered := AList.update n (written p) (delivered st)\<rparr>"
  have "ov_leaves_others (\<lambda>_. True) n st ?st"
    by (auto simp: ov_defs update_conv' split: ov_file.split)
  moreover have "ov_inv E inv ?st" using i by (simp add: ov_inv_def)
  ultimately show ?thesis
    using Overlayed b by (simp add: ov_insert_def ov_stored_def ov_content_def ov_belongs_def update_conv')
next
  case (Underlying h)
  with b i have u: "inv (underlying st)" "belongs (underlying st) h n" "n \<notin> E"
    by (auto simp: ov_belongs_def ov_inv_def)
  have "holds_or fail (rbind (so_insert ops (underlying st) n h) (\<lambda>u. Inr (st\<lparr>underlying := u\<rparr>)))
      (\<lambda>st'. ov_inv E inv st' \<and> ov_stored E stored st' n = Some (ov_content content st f)
             \<and> ov_leaves_others (\<lambda>_. True) n st st')"
    by (rule holds_or_bind [OF insert_law [OF u(1,2)]])
       (use Underlying u i under_leaves_others in \<open>auto simp: ov_inv_def ov_stored_def ov_content_def\<close>)
  with Underlying show ?thesis by (simp add: ov_insert_def)
qed

end

sublocale overlay_store \<subseteq> over: image_store "ov_ops ops" "ov_inv E inv" "ov_unused E unused"
  "ov_belongs E belongs" "ov_content content" "ov_stored E stored" "ov_blocks E blocks" fail
proof (unfold_locales, goal_cases)
  case (1 st n)
  then show ?case using ov_create_law by (simp add: ov_ops_def)
next
  case (2 st f n k r)
  then show ?case using ov_write_law [OF 2] by (simp add: ov_ops_def)
next
  case (3 st f n)
  then show ?case using ov_insert_law by (simp add: ov_ops_def)
qed

text \<open>A new overlay, given fresh pipes.\<close>

lemma overlays_map:
  "map_of (overlayed_files (fold (\<lambda>(n, p) st. add_overlay st n p) ext st)) =
   map_of (overlayed_files st) ++ map_of (rev ext)"
  "underlying (fold (\<lambda>(n, p) st. add_overlay st n p) ext st) = underlying st"
  "delivered (fold (\<lambda>(n, p) st. add_overlay st n p) ext st) = delivered st"
proof (induction ext arbitrary: st)
  case (Cons x ext)
  { case 1
    show ?case using Cons.IH(1)
      by (cases x) (simp add: add_overlay_def fun_eq_iff map_add_def update_conv' split: option.split)
  next
    case 2
    show ?case using Cons.IH(2) by (cases x) (simp add: add_overlay_def)
  next
    case 3
    show ?case using Cons.IH(3) by (cases x) (simp add: add_overlay_def)
  }
qed simp_all

text \<open>The store of the extract command: overlay pipes over files on disk.\<close>

interpretation fs_over: overlay_store fs_ops "\<lambda>st. images_dir st = dir" fs_unused fs_belongs
  fs_content fs_stored "\<lambda>_ _. False" io_failure E for dir E
  by unfold_locales

text \<open>Without overlay pipes, over a disk that works.\<close>

interpretation fs_live_over: overlay_store fs_ops "\<lambda>st. images_dir st = dir \<and> disk_works st" fs_unused
  fs_belongs fs_content fs_stored "\<lambda>_ _. False" "\<lambda>_. False" "{}" for dir
  by unfold_locales simp

end
