(* ===== verification/Termination.thy ===== *)
theory Termination
  imports Drain_Order Mem_Store Overlay_Store
begin

text \<open>
  Extraction ends on every input. Whatever bytes the shards carry (a truncated or hostile image
  included), whatever \<open>poll()\<close> reports and whatever the decoders answer, the loops of
  \<open>drain_small_file_shard\<close> and \<open>drain_all\<close> stop: every round takes a message or a shard away.
  The bound counts the bytes on the pipes. The store is any that meets \<open>store_progress\<close>.
\<close>

section \<open>The contract\<close>

locale store_progress =
  fixes ops :: "('s, 'f) store_ops"
    and inv :: "'s \<Rightarrow> bool"
    and good :: "'f \<Rightarrow> bool"
  assumes create_ends: "inv st \<Longrightarrow> so_create ops st n \<noteq> Inl Diverge"
    and create_good: "inv st \<Longrightarrow> so_create ops st n = Inr (st', f) \<Longrightarrow> inv st' \<and> good f"
    and insert_ends: "inv st \<Longrightarrow> good f \<Longrightarrow> so_insert ops st n f \<noteq> Inl Diverge"
    and insert_inv: "inv st \<Longrightarrow> good f \<Longrightarrow> so_insert ops st n f = Inr st' \<Longrightarrow> inv st'"
    and write_ends: "inv st \<Longrightarrow> good f \<Longrightarrow> so_write ops st f r k \<noteq> Inl Diverge"
    and write_good: "inv st \<Longrightarrow> good f \<Longrightarrow> so_write ops st f r k = Inr (st', f', r') \<Longrightarrow>
        inv st' \<and> good f' \<and> length (avail r') \<le> length (avail r)"

section \<open>Results that did not run out of fuel\<close>

definition ends :: "'a res \<Rightarrow> ('a \<Rightarrow> bool) \<Rightarrow> bool" where
  "ends r P = holds_or (\<lambda>e. e \<noteq> Diverge) r P"

lemma ends_simps [simp]:
  "ends (Inr x) P = P x" "ends (Inl e) P = (e \<noteq> Diverge)"
  by (simp_all add: ends_def)

lemma ends_bind:
  "ends r P \<Longrightarrow> (\<And>x. r = Inr x \<Longrightarrow> P x \<Longrightarrow> ends (f x) Q) \<Longrightarrow> ends (rbind r f) Q"
  unfolding ends_def by (rule holds_or_bind)

lemma ends_mono: "ends r P \<Longrightarrow> (\<And>x. P x \<Longrightarrow> Q x) \<Longrightarrow> ends r Q"
  unfolding ends_def by (rule holds_or_mono)

lemma ends_iff: "ends r P \<longleftrightarrow> r \<noteq> Inl Diverge \<and> (\<forall>x. r = Inr x \<longrightarrow> P x)"
  by (cases r) auto

lemma ends_check [simp]:
  "ends (ensure c e) P \<longleftrightarrow> (c \<longrightarrow> P ())" "ends (rassert c) P \<longleftrightarrow> (c \<longrightarrow> P ())"
  by (auto simp: ensure_def rassert_def)

lemma ends_get [simp]:
  "ends (ok_or x e) P \<longleftrightarrow> (\<forall>v. x = Some v \<longrightarrow> P v)" "ends (unwrap x) P \<longleftrightarrow> (\<forall>v. x = Some v \<longrightarrow> P v)"
  by (auto simp: ok_or_def unwrap_def split: option.split)

lemma read_bytes_next_ends: "read_bytes_next r n \<noteq> Inl Diverge"
  by (auto simp: read_bytes_next_def take_read_to_end_def rbind_Inl_iff split: if_splits)

lemma pb_read_next_ends: "pb_read_next dec r \<noteq> Inl Diverge"
  using read_bytes_next_ends
  by (auto simp: pb_read_next_def rbind_Inl_iff get_u32_le_def rassert_def ok_or_def Let_def
      split: option.splits if_splits)

lemma in_set_alist_update: "x \<in> set (AList.update k v al) \<Longrightarrow> x = (k, v) \<or> x \<in> set al"
  by (induction al) (auto split: if_splits)

section \<open>The deserializer over such a store\<close>

context store_progress
begin

definition tidy :: "('s, 'f) deser \<Rightarrow> bool" where
  "tidy d \<longleftrightarrow> inv (img_store d) \<and> (\<forall>x \<in> set (img_files d). good (snd x))
     \<and> (\<forall>n f. current_img_file d = Some (n, f) \<longrightarrow> good f)"

lemma tidy_cong:
  "img_store d' = img_store d \<Longrightarrow> img_files d' = img_files d \<Longrightarrow>
   current_img_file d' = current_img_file d \<Longrightarrow> tidy d' = tidy d"
  by (simp add: tidy_def)

lemma select_img_file_ends: "tidy d \<Longrightarrow> ends (select_img_file ops d f) tidy"
proof -
  assume t: "tidy d"
  define files1 where "files1 = (case current_img_file d of None \<Rightarrow> img_files d
                                 | Some (f, out) \<Rightarrow> AList.update f out (img_files d))"
  have good1: "good (snd x)" if "x \<in> set files1" for x
    using that t
    by (auto simp: files1_def tidy_def split: option.splits prod.splits dest!: in_set_alist_update)
  show ?thesis
  proof (cases "map_of files1 f")
    case (Some h)
    with good1 have "good h" by (auto dest: map_of_SomeD)
    moreover have "x \<in> set files1" if "x \<in> set (AList.delete f files1)" for x
      using that by (auto simp: AList.delete_eq)
    ultimately show ?thesis using Some t good1
      by (auto simp: select_img_file_def tidy_def simp flip: files1_def)
  next
    case None
    with t good1 create_ends [of "img_store d" f] create_good [of "img_store d" f] show ?thesis
      by (cases "so_create ops (img_store d) f")
         (auto simp: select_img_file_def tidy_def simp flip: files1_def)
  qed
qed

definition weight :: "dshard \<Rightarrow> nat" where
  "weight sh = Suc (length (avail (dsh_pipe sh)))"

text \<open>Bytes and shards that are left.\<close>

definition left :: "('s, 'f) deser \<Rightarrow> nat" where
  "left d = sum_list (map weight (pool d)) + sum_list (map (\<lambda>pm. weight (pm_shard pm)) (pending_markers d))"

lemma process_marker_ends:
  assumes t: "tidy d"
  shows "ends (process_marker ops d m sh) (\<lambda>(d', sh'). tidy d' \<and> weight sh' \<le> weight sh)"
proof (cases "mbody m")
  case None
  then show ?thesis by (simp add: process_marker_def)
next
  case (Some b)
  show ?thesis
  proof (cases b)
    case (Filename f)
    with Some select_img_file_ends [OF t, of f] show ?thesis
      by (cases "select_img_file ops d f") (simp_all add: process_marker_def)
  next
    case (FileData n)
    show ?thesis
    proof (cases "current_img_file d")
      case None
      with Some FileData show ?thesis by (simp add: process_marker_def)
    next
      case cur: (Some a)
      obtain f h where a: "a = (f, h)" by (cases a)
      have h: "inv (img_store d)" "good h" using t cur a by (auto simp: tidy_def)
      from write_ends [OF h] write_good [OF h] t show ?thesis
        using Some FileData cur a
        by (cases "so_write ops (img_store d) h (dsh_pipe sh) n")
           (auto simp: process_marker_def tidy_def weight_def)
    qed
  next
    case (FileEof v)
    show ?thesis
    proof (cases "current_img_file d")
      case None
      with Some FileEof show ?thesis by (cases v) (simp_all add: process_marker_def)
    next
      case cur: (Some a)
      obtain f h where a: "a = (f, h)" by (cases a)
      have h: "inv (img_store d)" "good h" using t cur a by (auto simp: tidy_def)
      from insert_ends [OF h] insert_inv [OF h] t show ?thesis
        using Some FileEof cur a
        by (cases v; cases "so_insert ops (img_store d) f h") (auto simp: process_marker_def tidy_def)
    qed
  next
    case (ImageEof v)
    have "tidy (d\<lparr>image_eof := True\<rparr>)" using t by (simp add: tidy_def)
    with Some ImageEof t show ?thesis
      by (cases v) (auto simp: process_marker_def mark_image_eof_def ensure_def)
  qed
qed

lemma process_pending_ends:
  "tidy d \<Longrightarrow> ends (process_pending_markers ops d) (\<lambda>d'. tidy d' \<and> left d' \<le> left d)"
proof (induction "length (pending_markers d)" arbitrary: d rule: less_induct)
  case less
  show ?case
  proof (cases "get_next_in_order_marker d")
    case None
    with less.prems show ?thesis by (subst process_pending_markers.simps) simp
  next
    case (Some a)
    then obtain pm d1 where a: "get_next_in_order_marker d = Some (pm, d1)" by (cases a) auto
    from get_next_in_order_marker_Some [OF a] obtain l r where
      lr: "pending_markers d = l @ pm # r" "d1 = d\<lparr>pending_markers := l @ r\<rparr>" by blast
    have t1: "tidy d1" using less.prems lr by (simp add: tidy_def)
    have "ends (rbind (process_marker ops d1 (pm_marker pm) (pm_shard pm)) (\<lambda>(d2, sh).
            process_pending_markers ops
              (d2\<lparr>de_seq := u64_add (de_seq d2) 1, de_shards := de_shards d2 @ [sh]\<rparr>)))
          (\<lambda>d'. tidy d' \<and> left d' \<le> left d)"
    proof (rule ends_bind [OF process_marker_ends [OF t1]], clarify)
      fix d2 sh
      assume run: "process_marker ops d1 (pm_marker pm) (pm_shard pm) = Inr (d2, sh)"
        and d2: "tidy d2" "weight sh \<le> weight (pm_shard pm)"
      let ?d3 = "d2\<lparr>de_seq := u64_add (de_seq d2) 1, de_shards := de_shards d2 @ [sh]\<rparr>"
      note k = process_marker_keeps [OF run]
      have "length (pending_markers ?d3) < length (pending_markers d)" using k lr by simp
      moreover have "tidy ?d3" using d2 by (simp add: tidy_def)
      ultimately have "ends (process_pending_markers ops ?d3) (\<lambda>d'. tidy d' \<and> left d' \<le> left ?d3)"
        by (rule less.hyps)
      moreover have "left ?d3 \<le> left d" using k lr d2 by (simp add: left_def pool_def)
      ultimately show "ends (process_pending_markers ops ?d3) (\<lambda>d'. tidy d' \<and> left d' \<le> left d)"
        by (elim ends_mono) auto
    qed
    with a show ?thesis by (subst process_pending_markers.simps) simp
  qed
qed

lemma get_next_readable_shard_left:
  assumes "get_next_readable_shard e d = Inr (Some sh, d')"
  shows "same_files d d' \<and> left d = weight sh + left d'"
proof -
  have part: "sum_list (map weight (map snd (filter P xs)))
      + sum_list (map weight (map snd (filter (\<lambda>x. \<not> P x) xs))) = sum_list (map weight (map snd xs))"
    for P and xs :: "(nat \<times> dshard) list"
    by (induction xs) auto
  have pop: "vec_pop xs = (Some y, ys) \<longleftrightarrow> xs = ys @ [y]" for xs ys :: "dshard list" and y
    by (cases xs rule: rev_cases) (auto simp: vec_pop_def)
  show ?thesis
  proof (cases "readable_shards d = []")
    case False
    with assms show ?thesis
      by (auto simp: get_next_readable_shard_def pop left_def pool_def same_files_def
          split: prod.splits)
  next
    case True
    show ?thesis
    proof (cases "length (de_shards d) \<le> 1")
      case le: True
      with assms True show ?thesis
        by (auto simp: get_next_readable_shard_def pop left_def pool_def same_files_def
            split: prod.splits)
    next
      case False
      define xs where "xs = enumerate 0 (de_shards d)"
      from assms True False obtain ready where
        "(case vec_pop (map snd (filter (\<lambda>(i, _). i \<in> set ready) xs)) of (x, rds') \<Rightarrow>
            Inr (x, d\<lparr>de_shards := map snd (filter (\<lambda>(i, _). i \<notin> set ready) xs),
                     readable_shards := rds', polls := Suc (polls d)\<rparr>)) = (Inr (Some sh, d') :: _ res)"
        by (auto simp: get_next_readable_shard_def Let_def xs_def)
      then obtain rds' where
        v: "vec_pop (map snd (filter (\<lambda>(i, _). i \<in> set ready) xs)) = (Some sh, rds')"
        and d': "d' = d\<lparr>de_shards := map snd (filter (\<lambda>(i, _). i \<notin> set ready) xs),
                       readable_shards := rds', polls := Suc (polls d)\<rparr>"
        by (cases "vec_pop (map snd (filter (\<lambda>(i, _). i \<in> set ready) xs))") auto
      have "map snd xs = de_shards d" by (simp add: xs_def)
      then show ?thesis
        using part [of "\<lambda>(i, _). i \<in> set ready" xs] v d' True
        by (simp add: left_def pool_def same_files_def pop case_prod_unfold del: map_map)
    qed
  qed
qed

lemma get_next_readable_shard_ends:
  "(\<And>n k. poll_ready e n k \<noteq> Inl Diverge) \<Longrightarrow> get_next_readable_shard e d \<noteq> Inl Diverge"
  by (auto simp: get_next_readable_shard_def rbind_Inl_iff rassert_def Let_def split: prod.splits if_splits)

lemma drain_shard_ends:
  assumes t: "tidy d"
  shows "ends (drain_shard e ops d sh) (\<lambda>d'. tidy d' \<and> left d' < weight sh + left d)"
proof (cases "pb_read_next (pb_dec e) (dsh_pipe sh)")
  case (Inl x)
  with pb_read_next_ends [of "pb_dec e" "dsh_pipe sh"] show ?thesis by (auto simp: drain_shard_def)
next
  case (Inr z)
  obtain x rd where z: "z = (x, rd)" by (cases z)
  note c = pb_read_next_consumes [OF Inr [unfolded z]]
  show ?thesis
  proof (cases x)
    case None
    with Inr z t show ?thesis
      by (simp add: drain_shard_def left_def pool_def tidy_def weight_def)
  next
    case (Some a)
    obtain m n where a: "a = (m, n)" by (cases a)
    let ?sh = "sh\<lparr>dsh_pipe := rd, bytes_read := u64_add (bytes_read sh) n\<rparr>"
    let ?d = "d\<lparr>pending_markers := heap_push \<lparr>pm_marker = m, pm_shard = ?sh\<rparr> (pending_markers d)\<rparr>"
    have "left ?d < weight sh + left d"
      using c Some a by (simp add: left_def pool_def heap_push_def weight_def)
    moreover have "ends (process_pending_markers ops ?d) (\<lambda>d'. tidy d' \<and> left d' \<le> left ?d)"
      by (rule process_pending_ends) (use t in \<open>simp add: tidy_def\<close>)
    ultimately have "ends (process_pending_markers ops ?d) (\<lambda>d'. tidy d' \<and> left d' < weight sh + left d)"
      by (elim ends_mono) auto
    with Inr z Some a show ?thesis
      by (simp add: drain_shard_def Let_def ensure_def)
  qed
qed

lemma drain_all_ends:
  "(\<And>n k. poll_ready e n k \<noteq> Inl Diverge) \<Longrightarrow> tidy d \<Longrightarrow> left d < fuel \<Longrightarrow>
   drain_all_loop e ops fuel d \<noteq> Inl Diverge"
proof (induction fuel arbitrary: d)
  case (Suc fuel)
  show ?case
  proof (cases "get_next_readable_shard e d")
    case (Inl x)
    with get_next_readable_shard_ends [OF Suc.prems(1), of d] show ?thesis by auto
  next
    case (Inr z)
    obtain nx d1 where z: "z = (nx, d1)" by (cases z)
    show ?thesis
    proof (cases nx)
      case None
      with Inr z show ?thesis by simp
    next
      case (Some sh)
      from get_next_readable_shard_left Inr z Some
      have g: "same_files d d1" "left d = weight sh + left d1" by auto
      have "tidy d1" using Suc.prems(2) g tidy_cong [of d1 d] by (simp add: same_files_def)
      note ds = drain_shard_ends [OF this, of e sh]
      show ?thesis
      proof (cases "drain_shard e ops d1 sh")
        case (Inl x)
        with ds Inr z Some \<open>nx = Some sh\<close> show ?thesis
          using \<open>get_next_readable_shard e d = Inr z\<close> by auto
      next
        case (Inr d2)
        with ds have "tidy d2" "left d2 < fuel" using g Suc.prems(3) by auto
        from Suc.IH [OF Suc.prems(1) this] Inr \<open>get_next_readable_shard e d = Inr z\<close> z Some
        show ?thesis by simp
      qed
    qed
  qed
qed simp

lemma process_small_ends:
  assumes t: "tidy d"
  shows "ends (process_small_file_marker e ops d m)
           (\<lambda>d'. tidy d' \<and> length (avail (dsh_pipe (small_file_shard d')))
                          \<le> length (avail (dsh_pipe (small_file_shard d))))"
proof (cases "mseq m = small_file_seq d")
  case False
  then show ?thesis by (simp add: process_small_file_marker_def rassert_def)
next
  case seq: True
  let ?sh = "small_file_shard d"
  have keep: "small_file_shard d' = ?sh" if "select_img_file ops d f = Inr d'" for f d'
    using select_img_file_keeps [OF that] by simp
  show ?thesis
  proof (cases "mbody m")
    case None
    with seq show ?thesis by (simp add: process_small_file_marker_def)
  next
    case (Some b)
    show ?thesis
    proof (cases b)
      case (Filename f)
      with Some seq select_img_file_ends [OF t, of f] keep [of f] show ?thesis
        by (cases "select_img_file ops d f") (auto simp: process_small_file_marker_def)
    next
      case (ImageEof v)
      with Some seq show ?thesis by (simp add: process_small_file_marker_def)
    next
      case (FileEof v)
      show ?thesis
      proof (cases "current_img_file d")
        case None
        with Some FileEof seq show ?thesis by (cases v) (simp_all add: process_small_file_marker_def)
      next
        case cur: (Some a)
        obtain f h where a: "a = (f, h)" by (cases a)
        have h: "inv (img_store d)" "good h" using t cur a by (auto simp: tidy_def)
        from insert_ends [OF h] insert_inv [OF h] t show ?thesis
          using Some FileEof cur a seq
          by (cases v; cases "so_insert ops (img_store d) f h")
             (auto simp: process_small_file_marker_def tidy_def)
      qed
    next
      case (FileData n)
      show ?thesis
      proof (cases "current_img_file d")
        case None
        with Some FileData seq show ?thesis by (simp add: process_small_file_marker_def)
      next
        case cur: (Some a)
        obtain f h where a: "a = (f, h)" by (cases a)
        have h: "inv (img_store d)" "good h" using t cur a by (auto simp: tidy_def)
        show ?thesis
        proof (cases "f = METADATA_FILE")
          case True
          show ?thesis
          proof (cases "take_read_to_end (dsh_pipe ?sh) n")
            case (Inl x)
            then have "x \<noteq> Diverge" by (auto simp: take_read_to_end_def split: if_splits)
            with Inl True Some FileData cur a seq show ?thesis
              by (simp add: process_small_file_marker_def Let_def)
          next
            case (Inr z)
            obtain bs rd where z: "z = (bs, rd)" by (cases z)
            have "length (avail rd) \<le> length (avail (dsh_pipe ?sh))"
              using take_read_to_end_shrinks [OF Inr [unfolded z]] by simp
            with Inr z True Some FileData cur a seq t show ?thesis
              by (cases "of_json e bs") (simp_all add: process_small_file_marker_def Let_def tidy_def)
          qed
        next
          case False
          with write_ends [OF h] write_good [OF h] t Some FileData cur a seq show ?thesis
            by (cases "so_write ops (img_store d) h (dsh_pipe ?sh) n")
               (auto simp: process_small_file_marker_def Let_def tidy_def)
        qed
      qed
    qed
  qed
qed

lemma drain_small_ends:
  "tidy d \<Longrightarrow> length (avail (dsh_pipe (small_file_shard d))) < fuel \<Longrightarrow>
   ends (drain_small_loop e ops fuel d) tidy"
proof (induction fuel arbitrary: d)
  case (Suc fuel)
  let ?sh = "small_file_shard d"
  show ?case
  proof (cases "pb_read_next (pb_dec e) (dsh_pipe ?sh)")
    case (Inl x)
    with pb_read_next_ends [of "pb_dec e" "dsh_pipe ?sh"] show ?thesis
      by (auto simp: drain_small_loop.simps)
  next
    case (Inr z)
    obtain x rd where z: "z = (x, rd)" by (cases z)
    note c = pb_read_next_consumes [OF Inr [unfolded z]]
    show ?thesis
    proof (cases x)
      case None
      with Inr z Suc.prems(1) show ?thesis by (simp add: drain_small_loop.simps tidy_def)
    next
      case (Some a)
      obtain m n where a: "a = (m, n)" by (cases a)
      define d1 where "d1 = d\<lparr>small_file_shard :=
        ?sh\<lparr>dsh_pipe := rd, bytes_read := u64_add (bytes_read ?sh) n\<rparr>\<rparr>"
      have t1: "tidy d1" using Suc.prems(1) by (simp add: tidy_def d1_def)
      have "ends (rbind (process_small_file_marker e ops d1 m) (\<lambda>d'.
              drain_small_loop e ops fuel (d'\<lparr>small_file_seq := u64_add (small_file_seq d') 1\<rparr>))) tidy"
      proof (rule ends_bind [OF process_small_ends [OF t1]], elim conjE, goal_cases)
        case (1 d2)
        then show ?case using c Some a Suc.prems(2)
          by (intro Suc.IH) (simp_all add: tidy_def d1_def)
      qed
      with Inr z Some a show ?thesis by (simp add: drain_small_loop.simps Let_def d1_def)
    qed
  qed
qed simp

lemma extract_image_ends:
  assumes st: "inv st" and po: "\<And>n k. poll_ready e n k \<noteq> Inl Diverge"
    and fuel: "sum_list (map (\<lambda>p. Suc (length (avail p))) pipes) < fuel"
  shows "extract_image e ops fuel st pipes \<noteq> Inl Diverge"
proof (cases "2 \<le> length pipes")
  case False
  then show ?thesis by (simp add: extract_image_def deserializer_new_def rassert_def)
next
  case True
  then obtain p0 ps where pipes: "pipes = p0 # ps" by (cases pipes) auto
  define d :: "('s, 'f) deser" where
    "d = \<lparr>small_file_shard = dshard_new p0, small_file_seq = 0,
          de_metadata = None, de_shards = map dshard_new ps, readable_shards = [],
          pending_markers = [], de_seq = 0, img_store = st, img_files = [],
          current_img_file = None, image_eof = False, finished_shards = [], polls = 0\<rparr>"
  have new: "deserializer_new st (map dshard_new pipes) = Inr d"
    using True pipes by (simp add: deserializer_new_def d_def)
  have t: "tidy d" using st by (simp add: tidy_def d_def)
  have "length (avail p0) < fuel" using fuel pipes by simp
  then have "ends (drain_small_loop e ops fuel d) tidy"
    by (intro drain_small_ends [OF t]) (simp add: d_def dshard_new_def)
  have "ends (drain_small_file_shard e ops fuel d) (\<lambda>(names, d1). tidy d1 \<and> left d1 < fuel)"
  proof (cases "drain_small_loop e ops fuel d")
    case (Inl x)
    with \<open>ends (drain_small_loop e ops fuel d) tidy\<close> show ?thesis
      by (simp add: drain_small_file_shard_def)
  next
    case (Inr d1)
    have "left d1 < fuel"
      using drain_small_loop_same [OF Inr] fuel pipes
      by (simp add: left_def pool_def same_large_def d_def comp_def weight_def dshard_new_def)
    with Inr \<open>ends (drain_small_loop e ops fuel d) tidy\<close> show ?thesis
      by (cases "de_metadata d1")
         (simp_all add: drain_small_file_shard_def rassert_def tidy_def left_def pool_def)
  qed
  then have "ends (rbind (drain_small_file_shard e ops fuel d) (\<lambda>(names, d1).
      rbind (drain_all e ops fuel d1) (\<lambda>d2. Inr (names, d2)))) (\<lambda>_. True)"
  proof (rule ends_bind, clarify)
    fix names d1
    assume "tidy d1" "left d1 < fuel"
    from drain_all_ends [OF po this] have "drain_all e ops fuel d1 \<noteq> Inl Diverge"
      by (auto simp: drain_all_def rbind_Inl_iff ensure_def split: if_splits)
    then show "ends (rbind (drain_all e ops fuel d1) (\<lambda>d2. Inr (names, d2))) (\<lambda>_. True)"
      by (cases "drain_all e ops fuel d1") auto
  qed
  with new show ?thesis by (simp add: extract_image_def ends_iff)
qed

end

section \<open>The memory store makes progress\<close>

lemma mm_ends: "mm_with_capacity c \<noteq> Inl Diverge" "mm_resize b n \<noteq> Inl Diverge"
  "mm_fill b i bs \<noteq> Inl Diverge"
  by (auto simp: mm_with_capacity_def mm_resize_def mm_fill_def rassert_def)

lemma reserve_chunk_ends: "reserve_chunk page f n \<noteq> Inl Diverge"
  using mm_ends
  by (auto simp: reserve_chunk_def large_from_slice_def rbind_Inl_iff rassert_def
      split: memfile.splits if_splits)

lemma copy_from_reader_ends: "copy_from_reader page f rd sz \<noteq> Inl Diverge"
  using mm_ends reserve_chunk_ends
  by (auto simp: copy_from_reader_def rbind_Inl_iff take_read_to_end_def read_exact_def Let_def
      split: memfile.splits if_splits)

text \<open>On any reader, one that ends early included.\<close>

lemma copy_from_reader_any:
  assumes run: "copy_from_reader page f rd sz = Inr (f', rd', n)" and wf: "memfile_wf page f"
  shows "memfile_wf page f' \<and> length (avail rd') \<le> length (avail rd)
         \<and> (0 < sz \<longrightarrow> page < MAX_LARGE_CHUNK_SIZE \<longrightarrow> 0 < n)"
proof -
  from run obtain f1 where r: "reserve_chunk page f sz = Inr f1" by (auto simp: copy_from_reader_def)
  note f1 = reserve_chunk_Inr [OF r wf]
  show ?thesis
  proof (cases f1)
    case (Small c)
    with run r f1 show ?thesis
      by (auto simp: copy_from_reader_def dest!: take_read_to_end_shrinks)
  next
    case (Large cs)
    define b where "b = last cs"
    define k where "k = min sz (mm_capacity b - mm_len b)"
    from run r Large f1 obtain b1 bs b2 where
      b1: "mm_resize b (mm_len b + k) = Inr b1" and bs: "read_exact rd k = Inr (bs, rd')"
      and b2: "mm_fill b1 (mm_len b) bs = Inr b2"
      and out: "f' = Large (butlast cs @ [b2])" "n = k"
      by (auto simp: copy_from_reader_def Let_def b_def k_def)
    have "mm_wf b2" "mm_capacity b2 = MAX_LARGE_CHUNK_SIZE"
      using mm_fill_Inr [OF b2] mm_resize_keeps [OF b1] f1 Large by (auto simp: b_def)
    then have "memfile_wf page f'" using out Large f1 by (auto dest: in_set_butlastD)
    moreover have "length (avail rd') \<le> length (avail rd)" using read_exact_shrinks [OF bs] by simp
    moreover have "0 < sz \<longrightarrow> page < MAX_LARGE_CHUNK_SIZE \<longrightarrow> 0 < n"
      using f1 Large out by (auto simp: k_def b_def)
    ultimately show ?thesis by simp
  qed
qed

lemma mem_write_loop_ends:
  "memfile_wf page f \<Longrightarrow> page < MAX_LARGE_CHUNK_SIZE \<Longrightarrow> sz \<le> fuel \<Longrightarrow>
   ends (mem_write_loop page fuel f rd sz)
     (\<lambda>(f', rd'). memfile_wf page f' \<and> length (avail rd') \<le> length (avail rd))"
proof (induction fuel arbitrary: f rd sz)
  case 0
  then show ?case by (subst mem_write_loop.simps) simp
next
  case (Suc fuel)
  show ?case
  proof (cases "sz > 0")
    case False
    with Suc.prems show ?thesis by (subst mem_write_loop.simps) simp
  next
    case True
    show ?thesis
    proof (cases "copy_from_reader page f rd sz")
      case (Inl x)
      with True copy_from_reader_ends [of page f rd sz] show ?thesis
        by (subst mem_write_loop.simps) auto
    next
      case (Inr z)
      then obtain f1 rd1 n where z: "copy_from_reader page f rd sz = Inr (f1, rd1, n)"
        by (cases z) auto
      note c = copy_from_reader_any [OF z Suc.prems(1)]
      have "ends (mem_write_loop page fuel f1 rd1 (sz - n))
          (\<lambda>(f', rd'). memfile_wf page f' \<and> length (avail rd') \<le> length (avail rd1))"
        by (rule Suc.IH) (use c True Suc.prems in auto)
      then have "ends (mem_write_loop page fuel f1 rd1 (sz - n))
          (\<lambda>(f', rd'). memfile_wf page f' \<and> length (avail rd') \<le> length (avail rd))"
        by (rule ends_mono) (use c in auto)
      with z True show ?thesis by (subst mem_write_loop.simps) simp
    qed
  qed
qed

interpretation mem_progress: store_progress "mem_ops page" "mem_inv page" "memfile_wf page" for page
proof (unfold_locales, goal_cases)
  case (3 st f n)
  then show ?case by (simp add: mem_ops_def mem_insert_def rbind_Inl_iff rassert_def)
next
  case (5 st f r k)
  then show ?case using mem_write_loop_ends [of page f k k r]
    by (auto simp: mem_ops_def mem_write_all_from_pipe_def rbind_Inl_iff)
next
  case (6 st f r k st' f' r')
  then show ?case using mem_write_loop_ends [of page f k k r]
    by (auto simp: mem_ops_def mem_write_all_from_pipe_def)
qed (auto simp: mem_ops_def mem_create_def new_small_def)

section \<open>So does the disk, and an overlay over any store that does\<close>

lemma write_all_ends: "ends (write_all p bs) (\<lambda>_. True)"
  by (simp add: write_all_def split: option.split)

lemma splice_loop_ends: "ends (splice_loop ask i src dst n) (\<lambda>_. True)"
proof (induction ask i src dst n rule: splice_loop.induct)
  case (1 ask i src dst n)
  then show ?case
    by (subst splice_loop.simps) (auto simp: Let_def intro!: ends_bind [OF write_all_ends])
qed

lemma splice_all_ends: "ends (splice_all ask src dst n) (\<lambda>_. True)"
  by (simp add: splice_all_def splice_loop_ends)

text \<open>\<open>splice_all\<close> takes bytes away.\<close>

lemma splice_all_shrinks: "splice_all ask src dst n = Inr (src', dst') \<Longrightarrow> length (avail src') \<le> length (avail src)"
  by (auto dest!: splice_all_Inr)

interpretation fs_progress: store_progress fs_ops "\<lambda>_. True" "\<lambda>_. True"
proof (unfold_locales, goal_cases)
  case (5 st f r k)
  then show ?case using splice_all_ends [of "disk_splice st (splice_calls st)" r _ k]
    by (auto simp: fs_ops_def fs_write_def Let_def rbind_Inl_iff ends_iff)
next
  case (6 st f r k st' f' r')
  then show ?case by (auto simp: fs_ops_def fs_write_def Let_def dest!: splice_all_shrinks)
qed (auto simp: fs_ops_def fs_create_def fs_insert_def Let_def)

fun ov_good :: "('f \<Rightarrow> bool) \<Rightarrow> 'f ov_file \<Rightarrow> bool" where
  "ov_good good (Overlayed p) = True"
| "ov_good good (Underlying f) = good f"

context store_progress
begin

lemma overlay_progress: "store_progress (ov_ops ops) (\<lambda>st. inv (underlying st)) (ov_good good)"
proof (unfold_locales, goal_cases)
  case (1 st n)
  then show ?case
    by (auto simp: ov_ops_def ov_create_def rbind_Inl_iff dest: create_ends split: option.split)
next
  case (2 st n st' f)
  then show ?case
    by (auto simp: ov_ops_def ov_create_def dest: create_good split: option.splits)
next
  case (3 st f n)
  then show ?case
    by (cases f) (auto simp: ov_ops_def ov_insert_def rbind_Inl_iff dest: insert_ends)
next
  case (4 st f n st')
  then show ?case by (cases f) (auto simp: ov_ops_def ov_insert_def dest: insert_inv)
next
  case (5 st f r k)
  show ?case
  proof (cases f)
    case (Overlayed p)
    then show ?thesis using splice_all_ends [of "ov_splice st (ov_calls st)" r p k]
      by (auto simp: ov_ops_def ov_write_def rbind_Inl_iff ends_iff)
  next
    case (Underlying g)
    with 5 show ?thesis by (auto simp: ov_ops_def ov_write_def rbind_Inl_iff dest: write_ends)
  qed
next
  case (6 st f r k st' f' r')
  show ?case
  proof (cases f)
    case (Overlayed p)
    with 6 show ?thesis by (auto simp: ov_ops_def ov_write_def dest!: splice_all_shrinks)
  next
    case (Underlying g)
    with 6 obtain u g' where "so_write ops (underlying st) g r k = Inr (u, g', r')"
      "st' = st\<lparr>underlying := u\<rparr>" "f' = Underlying g'" by (auto simp: ov_ops_def ov_write_def)
    with 6(1,2) Underlying write_good [of "underlying st" g r k u g' r'] show ?thesis by simp
  qed
qed

end

interpretation disk_progress: store_progress "ov_ops fs_ops" "\<lambda>_. True" "ov_good (\<lambda>_. True)"
  using fs_progress.overlay_progress by simp

end
