(* ===== verification/Extract_Cmd.thy ===== *)
theory Extract_Cmd
  imports Roundtrip Termination
begin

text \<open>
  The drivers around the deserializer in \<open>src/extract.rs\<close>: \<open>drain_shards_into_img_store\<close> puts
  the overlay of the external files over a store and drains the shards into it; \<open>extract_cmd\<close> is
  the function \<open>extract\<close> with the store on disk. The reports to the progress pipe are left out.
\<close>

definition drain_shards_into_img_store ::
  "denv \<Rightarrow> ('s, 'f) store_ops \<Rightarrow> nat \<Rightarrow> (nat \<Rightarrow> nat \<Rightarrow> nat) \<Rightarrow> 's \<Rightarrow> reader list
   \<Rightarrow> (string \<times> sink) list \<Rightarrow> 's overlay res" where
  "drain_shards_into_img_store e ops fuel ask st shard_pipes ext_file_pipes =
     (let overlayed = fold (\<lambda>(n, p) o'. add_overlay o' n p) ext_file_pipes (overlay_new st ask) in
      rbind (extract_image e (ov_ops ops) fuel overlayed shard_pipes) (\<lambda>(_, d). Inr (img_store d)))"

text \<open>\<open>mkdir\<close>: whether \<open>create_dir_all\<close> succeeds.\<close>

definition extract_cmd ::
  "denv \<Rightarrow> nat \<Rightarrow> (nat \<Rightarrow> nat \<Rightarrow> nat) \<Rightarrow> (string \<Rightarrow> bool) \<Rightarrow> fs_store \<Rightarrow> reader list
   \<Rightarrow> (string \<times> sink) list \<Rightarrow> fs_store overlay res" where
  "extract_cmd e fuel ask mkdir disk shard_pipes ext_file_pipes =
     (if mkdir (images_dir disk)
      then drain_shards_into_img_store e fs_ops fuel ask disk shard_pipes ext_file_pipes
      else Inl (Err Io_Error))"

section \<open>Extraction through an overlay\<close>

context overlay_store
begin

definition ext_ready :: "cenv \<Rightarrow> drain_event list \<Rightarrow> 's \<Rightarrow> (string \<times> sink) list \<Rightarrow> bool" where
  "ext_ready k es st ext \<longleftrightarrow>
     inv st \<and> E = fst ` set ext \<and> (\<forall>x \<in> set ext. written (snd x) = [])
     \<and> (\<forall>f \<in> insert METADATA_FILE (fst ` set es). f \<notin> E \<longrightarrow> unused st f)
     \<and> (\<forall>n m. blocks n m \<longrightarrow> \<not> small_name k n \<and> small_name k m)
     \<and> (\<forall>m. \<not> blocks METADATA_FILE m)"

lemma overlay_ready:
  assumes r: "ext_ready k es st ext"
  shows "image_stream.store_ready (ov_inv E inv) (ov_unused E unused) (ov_blocks E blocks) k es
           (fold (\<lambda>(n, p) o'. add_overlay o' n p) ext (overlay_new st ask))"
    and "ov_stored E stored (fold (\<lambda>(n, p) o'. add_overlay o' n p) ext (overlay_new st ask)) f
         = (if f \<in> E then None else stored st f)"
proof -
  let ?o = "fold (\<lambda>(n, p) o'. add_overlay o' n p) ext (overlay_new st ask)"
  note stream = image_stream.intro [OF over.image_store_axioms marker_codec.msg_codec_axioms]
  have map: "map_of (overlayed_files ?o) = map_of (rev ext)"
    by (simp add: overlays_map overlay_new_def)
  have und: "underlying ?o = st" "delivered ?o = []"
    unfolding overlays_map(2,3) by (simp_all add: overlay_new_def)
  have dom: "map_of (rev ext) f = None \<longleftrightarrow> f \<notin> E" for f
    using r by (simp add: map_of_eq_None_iff ext_ready_def)
  have "n \<in> E \<and> written p = []" if "map_of (rev ext) n = Some p" for n p
  proof -
    have np: "(n, p) \<in> set ext" using map_of_SomeD [OF that] by simp
    have "E = fst ` set ext" "\<forall>x \<in> set ext. written (snd x) = []" using r by (simp_all add: ext_ready_def)
    with bspec [OF this(2) np] imageI [OF np, of fst] show ?thesis by simp
  qed
  then have "ov_inv E inv ?o"
    using r unfolding ov_inv_def map und by (simp add: ext_ready_def)
  moreover have "ov_unused E unused ?o f" if "f \<in> insert METADATA_FILE (fst ` set es)" for f
    using r that unfolding ov_unused_def map und by (auto simp: dom ext_ready_def)
  ultimately show "image_stream.store_ready (ov_inv E inv) (ov_unused E unused) (ov_blocks E blocks) k es ?o"
    using r unfolding image_stream.store_ready_def [OF stream] by (auto simp: ov_blocks_def ext_ready_def)
  show "ov_stored E stored ?o f = (if f \<in> E then None else stored st f)"
    unfolding ov_stored_def und by simp
qed

lemma extract_overlay:
  assumes cap: "capture_events k shs cap es = Inr s" and fresh: "fresh_shards shs"
    and fits: "run_fits k es" "image_fits k cap es (length shs) fuel"
    and wf: "wf_run es" "names_ok es"
    and libs: "msg_codec (pb_enc k) (pb_dec e) marker_ok" "poll_ok fail e"
      "of_json e (to_json k (finished_names es)) = Some (finished_names es)"
    and st: "ext_ready k es st ext"
    and pipes: "mset pipes = mset (map pipe_of (shards s))"
  shows "holds_or fail
           (extract_image e (ov_ops ops) fuel
              (fold (\<lambda>(n, p) o'. add_overlay o' n p) ext (overlay_new st ask)) (pipe_of (small_shard s) # pipes))
           (\<lambda>(names, d). names = finished_names es \<and> ov_inv E inv (img_store d)
                \<and> (\<forall>f. f \<noteq> METADATA_FILE \<longrightarrow>
                     ov_stored E stored (img_store d) f
                     = (if f \<in> fst ` set es then Some (file_content f es)
                        else if f \<in> E then None else stored st f)))"
proof -
  note stream = image_stream.intro [OF over.image_store_axioms libs(1)]
  have "holds_or fail (extract_image e (ov_ops ops) fuel
      (fold (\<lambda>(n, p) o'. add_overlay o' n p) ext (overlay_new st ask)) (pipe_of (small_shard s) # pipes))
        (\<lambda>(names, d). names = finished_names es
           \<and> image_stream.extracted (ov_inv E inv) (ov_stored E stored)
               (ov_stored E stored (fold (\<lambda>(n, p) o'. add_overlay o' n p) ext (overlay_new st ask))) es d)"
    by (rule image_stream.extract_capture [OF stream cap fresh fits wf refl refl libs(2,3)
          overlay_ready(1) [OF st] pipes])
  then show ?thesis
    by (rule holds_or_mono)
       (simp add: image_stream.extracted_def [OF stream] overlay_ready(2) [OF st] split: prod.splits)
qed

lemma drain_shards_capture:
  assumes cap: "capture_events k shs cap es = Inr s" and fresh: "fresh_shards shs"
    and fits: "run_fits k es" "image_fits k cap es (length shs) fuel"
    and wf: "wf_run es" "names_ok es"
    and libs: "msg_codec (pb_enc k) (pb_dec e) marker_ok" "poll_ok fail e"
      "of_json e (to_json k (finished_names es)) = Some (finished_names es)"
    and st: "ext_ready k es st ext"
    and pipes: "mset pipes = mset (map pipe_of (shards s))"
  shows "holds_or fail
           (drain_shards_into_img_store e ops fuel ask st (pipe_of (small_shard s) # pipes) ext)
           (\<lambda>st'. ov_inv E inv st'
                \<and> (\<forall>f. f \<noteq> METADATA_FILE \<longrightarrow>
                     ov_stored E stored st' f
                     = (if f \<in> fst ` set es then Some (file_content f es)
                        else if f \<in> E then None else stored st f)))"
  unfolding drain_shards_into_img_store_def Let_def
  by (rule holds_or_bind [OF extract_overlay [OF assms]]) auto

end

section \<open>The command on disk\<close>

text \<open>The contract of an image stream on the store of the command and the wire format of the markers.\<close>

interpretation disk_stream: image_stream "ov_ops fs_ops"
  "ov_inv E (\<lambda>st. images_dir st = dir)" "ov_unused E fs_unused" "ov_belongs E fs_belongs"
  "ov_content fs_content" "ov_stored E fs_stored" "ov_blocks E (\<lambda>_ _. False)" io_failure enc_marker dec_marker
  for dir E
  by (rule image_stream.intro [OF fs_over.over.image_store_axioms marker_codec.msg_codec_axioms])

lemma extract_cmd_capture:
  assumes cap: "capture_events k shs cap es = Inr s" and fresh: "fresh_shards shs"
    and run: "run_fits k es" "wf_run es" "names_ok es" "image_fits k cap es (length shs) fuel"
    and libs: "msg_codec (pb_enc k) (pb_dec e) marker_ok" "poll_ok io_failure e"
      "of_json e (to_json k (finished_names es)) = Some (finished_names es)"
    and ext: "\<forall>x \<in> set ext. written (snd x) = []"
    and plain: "\<forall>f \<in> fst ` set es. f \<notin> fst ` set ext \<longrightarrow> plain_name f"
    and pipes: "mset pipes = mset (map pipe_of (shards s))" and dir: "mkdir (images_dir disk)"
  shows "holds_or io_failure (extract_cmd e fuel ask mkdir disk (pipe_of (small_shard s) # pipes) ext)
    (\<lambda>st. \<forall>f \<in> fst ` set es.
       (if f \<in> fst ` set ext then map_of (delivered st) f
        else files (underlying st) (path_join (images_dir disk) f)) = Some (file_content f es))"
proof -
  have meta: "plain_name METADATA_FILE" by (simp add: plain_name_def METADATA_FILE_def)
  have ready: "fs_over.ext_ready (images_dir disk) (fst ` set ext) k es disk ext"
    unfolding fs_over.ext_ready_def using ext plain meta by (simp add: fs_unused_def)
  have names: "f \<in> fst ` set es \<Longrightarrow> f \<noteq> METADATA_FILE" for f using run(3) by (auto simp: names_ok_def)
  have eq: "extract_cmd e fuel ask mkdir disk (pipe_of (small_shard s) # pipes) ext
      = drain_shards_into_img_store e fs_ops fuel ask disk (pipe_of (small_shard s) # pipes) ext"
    using dir by (simp add: extract_cmd_def)
  show ?thesis
    unfolding eq
  proof (rule holds_or_mono [OF fs_over.drain_shards_capture [OF cap fresh run(1,4,2,3) libs ready pipes]],
      rule ballI)
    fix st f
    assume st: "ov_inv (fst ` set ext) (\<lambda>st. images_dir st = images_dir disk) st \<and>
        (\<forall>f. f \<noteq> METADATA_FILE \<longrightarrow> ov_stored (fst ` set ext) fs_stored st f
           = (if f \<in> fst ` set es then Some (file_content f es)
              else if f \<in> fst ` set ext then None else fs_stored disk f))"
      and f: "f \<in> fst ` set es"
    then have "ov_stored (fst ` set ext) fs_stored st f = Some (file_content f es)"
      "images_dir (underlying st) = images_dir disk" using names by (simp_all add: ov_inv_def)
    then show "(if f \<in> fst ` set ext then map_of (delivered st) f
          else files (underlying st) (path_join (images_dir disk) f)) = Some (file_content f es)"
      using plain f by (auto simp: ov_stored_def fs_stored_def split: if_splits)
  qed
qed

lemma extract_cmd_ends:
  assumes "\<And>n k. poll_ready e n k \<noteq> Inl Diverge" and "sum_list (map (\<lambda>p. Suc (length (avail p))) pipes) < fuel"
  shows "extract_cmd e fuel ask mkdir disk pipes ext \<noteq> Inl Diverge"
proof -
  let ?st = "fold (\<lambda>(n, p) o'. add_overlay o' n p) ext (overlay_new disk ask)"
  have "extract_image e (ov_ops fs_ops) fuel ?st pipes \<noteq> Inl Diverge"
    by (rule disk_progress.extract_image_ends [OF TrueI assms])
  then show ?thesis
    by (auto simp: extract_cmd_def drain_shards_into_img_store_def Let_def rbind_Inl_iff)
qed

lemma drain_shards_returns:
  assumes cap: "capture_events k shs cap es = Inr s" and fresh: "fresh_shards shs"
    and run: "run_fits k es" "wf_run es" "names_ok es" "image_fits k cap es (length shs) fuel"
    and libs: "msg_codec (pb_enc k) (pb_dec e) marker_ok" "poll_ok (\<lambda>_. False) e"
      "of_json e (to_json k (finished_names es)) = Some (finished_names es)"
    and plain: "\<forall>f \<in> fst ` set es. plain_name f"
    and pipes: "mset pipes = mset (map pipe_of (shards s))" and disk: "disk_works disk"
  shows "\<exists>st. drain_shards_into_img_store e fs_ops fuel ask disk (pipe_of (small_shard s) # pipes) [] = Inr st
    \<and> (\<forall>f \<in> fst ` set es.
         files (underlying st) (path_join (images_dir disk) f) = Some (file_content f es))"
proof -
  have meta: "plain_name METADATA_FILE" by (simp add: plain_name_def METADATA_FILE_def)
  have ready: "fs_live_over.ext_ready (images_dir disk) k es disk []"
    unfolding fs_live_over.ext_ready_def using plain meta disk by (simp add: fs_unused_def)
  have names: "f \<in> fst ` set es \<Longrightarrow> f \<noteq> METADATA_FILE" for f using run(3) by (auto simp: names_ok_def)
  from fs_live_over.drain_shards_capture [OF cap fresh run(1,4,2,3) libs ready pipes, of ask]
  obtain st where st: "drain_shards_into_img_store e fs_ops fuel ask disk (pipe_of (small_shard s) # pipes) [] = Inr st"
    "images_dir (underlying st) = images_dir disk"
    "\<forall>f. f \<noteq> METADATA_FILE \<longrightarrow> fs_stored (underlying st) f
        = (if f \<in> fst ` set es then Some (file_content f es) else fs_stored disk f)"
    by (auto simp: holds_or_total ov_inv_def ov_stored_def)
  have "files (underlying st) (path_join (images_dir disk) f) = Some (file_content f es)"
    if f: "f \<in> fst ` set es" for f
    using st(3) [rule_format, OF names [OF f]] f plain st(2) by (simp add: fs_stored_def)
  with st(1) show ?thesis by blast
qed

end
