(* ===== verification/Semaphore.thy ===== *)
theory Semaphore
  imports Prelude "HOL-Library.Multiset"
begin

text \<open>
  The counting semaphore of \<open>src/semaphore.rs\<close>, which bounds the memory the serve command
  holds. \<open>acquire\<close> waits on a condition variable: \<open>sem_acquire\<close> takes the amounts that are
  released while it waits, one for each wake-up, and \<open>Inl Diverge\<close> is a wait that nothing ends.
  The relation \<open>sem_step\<close> is the same code seen from outside, with the chunks that are held.
  Counts are \<open>isize\<close> values far from overflow, modelled as integers.
\<close>

record semaphore =
  sem_count :: int
  start_val :: int

definition sem_new :: "int \<Rightarrow> semaphore" where
  "sem_new n = \<lparr>sem_count = n, start_val = n\<rparr>"

definition sem_release :: "semaphore \<Rightarrow> int \<Rightarrow> semaphore" where
  "sem_release s to_release = s\<lparr>sem_count := min (sem_count s + to_release) (start_val s)\<rparr>"

fun sem_acquire :: "semaphore \<Rightarrow> int \<Rightarrow> int list \<Rightarrow> semaphore res" where
  "sem_acquire s want [] =
     (if sem_count s < want then Inl Diverge else Inr (s\<lparr>sem_count := sem_count s - want\<rparr>))"
| "sem_acquire s want (r # rs) =
     (if sem_count s < want then sem_acquire (sem_release s r) want rs
      else Inr (s\<lparr>sem_count := sem_count s - want\<rparr>))"

text \<open>The releases a call waits for: those it uses before it returns.\<close>

fun released_waiting :: "semaphore \<Rightarrow> int \<Rightarrow> int list \<Rightarrow> int list" where
  "released_waiting s want [] = []"
| "released_waiting s want (r # rs) =
     (if sem_count s < want then r # released_waiting (sem_release s r) want rs else [])"

section \<open>What acquire can and cannot do\<close>

lemma sem_release_start [simp]: "start_val (sem_release s n) = start_val s"
  by (simp add: sem_release_def)

lemma sem_release_le: "sem_count (sem_release s n) \<le> start_val s"
  by (simp add: sem_release_def)

lemma sem_acquire_start: "sem_acquire s want rs = Inr s' \<Longrightarrow> start_val s' = start_val s"
  by (induction s want rs rule: sem_acquire.induct) (auto split: if_splits)

lemma sem_acquire_Inl: "sem_acquire s want rs = Inl e \<Longrightarrow> e = Diverge"
  by (induction s want rs rule: sem_acquire.induct) (auto split: if_splits)

text \<open>A call takes no more than is there and was released meanwhile.\<close>

lemma sem_acquire_budget:
  "sem_acquire s want rs = Inr s' \<Longrightarrow> 0 \<le> want \<Longrightarrow>
   sem_count s' + want \<le> sem_count s + sum_list (released_waiting s want rs) \<and> 0 \<le> sem_count s'"
proof (induction s want rs rule: sem_acquire.induct)
  case (2 s want r rs)
  have "sem_count (sem_release s r) \<le> sem_count s + r" by (simp add: sem_release_def)
  with 2 show ?case by (auto split: if_splits)
qed (auto split: if_splits)

lemma sem_releases_budget:
  "sem_count (fold (\<lambda>r s. sem_release s r) rs s) \<le> sem_count s + sum_list rs
   \<and> start_val (fold (\<lambda>r s. sem_release s r) rs s) = start_val s"
proof (induction rs arbitrary: s)
  case (Cons r rs)
  have "sem_count (sem_release s r) \<le> sem_count s + r" by (simp add: sem_release_def)
  with Cons [of "sem_release s r"] show ?case by simp
qed simp

text \<open>More than the start value is never granted, whatever is released.\<close>

lemma sem_acquire_too_much:
  "sem_count s \<le> start_val s \<Longrightarrow> start_val s < want \<Longrightarrow> sem_acquire s want rs = Inl Diverge"
proof (induction s want rs rule: sem_acquire.induct)
  case (2 s want r rs)
  then show ?case using sem_release_le [of s r] by simp
qed simp

text \<open>Once enough has been released, it is granted.\<close>

lemma sem_acquire_enough:
  "sem_count s \<le> start_val s \<Longrightarrow> (\<forall>r \<in> set rs. 0 \<le> r) \<Longrightarrow> 0 \<le> want \<Longrightarrow> want \<le> start_val s \<Longrightarrow>
   want \<le> sem_count s + sum_list rs \<Longrightarrow> \<exists>s'. sem_acquire s want rs = Inr s' \<and> sem_count s' \<le> start_val s"
proof (induction s want rs rule: sem_acquire.induct)
  case (1 s want)
  then show ?case by auto
next
  case (2 s want r rs)
  show ?case
  proof (cases "sem_count s < want")
    case False
    with "2.prems" show ?thesis by auto
  next
    case True
    show ?thesis
    proof (cases "sem_count s + r \<le> start_val s")
      case le: True
      then have "sem_count (sem_release s r) = sem_count s + r" by (simp add: sem_release_def)
      with "2.IH" [OF True] "2.prems" sem_release_le [of s r] True show ?thesis by simp
    next
      case False
      then have c: "sem_count (sem_release s r) = start_val s" by (simp add: sem_release_def)
      moreover have "0 \<le> sum_list rs" using "2.prems"(2) by (intro sum_list_nonneg) auto
      ultimately show ?thesis
        using "2.IH" [OF True] "2.prems" True by simp
    qed
  qed
qed

section \<open>The semaphore and the chunks it accounts for\<close>

inductive sem_step :: "semaphore \<times> int multiset \<Rightarrow> semaphore \<times> int multiset \<Rightarrow> bool" where
  acquire: "0 \<le> want \<Longrightarrow> \<not> sem_count s < want \<Longrightarrow>
     sem_step (s, held) (s\<lparr>sem_count := sem_count s - want\<rparr>, add_mset want held)"
| release: "sem_step (s, add_mset n held) (sem_release s n, held)"

inductive_cases sem_step_E: "sem_step (s, held) (s', held')"

definition sem_inv :: "int \<Rightarrow> semaphore \<times> int multiset \<Rightarrow> bool" where
  "sem_inv limit c \<longleftrightarrow>
     start_val (fst c) = limit \<and> sem_count (fst c) + sum_mset (snd c) = limit
     \<and> 0 \<le> sem_count (fst c) \<and> (\<forall>n \<in># snd c. 0 \<le> n)"

lemma sum_mset_nonneg_int: "(\<forall>n \<in># M. 0 \<le> n) \<Longrightarrow> 0 \<le> sum_mset (M :: int multiset)"
  by (induction M) auto

lemma sem_inv_step: "sem_step c c' \<Longrightarrow> sem_inv limit c \<Longrightarrow> sem_inv limit c'"
proof (induction rule: sem_step.induct)
  case (acquire want s held)
  then show ?case by (auto simp: sem_inv_def)
next
  case (release s n held)
  then have "0 \<le> n" "0 \<le> sum_mset held" "sem_count s + n + sum_mset held = limit"
    "start_val s = limit"
    by (auto simp: sem_inv_def intro: sum_mset_nonneg_int)
  then have "sem_count (sem_release s n) = sem_count s + n"
    by (simp add: sem_release_def min_def)
  with release show ?case by (auto simp: sem_inv_def)
qed

lemma sem_inv_new: "0 \<le> limit \<Longrightarrow> sem_inv limit (sem_new limit, {#})"
  by (simp add: sem_inv_def sem_new_def)

lemma sem_inv_reach:
  assumes "sem_step\<^sup>*\<^sup>* (sem_new limit, {#}) c" and "0 \<le> limit"
  shows "sem_inv limit c"
  using assms(1)
  by (induction rule: rtranclp_induct) (use sem_inv_new [OF assms(2)] sem_inv_step in blast)+

section \<open>Properties\<close>



lemma released_waiting_sum:
  "\<forall>r \<in> set rs. 0 \<le> r \<Longrightarrow> sum_list (released_waiting s want rs) \<le> sum_list rs"
proof (induction s want rs rule: released_waiting.induct)
  case (2 s want r rs)
  then have "0 \<le> sum_list rs" by (intro sum_list_nonneg) auto
  with 2 show ?case by auto
qed simp

text \<open>C29: \<open>acquire\<close> returns exactly when it can: the amount does not exceed the limit, and what is left
  together with what is released while it waits covers it. Otherwise it waits forever.\<close>

theorem acquire_returns_iff:
  assumes "sem_count s \<le> start_val s" and "\<forall>r \<in> set rs. 0 \<le> r" and "0 \<le> want"
  shows "(\<exists>s'. sem_acquire s want rs = Inr s')
         \<longleftrightarrow> want \<le> start_val s \<and> want \<le> sem_count s + sum_list rs"
proof
  assume "\<exists>s'. sem_acquire s want rs = Inr s'"
  then obtain s' where s': "sem_acquire s want rs = Inr s'" by blast
  have "want \<le> sem_count s + sum_list rs"
    using sem_acquire_budget [OF s' assms(3)] released_waiting_sum [OF assms(2), of s want] by linarith
  moreover have "want \<le> start_val s"
    using sem_acquire_too_much [OF assms(1), of want rs] s' by force
  ultimately show "want \<le> start_val s \<and> want \<le> sem_count s + sum_list rs" by simp
next
  assume "want \<le> start_val s \<and> want \<le> sem_count s + sum_list rs"
  then show "\<exists>s'. sem_acquire s want rs = Inr s'" using sem_acquire_enough [OF assms] by blast
qed

theorem acquire_returns_iff_witness:
  "(\<exists>s'. sem_acquire \<lparr>sem_count = 2, start_val = 10\<rparr> 7 [4, 3] = Inr s')
   \<and> \<not> (\<exists>s'. sem_acquire \<lparr>sem_count = 2, start_val = 10\<rparr> 7 [4] = Inr s')"
  using acquire_returns_iff [of "\<lparr>sem_count = 2, start_val = 10\<rparr>" "[4, 3]" 7]
    acquire_returns_iff [of "\<lparr>sem_count = 2, start_val = 10\<rparr>" "[4]" 7] by simp

end
