(* ===== verification/Parallel_Store.thy ===== *)
theory Parallel_Store
  imports Filenames Semaphore Mem_Store
begin

text \<open>
  The store of the serve command, \<open>src/image_store/fs_parallel.rs\<close>: the deserializing thread
  sends every chunk of a file over an \<open>mpsc\<close> channel to the thread that serves the client. Small
  files have a channel of their own, which is closed when the first large file is created. A large
  chunk is taken out of the memory budget, the semaphore, before it is read.

  The state keeps all messages sent on each channel so far. What the serving thread does is
  external here: \<open>released n\<close> are the amounts it gives back before the \<open>n\<close>-th \<open>acquire\<close>,
  \<open>wakeups n\<close> those it gives back while that call waits, and \<open>receiver_gone\<close> says from which
  message on a channel has lost its receiver.
\<close>

section \<open>State and operations\<close>

datatype file_content = Fc_Eof | Content mmap_buf

type_synonym channel = "(string \<times> file_content) list"

record par_store =
  par_sender :: bool                             \<comment> \<open>\<open>sender\<close> is \<open>Some\<close>\<close>
  par_small_sender :: bool                       \<comment> \<open>\<open>small_file_sender\<close> is \<open>Some\<close>\<close>
  par_sem :: semaphore
  large_chan :: channel
  small_chan :: channel
  receiver_gone :: "bool \<Rightarrow> nat \<Rightarrow> bool"          \<comment> \<open>small channel?, messages sent before\<close>
  released :: "nat \<Rightarrow> int list"
  wakeups :: "nat \<Rightarrow> int list"
  acquires :: nat
  released_log :: "int list"                     \<comment> \<open>the releases that have taken effect\<close>
  par_rx :: regex

record par_file =
  pf_name :: string
  pf_to_small :: bool                            \<comment> \<open>the channel \<open>sender\<close> belongs to\<close>
  pf_is_small :: bool

definition file_sender_new ::
  "regex \<Rightarrow> semaphore \<Rightarrow> (bool \<Rightarrow> nat \<Rightarrow> bool) \<Rightarrow> (nat \<Rightarrow> int list) \<Rightarrow> (nat \<Rightarrow> int list) \<Rightarrow> par_store" where
  "file_sender_new rx sem gone rel wake =
     \<lparr>par_sender = True, par_small_sender = True, par_sem = sem, large_chan = [], small_chan = [],
      receiver_gone = gone, released = rel, wakeups = wake, acquires = 0,
      released_log = [], par_rx = rx\<rparr>"

definition close_small_file_sender :: "par_store \<Rightarrow> par_store" where
  "close_small_file_sender st = st\<lparr>par_small_sender := False\<rparr>"

definition close_senders :: "par_store \<Rightarrow> par_store" where
  "close_senders st = st\<lparr>par_small_sender := False, par_sender := False\<rparr>"

definition chan :: "bool \<Rightarrow> par_store \<Rightarrow> channel" where
  "chan small st = (if small then small_chan st else large_chan st)"

text \<open>\<open>Sender::send\<close>: an error, and no message, when the receiver is gone.\<close>

definition chan_send :: "par_store \<Rightarrow> bool \<Rightarrow> string \<times> file_content \<Rightarrow> par_store \<times> bool" where
  "chan_send st small msg =
     (if receiver_gone st small (length (chan small st)) then (st, False)
      else if small then (st\<lparr>small_chan := small_chan st @ [msg]\<rparr>, True)
      else (st\<lparr>large_chan := large_chan st @ [msg]\<rparr>, True))"

definition par_file_new :: "regex \<Rightarrow> string \<Rightarrow> bool \<Rightarrow> par_file res" where
  "par_file_new rx filename to_small =
     rbind (is_small_file rx filename) (\<lambda>is_small.
       Inr \<lparr>pf_name = filename, pf_to_small = to_small, pf_is_small = is_small\<rparr>)"

definition par_create :: "par_store \<Rightarrow> string \<Rightarrow> (par_store \<times> par_file) res" where
  "par_create st filename =
     rbind (is_small_file (par_rx st) filename) (\<lambda>small.
       if small then
         rbind (unwrap (if par_small_sender st then Some () else None)) (\<lambda>_.
         rbind (par_file_new (par_rx st) filename True) (\<lambda>f. Inr (st, f)))
       else
         rbind (unwrap (if par_sender st then Some () else None)) (\<lambda>_.
         let st1 = (if par_small_sender st then close_small_file_sender st else st) in
         rbind (par_file_new (par_rx st) filename False) (\<lambda>f. Inr (st1, f))))"

definition par_insert :: "par_store \<Rightarrow> string \<Rightarrow> par_file \<Rightarrow> par_store res" where
  "par_insert st filename out =
     rbind (is_small_file (par_rx st) filename) (\<lambda>small.
       if small then
         rbind (unwrap (if par_small_sender st then Some () else None)) (\<lambda>_.
         let (st1, sent) = chan_send st True (filename, Fc_Eof) in
         rbind (ensure sent Insert_Failed) (\<lambda>_. Inr st1))
       else
         rbind (rassert (\<not> par_small_sender st)) (\<lambda>_.
         rbind (unwrap (if par_sender st then Some () else None)) (\<lambda>_.
         let (st1, sent) = chan_send st False (filename, Fc_Eof) in
         rbind (ensure sent Insert_Failed) (\<lambda>_. Inr st1))))"

definition par_acquire :: "par_store \<Rightarrow> nat \<Rightarrow> par_store res" where
  "par_acquire st want =
     (let before = released st (acquires st);
          waiting = wakeups st (acquires st);
          s0 = fold (\<lambda>r s. sem_release s r) before (par_sem st) in
      rbind (sem_acquire s0 (int want) waiting) (\<lambda>s.
        Inr (st\<lparr>par_sem := s, acquires := Suc (acquires st),
                released_log := released_log st @ before @ released_waiting s0 (int want) waiting\<rparr>)))"

definition CHUNK_SIZE :: nat where "CHUNK_SIZE = 10 * MB"

text \<open>The result of the \<open>send\<close> of a chunk is ignored.\<close>

function par_write_loop :: "par_store \<Rightarrow> par_file \<Rightarrow> reader \<Rightarrow> nat \<Rightarrow> (par_store \<times> reader) res" where
  "par_write_loop st file rd to_send =
     (if to_send > 0 then
        (let n = min to_send CHUNK_SIZE in
         rbind (if pf_is_small file then Inr st else par_acquire st n) (\<lambda>st1.
         rbind (mm_with_capacity n) (\<lambda>chunk0.
         rbind (mm_resize chunk0 n) (\<lambda>chunk1.
         rbind (read_exact rd n) (\<lambda>(bs, rd').
         rbind (mm_fill chunk1 0 bs) (\<lambda>chunk.
           par_write_loop (fst (chan_send st1 (pf_to_small file) (pf_name file, Content chunk)))
             file rd' (to_send - n)))))))
      else Inr (st, rd))"
  by pat_completeness auto
termination
  by (relation "measure (\<lambda>(st, file, rd, to_send). to_send)") (auto simp: CHUNK_SIZE_def MB_def)

declare par_write_loop.simps [simp del]

definition par_write :: "par_store \<Rightarrow> par_file \<Rightarrow> reader \<Rightarrow> nat \<Rightarrow> (par_store \<times> par_file \<times> reader) res" where
  "par_write st file rd sz = rbind (par_write_loop st file rd sz) (\<lambda>(st', rd'). Inr (st', file, rd'))"

definition par_ops :: "(par_store, par_file) store_ops" where
  "par_ops = \<lparr>so_create = par_create, so_insert = par_insert, so_write = par_write\<rparr>"

section \<open>What the receivers get\<close>

fun chunk_of :: "file_content \<Rightarrow> byte list" where
  "chunk_of Fc_Eof = []"
| "chunk_of (Content b) = mm_deref b"

definition bytes_of :: "file_content list \<Rightarrow> byte list" where
  "bytes_of cs = concat (map chunk_of cs)"

definition msgs_for :: "string \<Rightarrow> channel \<Rightarrow> file_content list" where
  "msgs_for n ch = map snd (filter (\<lambda>m. fst m = n) ch)"

definition upto_eof :: "file_content list \<Rightarrow> file_content list" where
  "upto_eof cs = takeWhile (\<lambda>c. c \<noteq> Fc_Eof) cs"

lemma bytes_of_simps [simp]:
  "bytes_of [] = []" "bytes_of (c # cs) = chunk_of c @ bytes_of cs"
  "bytes_of (cs @ cs') = bytes_of cs @ bytes_of cs'"
  by (simp_all add: bytes_of_def)

lemma msgs_for_simps [simp]:
  "msgs_for n [] = []"
  "msgs_for n ((m, c) # ch) = (if m = n then c # msgs_for n ch else msgs_for n ch)"
  "msgs_for n (ch @ ch') = msgs_for n ch @ msgs_for n ch'"
  by (simp_all add: msgs_for_def)

lemma in_msgs_for: "c \<in> set (msgs_for n ch) \<longleftrightarrow> (n, c) \<in> set ch"
  by (force simp: msgs_for_def)

lemma upto_eof_none: "Fc_Eof \<notin> set cs \<Longrightarrow> upto_eof cs = cs"
  by (auto simp: upto_eof_def takeWhile_eq_all_conv)

lemma upto_eof_Eof: "Fc_Eof \<notin> set cs \<Longrightarrow> upto_eof (cs @ Fc_Eof # cs') = cs"
  by (subst upto_eof_def) (auto simp: takeWhile_append takeWhile_eq_all_conv)

lemma upto_eof_append: "Fc_Eof \<in> set cs \<Longrightarrow> upto_eof (cs @ cs') = upto_eof cs"
  by (auto simp: upto_eof_def takeWhile_append)

abbreviation small_spec :: "string \<Rightarrow> bool" where
  "small_spec f \<equiv> listed_small f \<or> \<not> listed_large f"

definition par_inv :: "par_store \<Rightarrow> bool" where
  "par_inv st \<longleftrightarrow> regex_doc (par_rx st) \<and> par_sender st \<and> (\<forall>small i. \<not> receiver_gone st small i)
     \<and> (\<forall>m \<in> set (small_chan st). small_spec (fst m)) \<and> (\<forall>m \<in> set (large_chan st). \<not> small_spec (fst m))"

definition par_unused :: "par_store \<Rightarrow> string \<Rightarrow> bool" where
  "par_unused st n \<longleftrightarrow>
     n \<notin> fst ` set (chan (small_spec n) st) \<and> (small_spec n \<longrightarrow> par_small_sender st)"

definition par_belongs :: "par_store \<Rightarrow> par_file \<Rightarrow> string \<Rightarrow> bool" where
  "par_belongs st f n \<longleftrightarrow>
     f = \<lparr>pf_name = n, pf_to_small = small_spec n, pf_is_small = small_spec n\<rparr>
     \<and> (n, Fc_Eof) \<notin> set (chan (small_spec n) st)
     \<and> (par_small_sender st \<longleftrightarrow> small_spec n)"

definition par_content :: "par_store \<Rightarrow> par_file \<Rightarrow> byte list" where
  "par_content st f = bytes_of (msgs_for (pf_name f) (chan (pf_to_small f) st))"

definition par_stored :: "par_store \<Rightarrow> string \<Rightarrow> byte list option" where
  "par_stored st n =
     (let cs = msgs_for n (chan (small_spec n) st) in
      if Fc_Eof \<in> set cs then Some (bytes_of (upto_eof cs)) else None)"

definition par_blocks :: "string \<Rightarrow> string \<Rightarrow> bool" where
  "par_blocks n m \<longleftrightarrow> \<not> small_spec n \<and> small_spec m"

section \<open>The store meets its contract\<close>

text \<open>The messages \<open>ms\<close> for the file \<open>n\<close> are sent, and nothing else is.\<close>

definition sent_for :: "string \<Rightarrow> channel \<Rightarrow> par_store \<Rightarrow> par_store \<Rightarrow> bool" where
  "sent_for n ms st st' \<longleftrightarrow>
     (\<forall>m \<in> set ms. fst m = n)
     \<and> chan (small_spec n) st' = chan (small_spec n) st @ ms
     \<and> chan (\<not> small_spec n) st' = chan (\<not> small_spec n) st
     \<and> par_sender st' = par_sender st \<and> par_small_sender st' = par_small_sender st
     \<and> receiver_gone st' = receiver_gone st \<and> par_rx st' = par_rx st"

lemma sent_for_refl: "sent_for n [] st st"
  by (simp add: sent_for_def)

lemma sent_for_trans: "sent_for n ms st st' \<Longrightarrow> sent_for n ms' st' st'' \<Longrightarrow> sent_for n (ms @ ms') st st''"
  by (auto simp: sent_for_def)

lemma sent_for_inv:
  assumes "sent_for n ms st st'" and "par_inv st"
  shows "par_inv st'"
  using assms by (cases "small_spec n") (auto simp: sent_for_def par_inv_def chan_def)

lemma msgs_for_other: "(\<forall>m \<in> set ms. fst m = n) \<Longrightarrow> m' \<noteq> n \<Longrightarrow> msgs_for m' ms = []"
  by (auto simp: msgs_for_def filter_empty_conv)

lemma sent_for_other:
  assumes "sent_for n ms st st'" and "m \<noteq> n"
  shows "msgs_for m (chan b st') = msgs_for m (chan b st)"
    and "(m, c) \<in> set (chan b st') \<longleftrightarrow> (m, c) \<in> set (chan b st)"
    and "m \<in> fst ` set (chan b st') \<longleftrightarrow> m \<in> fst ` set (chan b st)"
  using assms msgs_for_other [of ms n m]
  by (cases "b = small_spec n"; force simp: sent_for_def)+

lemma sent_for_leaves_others:
  assumes "sent_for n ms st st'"
  shows "leaves_others par_unused par_belongs par_content par_stored keep n st st'"
proof -
  have p: "par_small_sender st' = par_small_sender st" using assms by (simp add: sent_for_def)
  note o = sent_for_other [OF assms]
  show ?thesis
    by (auto simp: leaves_others_def par_unused_def par_belongs_def par_content_def par_stored_def
        Let_def p o)
qed

lemma chan_send_sent:
  assumes "par_inv st"
  shows "chan_send st (small_spec n) (n, c) = (fst (chan_send st (small_spec n) (n, c)), True)
       \<and> sent_for n [(n, c)] st (fst (chan_send st (small_spec n) (n, c)))"
  using assms by (auto simp: chan_send_def par_inv_def sent_for_def chan_def)

lemma par_acquire_holds:
  "holds_or (\<lambda>e. e = Diverge) (par_acquire st k) (sent_for n [] st)"
  unfolding par_acquire_def Let_def
  by (rule holds_or_bind [where P = "\<lambda>_. True"])
     (auto simp: holds_or_def sent_for_def chan_def dest: sem_acquire_Inl split: sum.split)

lemma mm_chunk:
  assumes "length bs = n" and "0 < n"
  shows "\<exists>c0 c1 c. mm_with_capacity n = Inr c0 \<and> mm_resize c0 n = Inr c1 \<and> mm_fill c1 0 bs = Inr c
           \<and> mm_deref c = bs"
  using assms
  by (auto simp: mm_with_capacity_def mm_resize_def mm_fill_def mm_capacity_def mm_deref_def)

lemma par_write_loop_holds:
  "par_inv st \<Longrightarrow> k \<le> length (avail r) \<Longrightarrow>
   fl = \<lparr>pf_name = n, pf_to_small = small_spec n, pf_is_small = small_spec n\<rparr> \<Longrightarrow>
   holds_or (\<lambda>e. e = Diverge) (par_write_loop st fl r k)
     (\<lambda>(st', r'). r' = r\<lparr>avail := drop k (avail r)\<rparr>
        \<and> (\<exists>ms. sent_for n ms st st' \<and> bytes_of (msgs_for n ms) = take k (avail r) \<and> (n, Fc_Eof) \<notin> set ms))"
proof (induction st fl r k rule: par_write_loop.induct)
  case (1 st fl r k)
  define j where "j = min k CHUNK_SIZE"
  show ?case
  proof (cases "k > 0")
    case False
    then show ?thesis
      by (subst par_write_loop.simps) (auto simp: sent_for_refl intro!: exI [of _ "[]"])
  next
    case True
    then have j: "0 < j" "j \<le> k" by (auto simp: j_def CHUNK_SIZE_def MB_def)
    let ?bs = "take j (avail r)" and ?r = "r\<lparr>avail := drop j (avail r)\<rparr>"
    have len: "length ?bs = j" using j "1.prems"(2) by simp
    from mm_chunk [OF len j(1)] obtain c0 c1 c where
      c: "mm_with_capacity j = Inr c0" "mm_resize c0 j = Inr c1" "mm_fill c1 0 ?bs = Inr c"
         "mm_deref c = ?bs" by blast
    have rd: "read_exact r j = Inr (?bs, ?r)" using j "1.prems"(2) by (simp add: read_exact_def)
    have acq: "holds_or (\<lambda>e. e = Diverge)
        (if pf_is_small fl then Inr st else par_acquire st j) (sent_for n [] st)"
      using par_acquire_holds [of st j n] by (simp add: sent_for_refl)
    show ?thesis
    proof (subst par_write_loop.simps, simp only: True if_True Let_def j_def [symmetric],
        rule holds_or_bind [OF acq], goal_cases)
      case (1 st1)
      let ?st2 = "fst (chan_send st1 (pf_to_small fl) (pf_name fl, Content c))"
      have i1: "par_inv st1" using sent_for_inv [OF 1(2) "1.prems"(1)] .
      have s2: "sent_for n [(n, Content c)] st1 ?st2"
        using chan_send_sent [OF i1, of n "Content c"] "1.prems"(3) by simp
      have s: "sent_for n [(n, Content c)] st ?st2" using sent_for_trans [OF 1(2) s2] by simp
      have rest: "holds_or (\<lambda>e. e = Diverge) (par_write_loop ?st2 fl ?r (k - j))
         (\<lambda>(st', r'). r' = ?r\<lparr>avail := drop (k - j) (avail ?r)\<rparr>
           \<and> (\<exists>ms. sent_for n ms ?st2 st' \<and> bytes_of (msgs_for n ms) = take (k - j) (avail ?r)
                  \<and> (n, Fc_Eof) \<notin> set ms))"
        by (rule "1.IH" [OF True j_def 1(1) c(1,2) rd refl c(3)])
           (use sent_for_inv [OF s2 i1] "1.prems" j in auto)
      have split: "take k (avail r) = ?bs @ take (k - j) (drop j (avail r))"
        using j(2) by (metis le_add_diff_inverse take_add)
      show ?case
        unfolding c(1,2) rd rbind.simps prod.case c(3)
      proof (rule holds_or_mono [OF rest], clarify, goal_cases)
        case (1 st' r' ms)
        then show ?case using sent_for_trans [OF s 1(1)] j(2) c(4) split
          by (intro conjI exI [of _ "[(n, Content c)] @ ms"]) auto
      qed
    qed
  qed
qed

interpretation par: image_store par_ops par_inv par_unused par_belongs par_content par_stored
  par_blocks "\<lambda>e. e = Diverge"
proof (unfold_locales, goal_cases)
  case (1 st n)
  then have rx: "is_small_file (par_rx st) n = Inr (small_spec n)"
    by (simp add: par_inv_def is_small_file_spec)
  have fresh: "msgs_for n ch = []" "(n, Fc_Eof) \<notin> set ch" if "n \<notin> fst ` set ch" for ch
    using that by (force simp: msgs_for_def filter_empty_conv)+
  have others: "leaves_others par_unused par_belongs par_content par_stored (\<lambda>m. \<not> par_blocks n m) n st
                 (close_small_file_sender st)" if "\<not> small_spec n"
    using that by (auto simp: leaves_others_def par_unused_def par_belongs_def par_content_def
        par_stored_def par_blocks_def close_small_file_sender_def chan_def Let_def)
  have inv': "par_inv (close_small_file_sender st)"
    using 1(1) by (simp add: par_inv_def chan_def close_small_file_sender_def)
  have same: "leaves_others par_unused par_belongs par_content par_stored keep n st st" for keep
    by (rule sent_for_leaves_others [OF sent_for_refl])
  show ?case
  proof (cases "small_spec n")
    case True
    with 1 rx fresh same show ?thesis
      by (simp add: par_ops_def par_create_def par_file_new_def par_unused_def par_belongs_def
          par_content_def chan_def)
  next
    case False
    with 1 rx fresh same others inv' show ?thesis
      by (simp add: par_ops_def par_create_def par_file_new_def par_unused_def par_belongs_def
          par_content_def chan_def close_small_file_sender_def par_inv_def)
  qed
next
  case (2 st f n k r)
  then have f: "f = \<lparr>pf_name = n, pf_to_small = small_spec n, pf_is_small = small_spec n\<rparr>"
    by (simp add: par_belongs_def)
  show ?case
    unfolding par_ops_def par_write_def store_ops.simps
  proof (rule holds_or_bind [OF par_write_loop_holds [OF 2(1,3) f]], clarify, goal_cases)
    case (1 st' r' ms)
    have "par_belongs st' f n"
      using 1 2(2) by (auto simp: par_belongs_def sent_for_def)
    moreover have "par_content st' f = par_content st f @ take k (avail r)"
      using 1 f by (simp add: par_content_def sent_for_def)
    ultimately show ?case
      using sent_for_inv [OF 1(2) 2(1)] sent_for_leaves_others [OF 1(2)] by simp
  qed
next
  case (3 st f n)
  then have rx: "is_small_file (par_rx st) n = Inr (small_spec n)"
    and snd: "par_sender st" by (simp_all add: par_inv_def is_small_file_spec)
  obtain st1 where s: "chan_send st (small_spec n) (n, Fc_Eof) = (st1, True)"
    "sent_for n [(n, Fc_Eof)] st st1"
    using chan_send_sent [OF 3(1), of n Fc_Eof] by metis
  have b: "pf_name f = n" "pf_to_small f = small_spec n" "par_small_sender st = small_spec n"
    using 3(2) by (simp_all add: par_belongs_def)
  have "so_insert par_ops st n f = Inr st1"
    using rx s(1) b snd by (cases "small_spec n") (simp_all add: par_ops_def par_insert_def)
  moreover have "par_stored st1 n = Some (par_content st f)"
    using s(2) b 3(2)
    by (simp add: par_stored_def par_content_def sent_for_def Let_def par_belongs_def upto_eof_Eof
        in_msgs_for)
  ultimately show ?case
    using sent_for_inv [OF s(2) 3(1)] sent_for_leaves_others [OF s(2)] by simp
qed

end
