(* ===== verification/Image_Patcher.thy ===== *)
theory Image_Patcher
  imports Parallel_Store
begin

text \<open>
  \<open>src/image_patcher.rs\<close>: the TCP listen ports in CRIU's \<open>files.img\<close> are remapped before the
  file is served. The file entry is a message generated from CRIU's protobuf files; of it the code
  reads and writes the optional socket part \<open>isk\<close> (\<open>proto\<close>, \<open>state\<close>, \<open>src_port\<close>), and
  \<open>fe_rest\<close> stands for everything else. The codec is a parameter. Ports are naturals below
  \<open>2 ^ 16\<close>, the message's fields naturals below \<open>2 ^ 32\<close>.
\<close>

definition IMG_COMMON_MAGIC :: nat where "IMG_COMMON_MAGIC = 0x54564319"
definition FILES_MAGIC :: nat where "FILES_MAGIC = 0x56303138"
definition TCP_LISTEN :: nat where "TCP_LISTEN = 10"
definition IPPROTO_TCP :: nat where "IPPROTO_TCP = 6"

record inet_sk =
  sk_proto :: nat
  sk_state :: nat
  sk_src_port :: nat

record 'r file_entry =
  fe_isk :: "inet_sk option"
  fe_rest :: 'r

definition read_criu_img_header :: "reader \<Rightarrow> nat \<Rightarrow> reader res" where
  "read_criu_img_header rd expected_magic =
     rbind (read_bytes_next rd 8) (\<lambda>(h, rd1).
     rbind (ok_or h Header_Missing) (\<lambda>header.
     rbind (get_u32_le header) (\<lambda>(m1, header1).
     rbind (if m1 = IMG_COMMON_MAGIC
            then rbind (get_u32_le header1) (\<lambda>(m2, _). Inr (m2 = expected_magic)) else Inr False) (\<lambda>ok.
     rbind (ensure ok Header_Corrupted) (\<lambda>_. Inr rd1)))))"

definition write_criu_img_header :: "sink \<Rightarrow> nat \<Rightarrow> sink res" where
  "write_criu_img_header w magic =
     rbind (write_all w (put_u32_le IMG_COMMON_MAGIC)) (\<lambda>w1. write_all w1 (put_u32_le magic))"

definition is_listener :: "inet_sk \<Rightarrow> bool" where
  "is_listener isk \<longleftrightarrow> sk_proto isk = IPPROTO_TCP \<and> sk_state isk = TCP_LISTEN"

text \<open>
  One entry: a listening socket whose port (as \<open>u16\<close>) is still in the map gets its new port, and
  the remap is used up.
\<close>

definition patch_entry ::
  "(nat \<times> nat) list \<Rightarrow> 'r file_entry \<Rightarrow> (nat \<times> nat) list \<times> 'r file_entry" where
  "patch_entry remaps entry =
     (case fe_isk entry of
        None \<Rightarrow> (remaps, entry)
      | Some isk \<Rightarrow>
          if is_listener isk then
            (let port = sk_src_port isk mod 2 ^ 16 in
             case map_of remaps port of
               None \<Rightarrow> (remaps, entry)
             | Some new_port \<Rightarrow>
                 (AList.delete port remaps, entry\<lparr>fe_isk := Some (isk\<lparr>sk_src_port := new_port\<rparr>)\<rparr>))
          else (remaps, entry))"

fun patch_loop ::
  "('r file_entry \<Rightarrow> byte list) \<Rightarrow> (byte list \<Rightarrow> 'r file_entry option) \<Rightarrow> nat
   \<Rightarrow> (nat \<times> nat) list \<Rightarrow> reader \<Rightarrow> sink \<Rightarrow> ((nat \<times> nat) list \<times> sink) res" where
  "patch_loop enc dec 0 remaps cursor new_data = Inl Diverge"
| "patch_loop enc dec (Suc fuel) remaps cursor new_data =
     rbind (pb_read_next dec cursor) (\<lambda>(r, cursor').
       case r of
         None \<Rightarrow> Inr (remaps, new_data)
       | Some (entry, _) \<Rightarrow>
           let (remaps', entry') = patch_entry remaps entry in
           rbind (pb_write enc new_data entry') (\<lambda>(new_data', _).
             patch_loop enc dec fuel remaps' cursor' new_data'))"

text \<open>Collecting pairs into a hash map: the last pair of a key wins.\<close>

definition collect_map :: "(nat \<times> nat) list \<Rightarrow> (nat \<times> nat) list" where
  "collect_map kvs = fold (\<lambda>(k, v) m. AList.update k v m) kvs []"

definition patch_tcp_listen_remaps ::
  "('r file_entry \<Rightarrow> byte list) \<Rightarrow> (byte list \<Rightarrow> 'r file_entry option) \<Rightarrow> byte list
   \<Rightarrow> (nat \<times> nat) list \<Rightarrow> byte list res" where
  "patch_tcp_listen_remaps enc dec old_data tcp_listen_remaps =
     rbind (read_criu_img_header \<lparr>avail = old_data, broken = False\<rparr> FILES_MAGIC) (\<lambda>cursor.
     rbind (write_criu_img_header \<lparr>written = [], room = None\<rparr> FILES_MAGIC) (\<lambda>new_data.
     rbind (patch_loop enc dec (Suc (length (avail cursor))) (collect_map tcp_listen_remaps) cursor new_data)
       (\<lambda>(remaps, new_data').
          rbind (ensure (remaps = []) Remap_Not_Found) (\<lambda>_. Inr (written new_data')))))"

fun contents_data :: "file_content list \<Rightarrow> byte list" where
  "contents_data [] = []"
| "contents_data (Content b # cs) = mm_deref b @ contents_data cs"
| "contents_data (Fc_Eof # cs) = []"

definition patch_img ::
  "('r file_entry \<Rightarrow> byte list) \<Rightarrow> (byte list \<Rightarrow> 'r file_entry option) \<Rightarrow> file_content list
   \<Rightarrow> (nat \<times> nat) list \<Rightarrow> file_content list res" where
  "patch_img enc dec file_contents tcp_listen_remaps =
     rbind (patch_tcp_listen_remaps enc dec (contents_data file_contents) tcp_listen_remaps) (\<lambda>d.
     rbind (mm_with_capacity (length d)) (\<lambda>b0.
     rbind (mm_resize b0 (length d)) (\<lambda>b1.
     rbind (mm_fill b1 0 d) (\<lambda>b2. Inr [Content b2, Fc_Eof]))))"

section \<open>What patching does to a well-formed file\<close>

definition files_header :: "byte list" where
  "files_header = put_u32_le IMG_COMMON_MAGIC @ put_u32_le FILES_MAGIC"

definition files_bytes :: "('r file_entry \<Rightarrow> byte list) \<Rightarrow> 'r file_entry list \<Rightarrow> byte list" where
  "files_bytes enc es = files_header @ concat (map (frame enc) es)"

text \<open>The entries of the new file, and the remaps that found no listener.\<close>

fun patch_entries ::
  "(nat \<times> nat) list \<Rightarrow> 'r file_entry list \<Rightarrow> (nat \<times> nat) list \<times> 'r file_entry list" where
  "patch_entries remaps [] = (remaps, [])"
| "patch_entries remaps (entry # es) =
     (let (remaps', entry') = patch_entry remaps entry;
          (left, es') = patch_entries remaps' es in (left, entry' # es'))"

lemma read_header:
  "read_criu_img_header \<lparr>avail = files_header @ rest, broken = b\<rparr> FILES_MAGIC
   = Inr \<lparr>avail = rest, broken = b\<rparr>"
proof -
  have m: "IMG_COMMON_MAGIC < 2 ^ 32" "FILES_MAGIC < 2 ^ 32"
    by (simp_all add: IMG_COMMON_MAGIC_def FILES_MAGIC_def)
  have "get_u32_le files_header = Inr (IMG_COMMON_MAGIC, put_u32_le FILES_MAGIC)"
    "get_u32_le (put_u32_le FILES_MAGIC) = Inr (FILES_MAGIC, [])"
    using get_put_u32_le [OF m(1)] get_put_u32_le [OF m(2), of "[]"] by (simp_all add: files_header_def)
  moreover have "read_bytes_next \<lparr>avail = files_header @ rest, broken = b\<rparr> 8
      = Inr (Some files_header, \<lparr>avail = rest, broken = b\<rparr>)"
  proof -
    have "length files_header = 8" by (simp add: files_header_def)
    then show ?thesis by (auto simp: read_bytes_next_def)
  qed
  ultimately show ?thesis by (simp add: read_criu_img_header_def)
qed

lemma write_header: "write_criu_img_header \<lparr>written = [], room = None\<rparr> FILES_MAGIC
   = Inr \<lparr>written = files_header, room = None\<rparr>"
  by (simp add: write_criu_img_header_def write_all_def files_header_def)

lemma patch_loop_frames:
  assumes codec: "msg_codec enc dec ok"
  shows "\<forall>e \<in> set es. ok e \<Longrightarrow> \<forall>e \<in> set (snd (patch_entries remaps es)). ok e \<Longrightarrow> room w = None \<Longrightarrow>
    length (concat (map (frame enc) es)) < fuel \<Longrightarrow>
    patch_loop enc dec fuel remaps \<lparr>avail = concat (map (frame enc) es), broken = False\<rparr> w
    = Inr (fst (patch_entries remaps es),
           w\<lparr>written := written w @ concat (map (frame enc) (snd (patch_entries remaps es)))\<rparr>)"
proof (induction es arbitrary: remaps w fuel)
  case Nil
  then obtain fuel' where "fuel = Suc fuel'" by (cases fuel) auto
  then show ?case by (simp add: pb_read_next_eof)
next
  case (Cons x es)
  then obtain fuel' where f: "fuel = Suc fuel'" by (cases fuel) auto
  obtain remaps' x' where x: "patch_entry remaps x = (remaps', x')" by force
  obtain left es' where es: "patch_entries remaps' es = (left, es')" by force
  let ?w = "w\<lparr>written := written w @ frame enc x'\<rparr>"
  have "ok x" "ok x'" using Cons.prems(1,2) x es by simp_all
  note step = msg_codec.read_frame [OF codec this(1)] msg_codec.write_frame [OF codec this(2) Cons.prems(3)]
  have "patch_loop enc dec fuel' remaps' \<lparr>avail = concat (map (frame enc) es), broken = False\<rparr> ?w
      = Inr (left, ?w\<lparr>written := written ?w @ concat (map (frame enc) es')\<rparr>)"
    using Cons.IH [of remaps' ?w fuel'] Cons.prems x es f by simp
  with step f x es show ?case by simp
qed

lemma patch_remaps_spec:
  assumes codec: "msg_codec enc dec ok" and es: "\<forall>e \<in> set es. ok e"
    and patched: "patch_entries (collect_map remaps) es = (left, es')" "\<forall>e \<in> set es'. ok e"
  shows "patch_tcp_listen_remaps enc dec (files_bytes enc es) remaps
         = (if left = [] then Inr (files_bytes enc es') else Inl (Err Remap_Not_Found))"
proof -
  have "patch_loop enc dec (Suc (length (concat (map (frame enc) es)))) (collect_map remaps)
        \<lparr>avail = concat (map (frame enc) es), broken = False\<rparr> \<lparr>written = files_header, room = None\<rparr>
      = Inr (left, \<lparr>written = files_header @ concat (map (frame enc) es'), room = None\<rparr>)"
    by (subst patch_loop_frames [OF codec es]) (use patched in simp_all)
  then show ?thesis
    by (simp add: patch_tcp_listen_remaps_def files_bytes_def read_header write_header ensure_def
        del: patch_loop.simps rbind_Inr_iff)
qed

section \<open>Which entries change\<close>

definition listens_on :: "nat \<Rightarrow> 'r file_entry \<Rightarrow> bool" where
  "listens_on port entry \<longleftrightarrow>
     (\<exists>isk. fe_isk entry = Some isk \<and> is_listener isk \<and> sk_src_port isk mod 2 ^ 16 = port)"

definition with_port :: "nat \<Rightarrow> 'r file_entry \<Rightarrow> 'r file_entry" where
  "with_port p entry = entry\<lparr>fe_isk := map_option (\<lambda>isk. isk\<lparr>sk_src_port := p\<rparr>) (fe_isk entry)\<rparr>"

text \<open>
  The first listener on a remapped port is patched, and only that one: the remap is used up by
  then.
\<close>

lemma patch_entries_nth:
  "i < length es \<Longrightarrow>
   snd (patch_entries remaps es) ! i =
     (case fe_isk (es ! i) of
        None \<Rightarrow> es ! i
      | Some isk \<Rightarrow>
          let port = sk_src_port isk mod 2 ^ 16 in
          if is_listener isk \<and> (\<forall>j < i. \<not> listens_on port (es ! j))
          then (case map_of remaps port of None \<Rightarrow> es ! i | Some new \<Rightarrow> with_port new (es ! i))
          else es ! i)"
proof (induction es arbitrary: remaps i)
  case Nil
  then show ?case by simp
next
  case (Cons x es)
  obtain remaps' x' where x: "patch_entry remaps x = (remaps', x')" by force
  obtain left es' where es: "patch_entries remaps' es = (left, es')" by force
  show ?case
  proof (cases i)
    case 0
    with x es show ?thesis
      by (auto simp: patch_entry_def with_port_def Let_def split: option.splits if_splits)
  next
    case (Suc i')
    have gone: "map_of remaps' port = (if listens_on port x then None else map_of remaps port)" for port
      using x by (auto simp: patch_entry_def listens_on_def Let_def delete_conv' split: option.splits if_splits)
    have all: "(\<forall>j < Suc i'. \<not> listens_on port ((x # es) ! j))
        \<longleftrightarrow> \<not> listens_on port x \<and> (\<forall>j < i'. \<not> listens_on port (es ! j))" for port
      by (auto simp: less_Suc_eq_0_disj)
    have "snd (patch_entries remaps' es) ! i' = es' ! i'" using es by simp
    with Cons.IH [of i' remaps'] Cons.prems Suc x es show ?thesis
      by (auto simp: Let_def gone all split: option.split)
  qed
qed

section \<open>Properties\<close>


text \<open>Patching changes the port of an entry only when it is the first listening TCP socket on a
  remapped port; a second socket that listens on the same port keeps its old one.\<close>

theorem only_first_listener_patched:
  assumes "i < length es"
  shows "snd (patch_entries remaps es) ! i =
     (case fe_isk (es ! i) of
        None \<Rightarrow> es ! i
      | Some isk \<Rightarrow>
          let port = sk_src_port isk mod 2 ^ 16 in
          if is_listener isk \<and> (\<forall>j < i. \<not> listens_on port (es ! j))
          then (case map_of remaps port of None \<Rightarrow> es ! i | Some new \<Rightarrow> with_port new (es ! i))
          else es ! i)"
  by (rule patch_entries_nth [OF assms])

definition listener_entry :: "nat \<Rightarrow> unit file_entry" where
  "listener_entry port = \<lparr>fe_isk = Some \<lparr>sk_proto = IPPROTO_TCP, sk_state = TCP_LISTEN, sk_src_port = port\<rparr>,
                          fe_rest = ()\<rparr>"

theorem only_first_listener_patched_witness:
  "snd (patch_entries [(80, 8080)] [listener_entry 80, listener_entry 80])
   = [listener_entry 8080, listener_entry 80]"
proof -
  let ?es = "[listener_entry 80, listener_entry 80]"
  have "snd (patch_entries [(80, 8080)] ?es) ! 0 = listener_entry 8080"
    "snd (patch_entries [(80, 8080)] ?es) ! 1 = listener_entry 80"
    using only_first_listener_patched [of 0 ?es "[(80, 8080)]"] only_first_listener_patched [of 1 ?es "[(80, 8080)]"]
    by (simp_all add: listener_entry_def is_listener_def listens_on_def with_port_def)
  moreover have "length (snd (patch_entries [(80, 8080)] ?es)) = 2" by (simp add: Let_def split: prod.split)
  ultimately show ?thesis by (auto simp: length_Suc_conv numeral_2_eq_2)
qed

text \<open>Entries with one-byte ports, for the witness: the port, or nothing.\<close>

definition byte_port_enc :: "unit file_entry \<Rightarrow> byte list" where
  "byte_port_enc e = (case fe_isk e of None \<Rightarrow> [] | Some isk \<Rightarrow> [word_of_nat (sk_src_port isk)])"

definition byte_port_dec :: "byte list \<Rightarrow> unit file_entry option" where
  "byte_port_dec bs = (case bs of [b] \<Rightarrow> Some (listener_entry (unat b)) | _ \<Rightarrow> None)"

definition byte_port_ok :: "unit file_entry \<Rightarrow> bool" where
  "byte_port_ok e \<longleftrightarrow> (\<exists>p < 256. e = listener_entry p)"


text \<open>A file that does not start with the two magic numbers is rejected.\<close>

theorem wrong_header_rejected:
  assumes "m < 2 ^ 32" and "n < 2 ^ 32" and "m \<noteq> IMG_COMMON_MAGIC \<or> n \<noteq> FILES_MAGIC"
  shows "patch_tcp_listen_remaps enc dec (put_u32_le m @ put_u32_le n @ rest) remaps
         = Inl (Err Header_Corrupted)"
proof -
  have "read_bytes_next \<lparr>avail = put_u32_le m @ put_u32_le n @ rest, broken = False\<rparr> 8
      = Inr (Some (put_u32_le m @ put_u32_le n), \<lparr>avail = rest, broken = False\<rparr>)"
    using read_bytes_next_exact [of 8 "put_u32_le m @ put_u32_le n"] by simp
  with assms get_put_u32_le [OF assms(1)] get_put_u32_le [OF assms(2), of "[]"] show ?thesis
    by (auto simp: patch_tcp_listen_remaps_def read_criu_img_header_def ok_or_def ensure_def)
qed

theorem wrong_header_rejected_witness:
  "patch_tcp_listen_remaps byte_port_enc byte_port_dec (put_u32_le 1 @ put_u32_le 2 @ [7]) [] = Inl (Err Header_Corrupted)"
  by (rule wrong_header_rejected) (simp_all add: IMG_COMMON_MAGIC_def)

end
