(* ===== verification/Poller.thy ===== *)
theory Poller
  imports Prelude
begin

text \<open>
  The poller of \<open>src/poller.rs\<close>: a slab of registered descriptors with their objects, and the
  events of the last \<open>epoll_wait()\<close> not handed out yet. The slab crate and the kernel are
  parameters, in \<open>penv\<close>: the key of the next entry, whether an \<open>epoll_ctl()\<close> succeeds, and
  what each \<open>epoll_wait()\<close> reports (the keys of the ready descriptors; none is a time-out).
\<close>

record penv =
  vacant_key :: "nat list \<Rightarrow> nat"
  ctl_ok :: "nat \<Rightarrow> bool"                 \<comment> \<open>by the number of the call\<close>
  wait_ready :: "nat \<Rightarrow> nat list res"      \<comment> \<open>by the number of the call\<close>

record 'a poller =
  slab :: "(nat \<times> nat \<times> 'a) list"          \<comment> \<open>key, descriptor, object\<close>
  pending_events :: "nat list"
  ctls :: nat
  waits :: nat

definition poller_new :: "'a poller" where
  "poller_new = \<lparr>slab = [], pending_events = [], ctls = 0, waits = 0\<rparr>"

definition poller_add :: "penv \<Rightarrow> 'a poller \<Rightarrow> nat \<Rightarrow> 'a \<Rightarrow> ('a poller \<times> nat) res" where
  "poller_add pe p fd obj =
     (let key = vacant_key pe (map fst (slab p)) in
      rbind (ensure (ctl_ok pe (ctls p)) Io_Error) (\<lambda>_.
        Inr (p\<lparr>slab := AList.update key (fd, obj) (slab p), ctls := Suc (ctls p)\<rparr>, key)))"

definition poller_remove :: "penv \<Rightarrow> 'a poller \<Rightarrow> nat \<Rightarrow> ('a poller \<times> 'a) res" where
  "poller_remove pe p key =
     (case map_of (slab p) key of
        None \<Rightarrow> Inl (Panic Key_Invalid)
      | Some (fd, obj) \<Rightarrow>
          rbind (ensure (ctl_ok pe (ctls p)) Io_Error) (\<lambda>_.
            Inr (p\<lparr>slab := AList.delete key (slab p), ctls := Suc (ctls p)\<rparr>, obj)))"

text \<open>
  \<open>poll\<close> returns the object by mutable reference; the caller writes it back with
  \<open>poller_set\<close>.
\<close>

definition poller_poll :: "penv \<Rightarrow> 'a poller \<Rightarrow> nat \<Rightarrow> ((nat \<times> 'a) option \<times> 'a poller) res" where
  "poller_poll pe p capacity =
     (if slab p = [] then Inr (None, p)
      else
        rbind (if pending_events p = [] then
                 rbind (wait_ready pe (waits p)) (\<lambda>ready.
                   Inr (p\<lparr>pending_events := take capacity ready, waits := Suc (waits p)\<rparr>))
               else Inr p) (\<lambda>p1.
        if pending_events p1 = [] then Inr (None, p1)
        else
          let key = last (pending_events p1) in
          case map_of (slab p1) key of
            None \<Rightarrow> Inl (Panic Key_Invalid)
          | Some (fd, obj) \<Rightarrow>
              Inr (Some (key, obj), p1\<lparr>pending_events := butlast (pending_events p1)\<rparr>)))"

definition poller_set :: "'a poller \<Rightarrow> nat \<Rightarrow> 'a \<Rightarrow> 'a poller" where
  "poller_set p key obj =
     (case map_of (slab p) key of
        None \<Rightarrow> p
      | Some (fd, _) \<Rightarrow> p\<lparr>slab := AList.update key (fd, obj) (slab p)\<rparr>)"

section \<open>What the poller keeps\<close>

text \<open>The object under each key.\<close>

definition registered :: "'a poller \<Rightarrow> nat \<Rightarrow> 'a option" where
  "registered p key = map_option snd (map_of (slab p) key)"

text \<open>
  The documented behaviour of the slab and of epoll: a vacant key is free, and only registered
  keys are reported.
\<close>

definition slab_ok :: "penv \<Rightarrow> bool" where
  "slab_ok pe \<longleftrightarrow> (\<forall>ks. vacant_key pe ks \<notin> set ks)"

definition no_stale :: "'a poller \<Rightarrow> bool" where
  "no_stale p \<longleftrightarrow> (\<forall>k \<in> set (pending_events p). registered p k \<noteq> None)"

lemma registered_new [simp]: "registered poller_new k = None"
  by (simp add: registered_def poller_new_def)

lemma vacant_key_free: "slab_ok pe \<Longrightarrow> map_of al (vacant_key pe (map fst al)) = None"
  by (simp add: slab_ok_def map_of_eq_None_iff flip: set_map)

lemma poller_add_Inr:
  "poller_add pe p fd obj = Inr (p', key) \<Longrightarrow> slab_ok pe \<Longrightarrow>
   registered p key = None \<and> registered p' = (registered p)(key \<mapsto> obj)
   \<and> pending_events p' = pending_events p"
  by (auto simp: poller_add_def Let_def registered_def update_conv' fun_eq_iff vacant_key_free)

lemma poller_remove_Inr:
  "poller_remove pe p key = Inr (p', obj) \<Longrightarrow>
   registered p key = Some obj \<and> registered p' = (registered p)(key := None)
   \<and> pending_events p' = pending_events p"
  by (auto simp: poller_remove_def registered_def delete_conv' fun_eq_iff split: option.splits)

lemma poller_set_registered:
  "registered (poller_set p key obj) = (if registered p key = None then registered p else (registered p)(key \<mapsto> obj))"
  by (auto simp: poller_set_def registered_def update_conv' fun_eq_iff split: option.splits)

lemma poller_poll_Inr:
  "poller_poll pe p c = Inr (Some (key, obj), p') \<Longrightarrow>
   registered p key = Some obj \<and> registered p' = registered p \<and> slab p' = slab p"
  by (auto simp: poller_poll_def Let_def registered_def split: if_splits option.splits)

lemma poller_poll_None: "poller_poll pe p c = Inr (None, p') \<Longrightarrow> slab p' = slab p"
  by (auto simp: poller_poll_def Let_def split: if_splits option.splits)

lemma registered_nothing: "slab p = [] \<Longrightarrow> registered p k = None"
  by (simp add: registered_def)

text \<open>A poll without a time-out waits: it returns nothing only when nothing is registered.\<close>

lemma poller_poll_empty:
  assumes r: "poller_poll pe p c = Inr (None, p')" and w: "\<forall>i. wait_ready pe i \<noteq> Inr []" and c: "0 < c"
  shows "slab p = []"
proof (rule ccontr)
  assume ne: "slab p \<noteq> []"
  with r obtain p1 where p1: "(if pending_events p = [] then rbind (wait_ready pe (waits p)) (\<lambda>ready.
        Inr (p\<lparr>pending_events := take c ready, waits := Suc (waits p)\<rparr>)) else Inr p) = Inr p1"
    and rest: "(if pending_events p1 = [] then Inr (None, p1) else
          let key = last (pending_events p1) in
          case map_of (slab p1) key of
            None \<Rightarrow> Inl (Panic Key_Invalid)
          | Some (fd, obj) \<Rightarrow>
              Inr (Some (key, obj), p1\<lparr>pending_events := butlast (pending_events p1)\<rparr>)) = Inr (None, p')"
    by (auto simp: poller_poll_def)
  have "pending_events p1 \<noteq> []"
    using p1 w c by (cases "wait_ready pe (waits p)") (auto split: if_splits)
  with rest show False by (auto simp: Let_def split: option.splits)
qed

text \<open>A stale event: the key it carries has been removed since it was reported.\<close>

lemma poller_poll_stale:
  assumes "pending_events p = ks @ [key]" and "registered p key = None" and "slab p \<noteq> []"
  shows "poller_poll pe p c = Inl (Panic Key_Invalid)"
  using assms by (auto simp: poller_poll_def registered_def split: option.splits)

text \<open>Without a removal in between no event is stale.\<close>

lemma poller_poll_fresh:
  assumes stale: "no_stale p"
    and wait: "\<forall>ready. wait_ready pe (waits p) = Inr ready \<longrightarrow> (\<forall>k \<in> set ready. registered p k \<noteq> None)"
    and fail: "wait_ready pe (waits p) \<noteq> Inl (Panic Key_Invalid)"
  shows "holds_or (\<lambda>e. e \<noteq> Panic Key_Invalid) (poller_poll pe p c) (\<lambda>(x, p'). no_stale p')"
proof (cases "slab p = []")
  case True
  with stale show ?thesis by (simp add: poller_poll_def)
next
  case False
  let ?wait = "if pending_events p = [] then rbind (wait_ready pe (waits p)) (\<lambda>ready.
                   Inr (p\<lparr>pending_events := take c ready, waits := Suc (waits p)\<rparr>)) else Inr p"
  have "holds_or (\<lambda>e. e \<noteq> Panic Key_Invalid) ?wait (\<lambda>p1. no_stale p1 \<and> slab p1 = slab p)"
    using stale wait fail
    by (cases "wait_ready pe (waits p)") (auto simp: no_stale_def registered_def dest: in_set_takeD)
  with False show ?thesis
    unfolding poller_poll_def
  proof (simp only: if_False, elim holds_or_bind, goal_cases)
    case (1 p1)
    show ?case
    proof (cases "pending_events p1 = []")
      case True
      with 1 show ?thesis by simp
    next
      case ne: False
      with 1 obtain fd obj where "map_of (slab p1) (last (pending_events p1)) = Some (fd, obj)"
        by (force simp: no_stale_def registered_def)
      with 1 ne show ?thesis
        by (auto simp: no_stale_def registered_def dest: in_set_butlastD)
    qed
  qed
qed

lemma no_stale_add: "poller_add pe p fd obj = Inr (p', key) \<Longrightarrow> slab_ok pe \<Longrightarrow> no_stale p \<Longrightarrow> no_stale p'"
  by (auto simp: no_stale_def dest: poller_add_Inr)

section \<open>Properties\<close>

text \<open>An object that is removed while an event for it is still waiting takes the process down: the
  next \<open>poll\<close> looks the key up and panics. \<open>remove\<close> does not drop the events of its key.\<close>

theorem removed_event_panics:
  assumes "poller_remove pe p key = Inr (p', obj)" and "pending_events p = ks @ [key]"
    and "registered p other \<noteq> None" and "other \<noteq> key"
  shows "poller_poll pe p' c = Inl (Panic Key_Invalid)"
proof (rule poller_poll_stale [of _ ks key])
  note r = poller_remove_Inr [OF assms(1)]
  show "pending_events p' = ks @ [key]" "registered p' key = None" using r assms(2) by simp_all
  have "registered p' other \<noteq> None" using r assms(3,4) by simp
  then show "slab p' \<noteq> []" by (auto simp: registered_def)
qed

definition two_ready :: "string poller" where
  "two_ready = \<lparr>slab = [(0, 3, ''listener''), (1, 4, ''client'')], pending_events = [0], ctls = 2, waits = 1\<rparr>"

theorem removed_event_panics_witness:
  "poller_poll \<lparr>vacant_key = length, ctl_ok = (\<lambda>_. True), wait_ready = (\<lambda>_. Inr [])\<rparr>
     (two_ready\<lparr>slab := [(1, 4, ''client'')], ctls := 3\<rparr>) 16 = Inl (Panic Key_Invalid)"
proof -
  let ?pe = "\<lparr>vacant_key = length, ctl_ok = (\<lambda>_. True), wait_ready = (\<lambda>_. Inr [])\<rparr>"
  have "poller_remove ?pe two_ready 0
      = Inr (two_ready\<lparr>slab := [(1, 4, ''client'')], ctls := 3\<rparr>, ''listener'')"
    by (simp add: poller_remove_def two_ready_def)
  from removed_event_panics [OF this, of "[]" 1 16]
  show ?thesis by (simp add: two_ready_def registered_def)
qed

end
