(* ===== verification/Connection.thy ===== *)
theory Connection
  imports Unix_Pipe
begin

text \<open>
  The client's socket: \<open>src/connection.rs\<close>, with \<open>recv_fd\<close> of \<open>src/util.rs\<close> and
  \<open>UnixPipe::new\<close>. The messages are generated from CRIU's protobuf files; a request is its file
  name, a reply is the two fields it is built from. Their codecs are parameters. A descriptor that
  arrives with the socket's control messages is a \<open>'p fd_obj\<close>: a pipe, or something else.
\<close>

datatype file_status = DoesNotExist | Ready | NotReady

record reply =
  re_exists :: bool
  re_status :: file_status

datatype 'p fd_obj = Fd_Pipe 'p | Fd_Other | Fd_Stat_Fails

record 'p connection =
  sock_in :: reader
  sock_fds :: "'p fd_obj list list"       \<comment> \<open>the descriptors of each control message to come\<close>
  sock_out :: sink

record cenc =
  req_dec :: "byte list \<Rightarrow> string option"
  reply_enc :: "reply \<Rightarrow> byte list"
  list_enc :: "string list \<Rightarrow> byte list"

definition read_next_file_request ::
  "cenc \<Rightarrow> 'p connection \<Rightarrow> (string option \<times> 'p connection) res" where
  "read_next_file_request ce c =
     rbind (pb_read_next (req_dec ce) (sock_in c)) (\<lambda>(r, src).
       Inr (map_option fst r, c\<lparr>sock_in := src\<rparr>))"

text \<open>\<open>recv_fd\<close>: one control message with one descriptor. An empty queue is the peer's EOF.\<close>

definition recv_fd :: "'p connection \<Rightarrow> ('p fd_obj \<times> 'p connection) res" where
  "recv_fd c =
     (case sock_fds c of
        [] \<Rightarrow> Inl (Err No_Fd_Received)
      | fds # rest \<Rightarrow>
          (case fds of
             [fd] \<Rightarrow> Inr (fd, c\<lparr>sock_fds := rest\<rparr>)
           | _ \<Rightarrow> Inl (Err No_Fd_Received)))"

definition unix_pipe_new :: "'p fd_obj \<Rightarrow> 'p res" where
  "unix_pipe_new fd =
     (case fd of
        Fd_Stat_Fails \<Rightarrow> Inl (Err Io_Error)
      | Fd_Other \<Rightarrow> Inl (Err Not_A_Pipe)
      | Fd_Pipe p \<Rightarrow> Inr p)"

definition recv_pipe :: "'p connection \<Rightarrow> ('p \<times> 'p connection) res" where
  "recv_pipe c = rbind (recv_fd c) (\<lambda>(fd, c'). rbind (unix_pipe_new fd) (\<lambda>p. Inr (p, c')))"

definition send_file_reply ::
  "cenc \<Rightarrow> 'p connection \<Rightarrow> bool \<Rightarrow> file_status option \<Rightarrow> 'p connection res" where
  "send_file_reply ce c exst st =
     (let status = (case st of None \<Rightarrow> if \<not> exst then DoesNotExist else Ready | Some s \<Rightarrow> s) in
      rbind (pb_write (reply_enc ce) (sock_out c) \<lparr>re_exists = exst, re_status = status\<rparr>) (\<lambda>(out, _).
        Inr (c\<lparr>sock_out := out\<rparr>)))"

definition send_file_list_reply :: "cenc \<Rightarrow> 'p connection \<Rightarrow> string list \<Rightarrow> 'p connection res" where
  "send_file_list_reply ce c fls =
     rbind (pb_write (list_enc ce) (sock_out c) fls) (\<lambda>(out, _). Inr (c\<lparr>sock_out := out\<rparr>))"

text \<open>A client that has closed its end: the next request is \<open>None\<close>, again and again.\<close>

definition hung_up :: "'p connection \<Rightarrow> bool" where
  "hung_up c \<longleftrightarrow> avail (sock_in c) = [] \<and> \<not> broken (sock_in c)"

lemma read_request_hung_up: "hung_up c \<Longrightarrow> read_next_file_request ce c = Inr (None, c)"
  by (cases "sock_in c") (simp add: hung_up_def read_next_file_request_def pb_read_next_def
      read_bytes_next_def take_read_to_end_def)

lemma read_request_keeps:
  "read_next_file_request ce c = Inr (r, c') \<Longrightarrow> sock_fds c' = sock_fds c \<and> sock_out c' = sock_out c"
  by (auto simp: read_next_file_request_def)

end
