(* ===== verification/Serve.thy ===== *)
theory Serve
  imports Image_Patcher Poller Connection
begin

text \<open>
  \<open>serve_img\<close> of \<open>src/extract.rs\<close>: the thread that hands the image to the client while the
  deserializing thread is still receiving it. It keeps the chunks that have arrived and were not
  asked for yet, and the pipes of the files it is sending.

  \<open>serve_env\<close> is what comes from outside: the messages that \<open>try_recv\<close> finds on the channel in
  each round (with \<open>True\<close> when it ends in \<open>Disconnected\<close>), the connections \<open>accept\<close> returns,
  the poller's and codecs' environments and the kernel's \<open>vmsplice\<close> offers. Amounts released to
  the semaphore are collected in \<open>sv_released\<close>; the other thread sees them in its own
  environment (see \<open>Parallel_Store\<close>). Pipes that have been closed stay in \<open>closed_pipes\<close>: the
  client holds their other end. The outcome of \<open>set_capacity\<close> is ignored by the code.
\<close>

section \<open>State\<close>

record serve_env =
  sv_rx :: regex
  sv_poll :: penv
  sv_codec :: cenc
  sv_recv :: "nat \<Rightarrow> channel \<times> bool"
  sv_bind :: "nat res"                                   \<comment> \<open>the listening socket\<close>
  sv_accept :: "nat \<Rightarrow> (nat \<times> sink connection) res"     \<comment> \<open>by the number of the call\<close>
  sv_splice :: "nat \<Rightarrow> nat \<Rightarrow> nat"                       \<comment> \<open>call number, iteration\<close>

datatype poll_type = Listener | Client "sink connection"

type_synonym chunk_store = "(string \<times> file_content list) list"

record serve_state =
  sv_store :: chunk_store
  sv_poller :: "poll_type poller"
  listener_key :: nat
  filenames_of_sent_files :: "string list"
  reciever_eof :: bool
  open_pipes :: "(string \<times> sink) list"
  stopped :: bool
  closed_pipes :: "(string \<times> sink) list"
  sv_released :: "int list"
  recvs :: nat
  accepts :: nat
  sends :: nat

definition chunks_of :: "chunk_store \<Rightarrow> string \<Rightarrow> file_content list" where
  "chunks_of store n = (case map_of store n of None \<Rightarrow> [] | Some cs \<Rightarrow> cs)"

text \<open>\<open>store.entry(filename).or_default().push_back(buf)\<close>\<close>

definition store_push :: "chunk_store \<Rightarrow> string \<times> file_content \<Rightarrow> chunk_store" where
  "store_push store msg = AList.update (fst msg) (chunks_of store (fst msg) @ [snd msg]) store"

section \<open>Sending\<close>

fun send_over_chunks ::
  "serve_env \<Rightarrow> string \<Rightarrow> file_content list \<Rightarrow> sink \<Rightarrow> int list \<Rightarrow> nat
   \<Rightarrow> (bool \<times> sink \<times> int list \<times> nat) res" where
  "send_over_chunks env filename [] pipe rel i = Inr (False, pipe, rel, i)"
| "send_over_chunks env filename (Fc_Eof # chunks) pipe rel i = Inr (True, pipe, rel, i)"
| "send_over_chunks env filename (Content chunk # chunks) pipe rel i =
     rbind (vmsplice_all (sv_splice env i) pipe (mm_deref chunk)) (\<lambda>pipe'.
     rbind (is_small_file (sv_rx env) filename) (\<lambda>small.
       send_over_chunks env filename chunks pipe'
         (if small then rel else rel @ [int (length (mm_deref chunk))]) (Suc i)))"

text \<open>
  One pass over the open pipes: what has arrived for each is sent, and the pipes that reached the
  end of their file are closed. The result: the pipes still open, those closed, the store.
\<close>

fun send_open_pipes ::
  "serve_env \<Rightarrow> (string \<times> sink) list \<Rightarrow> chunk_store \<Rightarrow> int list \<Rightarrow> nat
   \<Rightarrow> ((string \<times> sink) list \<times> (string \<times> sink) list \<times> chunk_store \<times> int list \<times> nat) res" where
  "send_open_pipes env [] store rel i = Inr ([], [], store, rel, i)"
| "send_open_pipes env ((filename, pipe) # ps) store rel i =
     (case map_of store filename of
        None \<Rightarrow>
          rbind (send_open_pipes env ps store rel i) (\<lambda>(still, done, rest).
            Inr ((filename, pipe) # still, done, rest))
      | Some chunks \<Rightarrow>
          rbind (send_over_chunks env filename chunks pipe rel i) (\<lambda>(sent_all, pipe', rel', i').
          rbind (send_open_pipes env ps (AList.delete filename store) rel' i') (\<lambda>(still, done, rest).
            if sent_all then Inr (still, (filename, pipe') # done, rest)
            else Inr ((filename, pipe') # still, done, rest))))"

section \<open>One round of the loop\<close>

definition receive_chunks :: "serve_env \<Rightarrow> serve_state \<Rightarrow> serve_state" where
  "receive_chunks env st =
     (if reciever_eof st then st
      else let (msgs, disconnected) = sv_recv env (recvs st) in
        st\<lparr>sv_store := foldl store_push (sv_store st) msgs, reciever_eof := disconnected,
           recvs := Suc (recvs st)\<rparr>)"

definition pump :: "serve_env \<Rightarrow> serve_state \<Rightarrow> serve_state res" where
  "pump env st =
     rbind (send_open_pipes env (open_pipes st) (sv_store st) (sv_released st) (sends st))
       (\<lambda>(still, done, store, rel, i).
          Inr (st\<lparr>open_pipes := still, closed_pipes := closed_pipes st @ done, sv_store := store,
                  sv_released := rel, sends := i\<rparr>))"

text \<open>A request for one file.\<close>

definition set_client :: "nat \<Rightarrow> sink connection \<Rightarrow> serve_state \<Rightarrow> serve_state" where
  "set_client key c st = st\<lparr>sv_poller := poller_set (sv_poller st) key (Client c)\<rparr>"

definition serve_file_request ::
  "serve_env \<Rightarrow> string list \<Rightarrow> nat \<Rightarrow> sink connection \<Rightarrow> string \<Rightarrow> serve_state \<Rightarrow> serve_state res" where
  "serve_file_request env file_list key client filename st =
     (if filename \<notin> set file_list then
        rbind (send_file_reply (sv_codec env) client False (Some DoesNotExist)) (\<lambda>c.
          Inr (set_client key c st))
      else
        case map_of (sv_store st) filename of
          Some chunks \<Rightarrow>
            let st1 = st\<lparr>sv_store := AList.delete filename (sv_store st),
                        filenames_of_sent_files := List.insert filename (filenames_of_sent_files st)\<rparr> in
            rbind (send_file_reply (sv_codec env) client True (Some Ready)) (\<lambda>c1.
            rbind (recv_pipe c1) (\<lambda>(pipe, c2).
            rbind (send_over_chunks env filename chunks pipe (sv_released st1) (sends st1))
              (\<lambda>(sent_all, pipe', rel, i).
                 let st2 = set_client key c2 (st1\<lparr>sv_released := rel, sends := i\<rparr>) in
                 if sent_all then Inr (st2\<lparr>closed_pipes := closed_pipes st2 @ [(filename, pipe')]\<rparr>)
                 else Inr (st2\<lparr>open_pipes := open_pipes st2 @ [(filename, pipe')]\<rparr>))))
        | None \<Rightarrow>
            if filename \<in> set file_list \<and> filename \<notin> set (filenames_of_sent_files st) then
              rbind (send_file_reply (sv_codec env) client True (Some NotReady)) (\<lambda>c.
                Inr (set_client key c st))
            else
              rbind (ensure (filename \<notin> set (filenames_of_sent_files st) \<and> filename \<notin> set file_list)
                       Requested_Twice) (\<lambda>_.
              rbind (send_file_reply (sv_codec env) client False (Some DoesNotExist)) (\<lambda>c.
                Inr (set_client key c st))))"

text \<open>An event on a client's socket; \<open>True\<close> ends the loop.\<close>

definition serve_client ::
  "serve_env \<Rightarrow> string list \<Rightarrow> nat \<Rightarrow> sink connection \<Rightarrow> serve_state \<Rightarrow> (serve_state \<times> bool) res" where
  "serve_client env file_list key client st =
     rbind (read_next_file_request (sv_codec env) client) (\<lambda>(req, c).
     let st1 = set_client key c st in
     case req of
       None \<Rightarrow> Inr (st1, False)
     | Some filename \<Rightarrow>
         if filename = ''stop-listener'' then
           rbind (poller_remove (sv_poll env) (sv_poller st1) (listener_key st1)) (\<lambda>(p, _).
             let st2 = st1\<lparr>stopped := True, sv_poller := p\<rparr> in
             Inr (st2, open_pipes st2 = []))
         else if CHR ''*'' \<in> set filename \<or> filename = [] then
           rbind (send_file_list_reply (sv_codec env) c (filter_files (sv_rx env) file_list filename))
             (\<lambda>c'. Inr (set_client key c' st1, False))
         else
           rbind (serve_file_request env file_list key c filename st1) (\<lambda>st2. Inr (st2, False)))"

definition serve_round ::
  "serve_env \<Rightarrow> string list \<Rightarrow> serve_state \<Rightarrow> (serve_state \<times> bool) res" where
  "serve_round env file_list st =
     rbind (pump env (receive_chunks env st)) (\<lambda>st1.
     rbind (poller_poll (sv_poll env) (sv_poller st1) 16) (\<lambda>(obj, p).
     let st2 = st1\<lparr>sv_poller := p\<rparr> in
     case obj of
       None \<Rightarrow> Inr (st2, stopped st2 \<and> open_pipes st2 = [])
     | Some (key, Listener) \<Rightarrow>
         rbind (sv_accept env (accepts st2)) (\<lambda>(fd, conn).
         rbind (poller_add (sv_poll env) (sv_poller st2) fd (Client conn)) (\<lambda>(p', _).
           Inr (st2\<lparr>sv_poller := p', accepts := Suc (accepts st2)\<rparr>, False)))
     | Some (key, Client client) \<Rightarrow> serve_client env file_list key client st2))"

fun serve_loop :: "serve_env \<Rightarrow> string list \<Rightarrow> nat \<Rightarrow> serve_state \<Rightarrow> serve_state res" where
  "serve_loop env file_list 0 st = Inl Diverge"
| "serve_loop env file_list (Suc fuel) st =
     rbind (serve_round env file_list st) (\<lambda>(st', finished).
       if finished then Inr st' else serve_loop env file_list fuel st')"

section \<open>The whole function\<close>

definition patch_store ::
  "('r file_entry \<Rightarrow> byte list) \<Rightarrow> (byte list \<Rightarrow> 'r file_entry option) \<Rightarrow> (nat \<times> nat) list
   \<Rightarrow> chunk_store \<Rightarrow> chunk_store res" where
  "patch_store fenc fdec tcp_listen_remaps store =
     (if tcp_listen_remaps \<noteq> [] then
        (case map_of store ''files.img'' of
           None \<Rightarrow> Inr store
         | Some files_img \<Rightarrow>
             rbind (patch_img fenc fdec files_img tcp_listen_remaps) (\<lambda>new_files_img.
               Inr (AList.update ''files.img'' new_files_img (AList.delete ''files.img'' store))))
      else Inr store)"

definition serve_start :: "chunk_store \<Rightarrow> poll_type poller \<Rightarrow> nat \<Rightarrow> serve_state" where
  "serve_start store p key =
     \<lparr>sv_store = store, sv_poller = p, listener_key = key, filenames_of_sent_files = [],
      reciever_eof = False, open_pipes = [], stopped = False, closed_pipes = [], sv_released = [],
      recvs = 0, accepts = 0, sends = 0\<rparr>"

definition serve_img ::
  "('r file_entry \<Rightarrow> byte list) \<Rightarrow> (byte list \<Rightarrow> 'r file_entry option) \<Rightarrow> serve_env \<Rightarrow> nat \<Rightarrow> channel
   \<Rightarrow> string list \<Rightarrow> (nat \<times> nat) list \<Rightarrow> serve_state res" where
  "serve_img fenc fdec env fuel small_msgs file_list tcp_listen_remaps =
     rbind (patch_store fenc fdec tcp_listen_remaps (foldl store_push [] small_msgs)) (\<lambda>store.
     rbind (sv_bind env) (\<lambda>fd.
     rbind (poller_add (sv_poll env) poller_new fd Listener) (\<lambda>(p, key).
       serve_loop env file_list fuel (serve_start store p key))))"

end
