(* ===== verification/Serve_Flow.thy ===== *)
theory Serve_Flow
  imports Serve
begin

text \<open>
  What the serving thread sends: every pipe the client hands over gets, in order, the messages that
  arrive for its file, and when it is closed it has got everything up to the end of the file. The
  invariant \<open>pipe_flow\<close> says where each message is; every step of the loop keeps it.
\<close>

section \<open>Where the bytes are\<close>

text \<open>
  \<open>ms n\<close>: the messages for the file \<open>n\<close> so far. As long as no file has got a second pipe, an open
  pipe holds a part of them and the store the rest, a closed pipe holds everything up to the end
  of the file, and the messages of the other files are in the store.
\<close>

definition pipe_flow ::
  "(string \<Rightarrow> file_content list) \<Rightarrow> chunk_store \<Rightarrow> (string \<times> sink) list \<Rightarrow> (string \<times> sink) list \<Rightarrow> bool" where
  "pipe_flow ms store opn cls \<longleftrightarrow>
     (distinct (map fst (opn @ cls)) \<longrightarrow>
       (\<forall>(n, p) \<in> set opn. \<exists>pre. ms n = pre @ chunks_of store n \<and> Fc_Eof \<notin> set pre
                                 \<and> written p = bytes_of pre)
       \<and> (\<forall>(n, p) \<in> set cls. Fc_Eof \<in> set (ms n) \<and> written p = bytes_of (upto_eof (ms n)))
       \<and> (\<forall>n. n \<notin> fst ` set (opn @ cls) \<longrightarrow> ms n = chunks_of store n))"

definition more_msgs :: "(string \<Rightarrow> file_content list) \<Rightarrow> channel \<Rightarrow> string \<Rightarrow> file_content list" where
  "more_msgs ms ch n = ms n @ msgs_for n ch"

lemma chunks_of_push: "chunks_of (store_push store (m, c)) n = chunks_of store n @ msgs_for n [(m, c)]"
  by (simp add: chunks_of_def store_push_def update_conv')

lemma chunks_of_fold: "chunks_of (foldl store_push store ch) n = chunks_of store n @ msgs_for n ch"
proof (induction ch arbitrary: store)
  case (Cons x ch)
  then show ?case by (cases x) (simp add: chunks_of_push)
qed simp

lemma chunks_of_delete: "chunks_of (AList.delete m store) n = (if m = n then [] else chunks_of store n)"
  by (simp add: chunks_of_def delete_conv')

lemma pipe_flow_receive:
  assumes "pipe_flow ms store opn cls"
  shows "pipe_flow (more_msgs ms ch) (foldl store_push store ch) opn cls"
  using assms unfolding pipe_flow_def more_msgs_def chunks_of_fold
  by (fastforce simp: upto_eof_append)

lemma send_over_chunks_Inr:
  "send_over_chunks env n cs p rel i = Inr (sent_all, p', rel', i') \<Longrightarrow>
   written p' = written p @ bytes_of (upto_eof cs) \<and> (sent_all \<longleftrightarrow> Fc_Eof \<in> set cs)"
proof (induction env n cs p rel i rule: send_over_chunks.induct)
  case (3 env n chunk chunks p rel i)
  then obtain p1 small where v: "vmsplice_all (sv_splice env i) p (mm_deref chunk) = Inr p1"
    and sm: "is_small_file (sv_rx env) n = Inr small" by auto
  from 3 v sm have "written p' = written p1 @ bytes_of (upto_eof chunks) \<and> (sent_all \<longleftrightarrow> Fc_Eof \<in> set chunks)"
    by (auto split: if_splits)
  moreover have "written p1 = written p @ mm_deref chunk" using v by (rule vmsplice_all_written)
  ultimately show ?case by (simp add: upto_eof_def)
qed (simp_all add: upto_eof_def)

lemma send_open_pipes_names:
  "send_open_pipes env ps store rel i = Inr (still, done, store', rel', i') \<Longrightarrow>
   mset (map fst still) + mset (map fst done) = mset (map fst ps)"
  by (induction env ps store rel i arbitrary: still "done" store' rel' i' rule: send_open_pipes.induct)
    (fastforce split: option.splits if_splits)+

lemma send_open_pipes_Inr:
  "send_open_pipes env ps store rel i = Inr (still, done, store', rel', i') \<Longrightarrow> distinct (map fst ps) \<Longrightarrow>
   (\<forall>(n, p') \<in> set still. \<exists>p. (n, p) \<in> set ps \<and> Fc_Eof \<notin> set (chunks_of store n)
        \<and> written p' = written p @ bytes_of (chunks_of store n))
   \<and> (\<forall>(n, p') \<in> set done. \<exists>p. (n, p) \<in> set ps \<and> Fc_Eof \<in> set (chunks_of store n)
        \<and> written p' = written p @ bytes_of (upto_eof (chunks_of store n)))
   \<and> (\<forall>n. chunks_of store' n = (if n \<in> fst ` set ps then [] else chunks_of store n))"
proof (induction ps arbitrary: store rel i still "done" store' rel' i')
  case Nil
  then show ?case by simp
next
  case (Cons x ps)
  obtain n p where x: "x = (n, p)" by force
  have n: "n \<notin> fst ` set ps" using Cons.prems(2) x by simp
  show ?case
  proof (cases "map_of store n")
    case None
    with Cons.prems x obtain still1 where r: "send_open_pipes env ps store rel i = Inr (still1, done, store', rel', i')"
      and still: "still = (n, p) # still1" by auto
    have "chunks_of store n = []" using None by (simp add: chunks_of_def)
    with Cons.IH [OF r] Cons.prems(2) still x n show ?thesis by fastforce
  next
    case (Some cs)
    with Cons.prems x obtain all p1 rel1 i1 still1 done1 where
      s: "send_over_chunks env n cs p rel i = Inr (all, p1, rel1, i1)"
      and r: "send_open_pipes env ps (AList.delete n store) rel1 i1 = Inr (still1, done1, store', rel', i')"
      and out: "still = (if all then still1 else (n, p1) # still1)" "done = (if all then (n, p1) # done1 else done1)"
      by (auto split: if_splits)
    have cs: "chunks_of store n = cs" using Some by (simp add: chunks_of_def)
    note p1 = send_over_chunks_Inr [OF s]
    have d: "distinct (map fst ps)" using Cons.prems(2) by simp
    have keep: "\<exists>q. (m, q) \<in> set (x # ps) \<and> A q m (chunks_of store m)"
      if "\<exists>q. (m, q) \<in> set ps \<and> A q m (chunks_of (AList.delete n store) m)" for A m
      using that n by (auto simp: chunks_of_delete split: if_splits) force
    note IH = Cons.IH [OF r d]
    have "\<exists>q. (m, q) \<in> set (x # ps) \<and> Fc_Eof \<notin> set (chunks_of store m)
              \<and> written q' = written q @ bytes_of (chunks_of store m)" if "(m, q') \<in> set still" for m q'
    proof (cases "\<not> all \<and> (m, q') = (n, p1)")
      case True
      then show ?thesis using p1 cs x by (auto simp: upto_eof_none)
    next
      case False
      with that out have "(m, q') \<in> set still1" by (auto split: if_splits)
      with IH have "\<exists>q. (m, q) \<in> set ps \<and> Fc_Eof \<notin> set (chunks_of (AList.delete n store) m)
          \<and> written q' = written q @ bytes_of (chunks_of (AList.delete n store) m)" by blast
      then show ?thesis by (rule keep)
    qed
    moreover have "\<exists>q. (m, q) \<in> set (x # ps) \<and> Fc_Eof \<in> set (chunks_of store m)
              \<and> written q' = written q @ bytes_of (upto_eof (chunks_of store m))" if "(m, q') \<in> set done" for m q'
    proof (cases "all \<and> (m, q') = (n, p1)")
      case True
      then show ?thesis using p1 cs x by auto
    next
      case False
      with that out have "(m, q') \<in> set done1" by (auto split: if_splits)
      with IH have "\<exists>q. (m, q) \<in> set ps \<and> Fc_Eof \<in> set (chunks_of (AList.delete n store) m)
          \<and> written q' = written q @ bytes_of (upto_eof (chunks_of (AList.delete n store) m))" by blast
      then show ?thesis by (rule keep)
    qed
    moreover have "chunks_of store' m = (if m \<in> fst ` set (x # ps) then [] else chunks_of store m)" for m
      using IH x by (auto simp: chunks_of_delete)
    ultimately show ?thesis by blast
  qed
qed

lemma pipe_flow_pump:
  assumes flow: "pipe_flow ms store opn cls"
    and r: "send_open_pipes env opn store rel i = Inr (still, done, store', rel', i')"
  shows "pipe_flow ms store' still (cls @ done)"
proof -
  have names: "mset (map fst (still @ cls @ done)) = mset (map fst (opn @ cls))"
    using send_open_pipes_names [OF r] by (simp add: ac_simps)
  have dist: "distinct (map fst (still @ cls @ done)) = distinct (map fst (opn @ cls))"
    by (rule mset_eq_imp_distinct_iff [OF names])
  have dom: "fst ` set (still @ cls @ done) = fst ` set (opn @ cls)"
    using mset_eq_setD [OF names] by (simp only: set_map)
  show ?thesis
    unfolding pipe_flow_def dist dom
  proof (intro impI)
    assume d: "distinct (map fst (opn @ cls))"
    then have d1: "distinct (map fst opn)" by simp
    note r' = send_open_pipes_Inr [OF r d1]
    have f: "\<And>n p. (n, p) \<in> set opn \<Longrightarrow> \<exists>pre. ms n = pre @ chunks_of store n \<and> Fc_Eof \<notin> set pre
                                 \<and> written p = bytes_of pre"
      "\<And>n p. (n, p) \<in> set cls \<Longrightarrow> Fc_Eof \<in> set (ms n) \<and> written p = bytes_of (upto_eof (ms n))"
      "\<And>n. n \<notin> fst ` set (opn @ cls) \<Longrightarrow> ms n = chunks_of store n"
      using flow d unfolding pipe_flow_def by blast+
    have "\<exists>pre. ms n = pre @ chunks_of store' n \<and> Fc_Eof \<notin> set pre \<and> written p' = bytes_of pre"
      if "(n, p') \<in> set still" for n p'
    proof -
      from that r' obtain p where p: "(n, p) \<in> set opn" "Fc_Eof \<notin> set (chunks_of store n)"
        "written p' = written p @ bytes_of (chunks_of store n)" by blast
      from f(1) [OF p(1)] obtain pre where "ms n = pre @ chunks_of store n" "Fc_Eof \<notin> set pre"
        "written p = bytes_of pre" by blast
      with p r' show ?thesis by (intro exI [of _ "ms n"]) force
    qed
    moreover have "Fc_Eof \<in> set (ms n) \<and> written p' = bytes_of (upto_eof (ms n))"
      if "(n, p') \<in> set done" for n p'
    proof -
      from that r' obtain p where p: "(n, p) \<in> set opn" "Fc_Eof \<in> set (chunks_of store n)"
        "written p' = written p @ bytes_of (upto_eof (chunks_of store n))" by blast
      from f(1) [OF p(1)] obtain pre where pre: "ms n = pre @ chunks_of store n" "Fc_Eof \<notin> set pre"
        "written p = bytes_of pre" by blast
      then have "upto_eof (ms n) = pre @ upto_eof (chunks_of store n)"
        by (auto simp: upto_eof_def takeWhile_append)
      with p pre show ?thesis by simp
    qed
    moreover have "ms n = chunks_of store' n" if "n \<notin> fst ` set (opn @ cls)" for n
    proof -
      from that have "n \<notin> fst ` set opn" by auto
      with r' have "chunks_of store' n = chunks_of store n" by simp
      with f(3) [OF that] show ?thesis by simp
    qed
    ultimately show "(\<forall>(n, p) \<in> set still. \<exists>pre. ms n = pre @ chunks_of store' n \<and> Fc_Eof \<notin> set pre
                                 \<and> written p = bytes_of pre)
       \<and> (\<forall>(n, p) \<in> set (cls @ done). Fc_Eof \<in> set (ms n) \<and> written p = bytes_of (upto_eof (ms n)))
       \<and> (\<forall>n. n \<notin> fst ` set (opn @ cls) \<longrightarrow> ms n = chunks_of store' n)"
      using f(2) by auto
  qed
qed

text \<open>A pipe for a file that has none yet.\<close>

lemma pipe_flow_request:
  assumes flow: "pipe_flow ms store opn cls" and cs: "map_of store n = Some cs"
    and s: "send_over_chunks env n cs p rel i = Inr (sent_all, p', rel', i')" and p: "written p = []"
  shows "sent_all \<Longrightarrow> pipe_flow ms (AList.delete n store) opn (cls @ [(n, p')])"
    and "\<not> sent_all \<Longrightarrow> pipe_flow ms (AList.delete n store) (opn @ [(n, p')]) cls"
proof -
  note s' = send_over_chunks_Inr [OF s]
  have c: "chunks_of store n = cs" using cs by (simp add: chunks_of_def)
  show "pipe_flow ms (AList.delete n store) opn (cls @ [(n, p')])" if sent_all
    unfolding pipe_flow_def
  proof (intro impI)
    assume "distinct (map fst (opn @ cls @ [(n, p')]))"
    then have d: "distinct (map fst (opn @ cls))" "n \<notin> fst ` set (opn @ cls)" by auto
    with flow have f: "\<forall>(n, p) \<in> set opn. \<exists>pre. ms n = pre @ chunks_of store n \<and> Fc_Eof \<notin> set pre \<and> written p = bytes_of pre"
      "\<forall>(n, p) \<in> set cls. Fc_Eof \<in> set (ms n) \<and> written p = bytes_of (upto_eof (ms n))"
      "\<forall>n. n \<notin> fst ` set (opn @ cls) \<longrightarrow> ms n = chunks_of store n" unfolding pipe_flow_def by blast+
    show "(\<forall>(n', p) \<in> set opn. \<exists>pre. ms n' = pre @ chunks_of (AList.delete n store) n' \<and> Fc_Eof \<notin> set pre
                                 \<and> written p = bytes_of pre)
       \<and> (\<forall>(n, p) \<in> set (cls @ [(n, p')]). Fc_Eof \<in> set (ms n) \<and> written p = bytes_of (upto_eof (ms n)))
       \<and> (\<forall>m. m \<notin> fst ` set (opn @ cls @ [(n, p')]) \<longrightarrow> ms m = chunks_of (AList.delete n store) m)"
      using f d(2) that s' c p by (force simp: chunks_of_delete)
  qed
  show "pipe_flow ms (AList.delete n store) (opn @ [(n, p')]) cls" if "\<not> sent_all"
    unfolding pipe_flow_def
  proof (intro impI)
    assume "distinct (map fst ((opn @ [(n, p')]) @ cls))"
    then have d: "distinct (map fst (opn @ cls))" "n \<notin> fst ` set (opn @ cls)" by auto
    with flow have f: "\<forall>(n, p) \<in> set opn. \<exists>pre. ms n = pre @ chunks_of store n \<and> Fc_Eof \<notin> set pre \<and> written p = bytes_of pre"
      "\<forall>(n, p) \<in> set cls. Fc_Eof \<in> set (ms n) \<and> written p = bytes_of (upto_eof (ms n))"
      "\<forall>n. n \<notin> fst ` set (opn @ cls) \<longrightarrow> ms n = chunks_of store n" unfolding pipe_flow_def by blast+
    have "ms n = cs @ chunks_of (AList.delete n store) n \<and> Fc_Eof \<notin> set cs \<and> written p' = bytes_of cs"
      using f(3) d(2) that s' c p by (auto simp: chunks_of_delete upto_eof_none)
    then show "(\<forall>(n', p) \<in> set (opn @ [(n, p')]). \<exists>pre. ms n' = pre @ chunks_of (AList.delete n store) n' \<and> Fc_Eof \<notin> set pre
                                 \<and> written p = bytes_of pre)
       \<and> (\<forall>(n, p) \<in> set cls. Fc_Eof \<in> set (ms n) \<and> written p = bytes_of (upto_eof (ms n)))
       \<and> (\<forall>m. m \<notin> fst ` set ((opn @ [(n, p')]) @ cls) \<longrightarrow> ms m = chunks_of (AList.delete n store) m)"
      using f d(2) by (force simp: chunks_of_delete)
  qed
qed

section \<open>The loop keeps the flow\<close>

text \<open>The messages received so far: those of the store it starts with, and the rounds.\<close>

definition received :: "serve_env \<Rightarrow> chunk_store \<Rightarrow> nat \<Rightarrow> string \<Rightarrow> file_content list" where
  "received env store0 k = more_msgs (chunks_of store0) (concat (map (\<lambda>i. fst (sv_recv env i)) [0..<k]))"

text \<open>Clients send pipes that nothing has been written to.\<close>

definition fresh_fds :: "sink connection \<Rightarrow> bool" where
  "fresh_fds c \<longleftrightarrow> (\<forall>fds \<in> set (sock_fds c). \<forall>p. Fd_Pipe p \<in> set fds \<longrightarrow> written p = [])"

definition clients_fresh :: "serve_state \<Rightarrow> bool" where
  "clients_fresh st \<longleftrightarrow> (\<forall>k c. registered (sv_poller st) k = Some (Client c) \<longrightarrow> fresh_fds c)"

definition serve_inv :: "serve_env \<Rightarrow> string list \<Rightarrow> chunk_store \<Rightarrow> serve_state \<Rightarrow> bool" where
  "serve_inv env fl store0 st \<longleftrightarrow>
     pipe_flow (received env store0 (recvs st)) (sv_store st) (open_pipes st) (closed_pipes st)
     \<and> clients_fresh st \<and> fst ` set (open_pipes st @ closed_pipes st) \<subseteq> set fl"

definition serve_env_ok :: "serve_env \<Rightarrow> bool" where
  "serve_env_ok env \<longleftrightarrow>
     slab_ok (sv_poll env) \<and> (\<forall>n fd c. sv_accept env n = Inr (fd, c) \<longrightarrow> fresh_fds c)"

lemma received_Suc: "received env store0 (Suc k) = more_msgs (received env store0 k) (fst (sv_recv env k))"
  by (simp add: received_def more_msgs_def fun_eq_iff)

lemma clients_fresh_set:
  "clients_fresh st \<Longrightarrow> fresh_fds c \<Longrightarrow> clients_fresh (set_client key c st)"
  by (auto simp: clients_fresh_def set_client_def poller_set_registered split: if_splits)

lemma set_client_same [simp]:
  "sv_store (set_client key c st) = sv_store st" "open_pipes (set_client key c st) = open_pipes st"
  "closed_pipes (set_client key c st) = closed_pipes st" "recvs (set_client key c st) = recvs st"
  "stopped (set_client key c st) = stopped st" "listener_key (set_client key c st) = listener_key st"
  by (simp_all add: set_client_def)

lemma serve_inv_set:
  "serve_inv env fl store0 st \<Longrightarrow> fresh_fds c \<Longrightarrow> serve_inv env fl store0 (set_client key c st)"
  by (simp add: serve_inv_def clients_fresh_set)

lemma fresh_fds_same: "sock_fds c' = sock_fds c \<Longrightarrow> fresh_fds c \<Longrightarrow> fresh_fds c'"
  by (simp add: fresh_fds_def)

lemma send_reply_fds:
  "send_file_reply ce c b s = Inr c' \<Longrightarrow> sock_fds c' = sock_fds c"
  "send_file_list_reply ce c fs = Inr c' \<Longrightarrow> sock_fds c' = sock_fds c"
  by (auto simp: send_file_reply_def send_file_list_reply_def Let_def)

lemma recv_pipe_fresh:
  "recv_pipe c = Inr (p, c') \<Longrightarrow> fresh_fds c \<Longrightarrow> written p = [] \<and> fresh_fds c'"
  by (auto simp: recv_pipe_def recv_fd_def unix_pipe_new_def fresh_fds_def
      split: list.splits fd_obj.splits)

lemma serve_inv_receive:
  "serve_inv env fl store0 st \<Longrightarrow> serve_inv env fl store0 (receive_chunks env st)"
  using pipe_flow_receive [of _ _ _ _ "fst (sv_recv env (recvs st))"]
  by (auto simp: receive_chunks_def serve_inv_def clients_fresh_def received_Suc split: prod.split)

lemma serve_inv_pump: "serve_inv env fl store0 st \<Longrightarrow> pump env st = Inr st' \<Longrightarrow> serve_inv env fl store0 st'"
proof -
  assume i: "serve_inv env fl store0 st" and p: "pump env st = Inr st'"
  then obtain still dn store rel k where
    r: "send_open_pipes env (open_pipes st) (sv_store st) (sv_released st) (sends st)
        = Inr (still, dn, store, rel, k)"
    and st': "st' = st\<lparr>open_pipes := still, closed_pipes := closed_pipes st @ dn, sv_store := store,
                       sv_released := rel, sends := k\<rparr>"
    by (auto simp: pump_def)
  have "fst ` (set still \<union> set dn) = fst ` set (open_pipes st)"
    using mset_eq_setD [OF send_open_pipes_names [OF r, unfolded mset_append [symmetric]]]
    by (simp add: image_Un)
  then have "fst ` set (still @ closed_pipes st @ dn) = fst ` set (open_pipes st @ closed_pipes st)"
    by (auto simp: image_Un)
  with i pipe_flow_pump [OF _ r] show ?thesis
    unfolding st' by (simp add: serve_inv_def clients_fresh_def)
qed

text \<open>A request that is served.\<close>

lemma serve_request_ready:
  assumes "serve_file_request env fl key c n st = Inr st'" and "map_of (sv_store st) n = Some cs"
    and "n \<in> set fl"
  obtains c1 p c2 sent_all p' rel k where
    "send_file_reply (sv_codec env) c True (Some Ready) = Inr c1"
    "recv_pipe c1 = Inr (p, c2)"
    "send_over_chunks env n cs p (sv_released st) (sends st) = Inr (sent_all, p', rel, k)"
    "st' = (let st2 = set_client key c2 (st\<lparr>sv_store := AList.delete n (sv_store st),
             filenames_of_sent_files := List.insert n (filenames_of_sent_files st),
             sv_released := rel, sends := k\<rparr>)
          in if sent_all then st2\<lparr>closed_pipes := closed_pipes st2 @ [(n, p')]\<rparr>
             else st2\<lparr>open_pipes := open_pipes st2 @ [(n, p')]\<rparr>)"
  using assms by (auto simp: serve_file_request_def Let_def split: if_splits)

lemma serve_inv_request:
  assumes i: "serve_inv env fl store0 st" and c: "fresh_fds c"
    and r: "serve_file_request env fl key c n st = Inr st'"
  shows "serve_inv env fl store0 st'"
proof (cases "map_of (sv_store st) n")
  case None
  with assms show ?thesis
    by (auto simp: serve_file_request_def ensure_def
        intro!: serve_inv_set dest!: send_reply_fds intro: fresh_fds_same split: if_splits)
next
  case (Some cs)
  show ?thesis
  proof (cases "n \<in> set fl")
    case False
    with assms show ?thesis
      by (auto simp: serve_file_request_def intro!: serve_inv_set dest!: send_reply_fds intro: fresh_fds_same)
  next
    case True
    obtain c1 p c2 all p' rel k where
      c1: "send_file_reply (sv_codec env) c True (Some Ready) = Inr c1"
      and p: "recv_pipe c1 = Inr (p, c2)"
      and s: "send_over_chunks env n cs p (sv_released st) (sends st) = Inr (all, p', rel, k)"
      and st': "st' = (let st2 = set_client key c2 (st\<lparr>sv_store := AList.delete n (sv_store st),
             filenames_of_sent_files := List.insert n (filenames_of_sent_files st),
             sv_released := rel, sends := k\<rparr>)
          in if all then st2\<lparr>closed_pipes := closed_pipes st2 @ [(n, p')]\<rparr>
             else st2\<lparr>open_pipes := open_pipes st2 @ [(n, p')]\<rparr>)"
      by (rule serve_request_ready [OF r Some True])
    have "fresh_fds c1" using send_reply_fds(1) [OF c1] c by (rule fresh_fds_same)
    from recv_pipe_fresh [OF p this] have f: "written p = []" "fresh_fds c2" by simp_all
    have "pipe_flow (received env store0 (recvs st)) (sv_store st) (open_pipes st) (closed_pipes st)"
      "clients_fresh st" using i by (simp_all add: serve_inv_def)
    note flow = pipe_flow_request [OF this(1) Some s f(1)] and cl = clients_fresh_set [OF this(2) f(2), of key]
    have "clients_fresh st'" using cl unfolding st' by (simp add: Let_def clients_fresh_def set_client_def)
    with flow i True show ?thesis unfolding st' by (auto simp: serve_inv_def Let_def)
  qed
qed

lemma serve_inv_client:
  assumes i: "serve_inv env fl store0 st" and c: "fresh_fds c"
    and r: "serve_client env fl key c st = Inr (st', fin)"
  shows "serve_inv env fl store0 st'"
proof -
  from r obtain req c1 where q: "read_next_file_request (sv_codec env) c = Inr (req, c1)"
    by (auto simp: serve_client_def)
  have c1: "fresh_fds c1" using read_request_keeps [OF q] c by (auto intro: fresh_fds_same)
  note i1 = serve_inv_set [OF i c1, of key]
  have rem: "serve_inv env fl store0 (set_client key c1 st\<lparr>stopped := True, sv_poller := p\<rparr>)"
    if "poller_remove pe (sv_poller (set_client key c1 st)) k = Inr (p, x)" for pe k p x
    using i1 poller_remove_Inr [OF that] by (auto simp: serve_inv_def clients_fresh_def)
  have list: "serve_inv env fl store0 (set_client key c2 (set_client key c1 st))"
    if "send_file_list_reply ce c1 fs = Inr c2" for ce fs c2
    using serve_inv_set [OF i1 fresh_fds_same [OF send_reply_fds(2) [OF that] c1]] .
  from r q i1 rem list serve_inv_request [OF i1 c1] show ?thesis
    by (auto simp: serve_client_def Let_def split: option.splits if_splits)
qed

lemma serve_inv_round:
  assumes ok: "serve_env_ok env" and i: "serve_inv env fl store0 st"
    and r: "serve_round env fl st = Inr (st', fin)"
  shows "serve_inv env fl store0 st'"
proof -
  from r obtain st1 obj p where p1: "pump env (receive_chunks env st) = Inr st1"
    and pl: "poller_poll (sv_poll env) (sv_poller st1) 16 = Inr (obj, p)"
    by (auto simp: serve_round_def)
  have i1: "serve_inv env fl store0 st1" using serve_inv_pump [OF serve_inv_receive [OF i] p1] .
  have reg: "registered p = registered (sv_poller st1)"
    using poller_poll_None [of _ _ _ p] poller_poll_Inr [of _ _ _ _ _ p] pl
    by (cases obj) (auto simp: registered_def fun_eq_iff)
  then have i2: "serve_inv env fl store0 (st1\<lparr>sv_poller := p\<rparr>)"
    using i1 by (simp add: serve_inv_def clients_fresh_def)
  show ?thesis
  proof (cases obj)
    case None
    with r p1 pl i2 show ?thesis by (simp add: serve_round_def)
  next
    case (Some ko)
    obtain key o' where ko: "ko = (key, o')" by force
    show ?thesis
    proof (cases o')
      case Listener
      with r p1 pl Some ko obtain fd c p' k where a: "sv_accept env (accepts st1) = Inr (fd, c)"
        "poller_add (sv_poll env) p fd (Client c) = Inr (p', k)"
        and st': "st' = st1\<lparr>sv_poller := p', accepts := Suc (accepts st1)\<rparr>"
        by (auto simp: serve_round_def Let_def)
      have "fresh_fds c" "registered p' = (registered p)(k \<mapsto> Client c)"
        using ok a(1) poller_add_Inr [OF a(2)] by (auto simp: serve_env_ok_def)
      with i2 show ?thesis by (auto simp: st' serve_inv_def clients_fresh_def)
    next
      case (Client c)
      have "registered (sv_poller st1) key = Some (Client c)"
        using poller_poll_Inr [of _ _ _ key "Client c" p] pl Some ko Client by simp
      then have "fresh_fds c" using i1 by (auto simp: serve_inv_def clients_fresh_def)
      from serve_inv_client [OF i2 this] r p1 pl Some ko Client show ?thesis
        by (auto simp: serve_round_def Let_def)
    qed
  qed
qed

lemma serve_inv_loop:
  "serve_env_ok env \<Longrightarrow> serve_inv env fl store0 st \<Longrightarrow> serve_loop env fl fuel st = Inr st' \<Longrightarrow>
   serve_inv env fl store0 st'"
  by (induction env fl fuel st rule: serve_loop.induct)
     (auto split: if_splits dest: serve_inv_round)

lemma serve_client_finished:
  assumes r: "serve_client env fl key c st = Inr (st', True)"
  shows "open_pipes st' = []"
proof -
  from r obtain f c1 where q: "read_next_file_request (sv_codec env) c = Inr (Some f, c1)"
    by (auto simp: serve_client_def Let_def split: option.splits)
  show ?thesis
  proof (cases "f = ''stop-listener''")
    case True
    with r q show ?thesis by (auto simp: serve_client_def Let_def)
  next
    case False
    with r q show ?thesis
      by (simp add: serve_client_def Let_def split: if_split_asm)
  qed
qed

lemma serve_round_finished: "serve_round env fl st = Inr (st', True) \<Longrightarrow> open_pipes st' = []"
proof -
  assume r: "serve_round env fl st = Inr (st', True)"
  then obtain st1 obj p where p: "pump env (receive_chunks env st) = Inr st1"
    "poller_poll (sv_poll env) (sv_poller st1) 16 = Inr (obj, p)" by (auto simp: serve_round_def)
  show ?thesis
  proof (cases obj)
    case None
    with r p show ?thesis by (auto simp: serve_round_def Let_def)
  next
    case (Some ko)
    with r p show ?thesis
      by (cases ko; cases "snd ko") (auto simp: serve_round_def Let_def dest: serve_client_finished)
  qed
qed

lemma serve_loop_no_open: "serve_loop env fl fuel st = Inr st' \<Longrightarrow> open_pipes st' = []"
proof (induction env fl fuel st rule: serve_loop.induct)
  case (2 env fl fuel st)
  from 2(2) obtain st1 fin where r: "serve_round env fl st = Inr (st1, fin)"
    and rest: "(if fin then Inr st1 else serve_loop env fl fuel st1) = Inr st'" by auto
  show ?case
  proof (cases fin)
    case True
    with r rest serve_round_finished show ?thesis by auto
  next
    case False
    with 2(1) [OF r refl] rest show ?thesis by simp
  qed
qed simp

lemma serve_inv_start:
  "registered p = [key \<mapsto> Listener] \<Longrightarrow> serve_inv env fl store (serve_start store p key)"
  by (simp add: serve_inv_def serve_start_def received_def more_msgs_def pipe_flow_def clients_fresh_def)

end
