(* ===== verification/Serve_Cmd.thy ===== *)
theory Serve_Cmd
  imports Extract_Cmd Serve_Flow
begin

text \<open>
  The function \<open>serve\<close> of \<open>src/extract.rs\<close>: the deserializer drains the shards into the overlay
  over the channels, while \<open>serve_img\<close> runs in a thread of its own from the moment the small files
  and the list of names are there. The two threads share the channels and the semaphore only. What
  each sees of the other is part of its environment, so the model runs them one after the other;
  \<open>channel_view\<close> says that the two views are of the same channel.
\<close>

section \<open>The command\<close>

text \<open>
  The budget in bytes, an \<open>isize\<close>: \<open>usize as isize\<close> and the product wrap. \<open>ram_total\<close> is what
  \<open>sysinfo()\<close> reports.
\<close>

definition memory_budget :: "nat option \<Rightarrow> nat res \<Rightarrow> int res" where
  "memory_budget memory_limit ram_total =
     rbind (case memory_limit of
              None \<Rightarrow> rbind ram_total (\<lambda>t. Inr (i64 (int t) sdiv int MB))
            | Some limit \<Rightarrow> Inr (i64 (int limit))) (\<lambda>limit.
       Inr (i64 (limit * int MB)))"

record serve_params =
  sp_mkdir :: bool
  sp_ram :: "nat res"
  sp_splice :: "nat \<Rightarrow> nat \<Rightarrow> nat"
  sp_gone :: "bool \<Rightarrow> nat \<Rightarrow> bool"
  sp_released :: "nat \<Rightarrow> int list"
  sp_wakeups :: "nat \<Rightarrow> int list"

definition serve_cmd ::
  "('r file_entry \<Rightarrow> byte list) \<Rightarrow> (byte list \<Rightarrow> 'r file_entry option) \<Rightarrow> denv \<Rightarrow> serve_params
   \<Rightarrow> serve_env \<Rightarrow> nat \<Rightarrow> nat \<Rightarrow> reader list \<Rightarrow> (string \<times> sink) list \<Rightarrow> (nat \<times> nat) list \<Rightarrow> nat option
   \<Rightarrow> (par_store \<times> serve_state) res" where
  "serve_cmd fenc fdec e sp env fuel1 fuel2 shard_pipes ext_file_pipes tcp_listen_remaps memory_limit =
     rbind (ensure (sp_mkdir sp) Io_Error) (\<lambda>_.
     rbind (memory_budget memory_limit (sp_ram sp)) (\<lambda>budget.
     let file_sender = file_sender_new (sv_rx env) (sem_new budget) (sp_gone sp) (sp_released sp)
                         (sp_wakeups sp);
         overlayed = fold (\<lambda>(n, p) o'. add_overlay o' n p) ext_file_pipes
                       (overlay_new file_sender (sp_splice sp)) in
     rbind (extract_image e (ov_ops par_ops) fuel1 overlayed shard_pipes) (\<lambda>(metadata, d).
     let file_sender' = close_senders (underlying (img_store d)) in
     rbind (serve_img fenc fdec env fuel2 (small_chan file_sender') metadata tcp_listen_remaps)
       (\<lambda>st. Inr (file_sender', st)))))"

text \<open>What the serving thread has taken from the channel is a first part of what was sent.\<close>

definition channel_view :: "serve_env \<Rightarrow> channel \<Rightarrow> bool" where
  "channel_view env ch \<longleftrightarrow> (\<forall>k. \<exists>rest. ch = concat (map (\<lambda>i. fst (sv_recv env i)) [0..<k]) @ rest)"

section \<open>The channels under an overlay\<close>

definition serve_failure :: "failure \<Rightarrow> bool" where
  "serve_failure e \<longleftrightarrow> e = Diverge \<or> io_failure e"

interpretation par_over: overlay_store par_ops par_inv par_unused par_belongs par_content
  par_stored par_blocks serve_failure E for E
proof (intro overlay_store.intro overlay_store_axioms.intro)
  show "image_store par_ops par_inv par_unused par_belongs par_content par_stored par_blocks serve_failure"
    by (rule image_store_mono [OF par.image_store_axioms]) (simp add: serve_failure_def)
qed (simp add: serve_failure_def)

lemma listed_metadata: "small_spec METADATA_FILE"
proof -
  have "\<not> listed_large METADATA_FILE"
    by (rule small_by_stem) (auto simp: METADATA_FILE_def large_prefixes_def)
  then show ?thesis by simp
qed

lemma par_ready:
  assumes "regex_doc rx" and "regex_doc (regexes k)" and "\<forall>small i. \<not> gone small i"
    and "\<forall>x \<in> set ext. written (snd x) = []"
  shows "overlay_store.ext_ready par_inv par_unused par_blocks (fst ` set ext) k es
           (file_sender_new rx sem gone rel wake) ext"
  using assms listed_metadata
  unfolding par_over.ext_ready_def
  by (auto simp: par_inv_def file_sender_new_def par_unused_def chan_def par_blocks_def small_name_def
      is_small_file_spec)

section \<open>What the client gets\<close>

lemma chunks_of_start: "chunks_of (foldl store_push [] ch) n = msgs_for n ch"
  by (simp add: chunks_of_fold) (simp add: chunks_of_def)

lemma received_small:
  assumes "par_inv fs" and "channel_view env (large_chan fs)" and "small_spec n"
  shows "received env (foldl store_push [] (small_chan fs)) k n = msgs_for n (chan (small_spec n) fs)"
proof -
  obtain rest where ch: "large_chan fs = concat (map (\<lambda>i. fst (sv_recv env i)) [0..<k]) @ rest"
    using assms(2) unfolding channel_view_def by blast
  have "msgs_for n (large_chan fs) = []"
    using assms(1,3) by (auto simp: par_inv_def msgs_for_def filter_empty_conv)
  then have "msgs_for n (concat (map (\<lambda>i. fst (sv_recv env i)) [0..<k])) = []" unfolding ch by simp
  with assms(3) show ?thesis
    by (simp add: received_def more_msgs_def chunks_of_start chan_def)
qed

lemma received_large:
  assumes "par_inv fs" and "channel_view env (large_chan fs)" and "\<not> small_spec n"
  shows "\<exists>rest. msgs_for n (chan (small_spec n) fs)
           = received env (foldl store_push [] (small_chan fs)) k n @ rest"
proof -
  obtain rest where ch: "large_chan fs = concat (map (\<lambda>i. fst (sv_recv env i)) [0..<k]) @ rest"
    using assms(2) unfolding channel_view_def by blast
  have "msgs_for n (small_chan fs) = []"
    using assms(1,3) by (auto simp: par_inv_def msgs_for_def filter_empty_conv)
  then show ?thesis
    using assms(3) by (simp add: received_def more_msgs_def chunks_of_start chan_def ch)
qed

text \<open>A file that is complete on the receiving side is the stored one.\<close>

lemma received_stored:
  assumes "par_inv fs" and "channel_view env (large_chan fs)"
    and "Fc_Eof \<in> set (received env (foldl store_push [] (small_chan fs)) k n)"
  shows "par_stored fs n = Some (bytes_of (upto_eof (received env (foldl store_push [] (small_chan fs)) k n)))"
proof -
  obtain rest where "msgs_for n (chan (small_spec n) fs)
      = received env (foldl store_push [] (small_chan fs)) k n @ rest"
    using received_small [OF assms(1,2), of n k] received_large [OF assms(1,2), of n k]
    by (cases "small_spec n") auto
  with assms(3) show ?thesis by (simp add: par_stored_def Let_def upto_eof_append)
qed

text \<open>The patched \<open>files.img\<close> in place of the received one.\<close>

lemma contents_data_eq: "contents_data cs = bytes_of (upto_eof cs)"
  by (induction cs rule: contents_data.induct) (simp_all add: upto_eof_def)

lemma patch_img_Inr:
  assumes "patch_img fenc fdec cs remaps = Inr cs'"
  shows "patch_tcp_listen_remaps fenc fdec (bytes_of (upto_eof cs)) remaps = Inr (bytes_of (upto_eof cs'))
       \<and> Fc_Eof \<in> set cs'"
proof -
  from assms obtain d b0 b1 b2 where d: "patch_tcp_listen_remaps fenc fdec (contents_data cs) remaps = Inr d"
    and b: "mm_with_capacity (length d) = Inr b0" "mm_resize b0 (length d) = Inr b1" "mm_fill b1 0 d = Inr b2"
    and cs': "cs' = [Content b2, Fc_Eof]" by (auto simp: patch_img_def)
  have "mm_deref b2 = d" using mm_fill_Inr [OF b(3)] by simp
  with d cs' show ?thesis by (simp add: contents_data_eq upto_eof_def)
qed

lemma patch_store_chunks:
  assumes "patch_store fenc fdec remaps store = Inr store'"
  shows "n \<noteq> ''files.img'' \<or> remaps = [] \<Longrightarrow> chunks_of store' n = chunks_of store n"
    and "remaps \<noteq> [] \<Longrightarrow> chunks_of store ''files.img'' \<noteq> [] \<Longrightarrow>
         patch_img fenc fdec (chunks_of store ''files.img'') remaps = Inr (chunks_of store' ''files.img'')"
    and "remaps \<noteq> [] \<Longrightarrow> map_of store ''files.img'' = None \<Longrightarrow> chunks_of store' ''files.img'' = []"
  using assms
  by (auto simp: patch_store_def chunks_of_def update_conv' delete_conv' split: option.splits if_splits)

text \<open>What a client gets through a pipe: the stored bytes, or the patched ones.\<close>

definition delivers ::
  "('r file_entry \<Rightarrow> byte list) \<Rightarrow> (byte list \<Rightarrow> 'r file_entry option) \<Rightarrow> (nat \<times> nat) list \<Rightarrow> string
   \<Rightarrow> byte list \<Rightarrow> byte list \<Rightarrow> bool" where
  "delivers fenc fdec remaps n d out \<longleftrightarrow>
     (if n = ''files.img'' \<and> remaps \<noteq> []
      then patch_tcp_listen_remaps fenc fdec d remaps = Inr out
      else out = d)"

lemma files_img_small: "small_spec ''files.img''"
proof -
  have "\<not> listed_large ''files.img''" by (rule small_by_stem) (auto simp: large_prefixes_def)
  then show ?thesis by simp
qed

lemma serve_inv_delivers:
  assumes patch: "patch_store fenc fdec remaps (foldl store_push [] (small_chan fs)) = Inr store0"
    and inv: "serve_inv env fl store0 st"
    and ok: "par_inv fs" "channel_view env (large_chan fs)"
    and once: "distinct (map fst (open_pipes st @ closed_pipes st))"
    and np: "(n, p) \<in> set (closed_pipes st)"
  shows "n \<in> set fl \<and> (\<forall>d. par_stored fs n = Some d \<longrightarrow> delivers fenc fdec remaps n d (written p))"
proof
  let ?store = "foldl store_push [] (small_chan fs)"
  show "n \<in> set fl" using inv np by (auto simp: serve_inv_def)
  have "\<forall>(n, p) \<in> set (closed_pipes st). Fc_Eof \<in> set (received env store0 (recvs st) n)
      \<and> written p = bytes_of (upto_eof (received env store0 (recvs st) n))"
    using inv once unfolding serve_inv_def pipe_flow_def by blast
  with np have got: "Fc_Eof \<in> set (received env store0 (recvs st) n)"
      "written p = bytes_of (upto_eof (received env store0 (recvs st) n))" by auto
  show "\<forall>d. par_stored fs n = Some d \<longrightarrow> delivers fenc fdec remaps n d (written p)"
  proof (intro allI impI)
    fix d
    assume d: "par_stored fs n = Some d"
    show "delivers fenc fdec remaps n d (written p)"
    proof (cases "n = ''files.img'' \<and> remaps \<noteq> []")
      case False
      then have "received env store0 (recvs st) n = received env ?store (recvs st) n"
        using patch_store_chunks(1) [OF patch, of n] by (auto simp: received_def more_msgs_def)
      with got False d received_stored [OF ok, of "recvs st" n] show ?thesis by (auto simp: delivers_def)
    next
      case True
      have sn: "small_spec n" using True files_img_small by simp
      note files = received_small [OF ok sn]
      have same: "received env ?store j n = chunks_of ?store n" for j
        using files [of j] files [of 0] True files_img_small by (simp add: received_def more_msgs_def)
      then have late: "received env store0 j n = chunks_of store0 n" for j
        by (simp add: received_def more_msgs_def)
      have "map_of ?store n \<noteq> None"
        using patch_store_chunks(3) [OF patch] True got(1) late by (cases "map_of ?store n") auto
      from patch True this obtain cs where cs: "chunks_of ?store n = cs"
          "patch_img fenc fdec cs remaps = Inr (chunks_of store0 n)"
        by (auto simp: patch_store_def chunks_of_def update_conv')
      have "Fc_Eof \<in> set cs"
        using d files [of 0] same [of 0] cs(1) by (simp add: par_stored_def Let_def split: if_splits)
      then have "d = bytes_of (upto_eof cs)"
        using d received_stored [OF ok, of 0 n] same cs(1) by simp
      with patch_img_Inr [OF cs(2)] got(2) late True show ?thesis by (simp add: delivers_def)
    qed
  qed
qed

lemma serve_img_delivers:
  assumes run: "serve_img fenc fdec env fuel (small_chan fs) fl remaps = Inr st"
    and ok: "serve_env_ok env" "par_inv fs" "channel_view env (large_chan fs)"
    and once: "distinct (map fst (closed_pipes st))"
  shows "open_pipes st = []
    \<and> (\<forall>(n, p) \<in> set (closed_pipes st). n \<in> set fl
        \<and> (\<forall>d. par_stored fs n = Some d \<longrightarrow> delivers fenc fdec remaps n d (written p)))"
proof -
  from run obtain store0 fd p key where
    patch: "patch_store fenc fdec remaps (foldl store_push [] (small_chan fs)) = Inr store0"
    and add: "poller_add (sv_poll env) poller_new fd Listener = Inr (p, key)"
    and loop: "serve_loop env fl fuel (serve_start store0 p key) = Inr st"
    by (auto simp: serve_img_def)
  have "registered p = [key \<mapsto> Listener]"
    using poller_add_Inr [OF add] ok(1) by (auto simp: serve_env_ok_def fun_eq_iff)
  from serve_inv_loop [OF ok(1) serve_inv_start [OF this] loop]
  have inv: "serve_inv env fl store0 st" .
  have opn: "open_pipes st = []" by (rule serve_loop_no_open [OF loop])
  with serve_inv_delivers [OF patch inv ok(2,3)] once show ?thesis by auto
qed

section \<open>Capture, then serve\<close>

lemma serve_cmd_capture:
  assumes cap: "capture_events k shs cap es = Inr s" and fresh: "fresh_shards shs"
    and fits: "run_fits k es" "image_fits k cap es (length shs) fuel"
    and wf: "wf_run es" "names_ok es"
    and libs: "msg_codec (pb_enc k) (pb_dec e) marker_ok" "poll_ok serve_failure e"
      "of_json e (to_json k (finished_names es)) = Some (finished_names es)"
      "regex_doc (sv_rx env)" "regex_doc (regexes k)" "serve_env_ok env"
    and ext: "\<forall>x \<in> set ext. written (snd x) = []" and chans: "\<forall>small i. \<not> sp_gone sp small i"
    and pipes: "mset pipes = mset (map pipe_of (shards s))"
    and run: "serve_cmd fenc fdec e sp env fuel fuel2 (pipe_of (small_shard s) # pipes) ext remaps limit
              = Inr (fs, st)"
    and view: "channel_view env (large_chan fs)" and once: "distinct (map fst (closed_pipes st))"
  shows "open_pipes st = []
    \<and> (\<forall>(n, p) \<in> set (closed_pipes st). n \<in> set (finished_names es)
        \<and> (n \<notin> fst ` set ext \<longrightarrow> delivers fenc fdec remaps n (file_content n es) (written p)))"
proof -
  let ?fs0 = "\<lambda>b. file_sender_new (sv_rx env) (sem_new b) (sp_gone sp) (sp_released sp) (sp_wakeups sp)"
  let ?o = "\<lambda>b. fold (\<lambda>(n, p) o'. add_overlay o' n p) ext (overlay_new (?fs0 b) (sp_splice sp))"
  from run obtain b names d where
    ex: "extract_image e (ov_ops par_ops) fuel (?o b) (pipe_of (small_shard s) # pipes) = Inr (names, d)"
    and fs: "fs = close_senders (underlying (img_store d))"
    and sv: "serve_img fenc fdec env fuel2 (small_chan fs) names remaps = Inr st"
    by (auto simp: serve_cmd_def Let_def)
  note ready = par_ready [OF libs(4,5) chans ext, of es "sem_new b" "sp_released sp" "sp_wakeups sp"]
  note all = holds_or_Inr [OF par_over.extract_overlay [OF cap fresh fits wf libs(1-3) ready pipes, of "sp_splice sp"] ex]
  then have stored: "\<forall>f. f \<noteq> METADATA_FILE \<longrightarrow> f \<in> fst ` set es \<longrightarrow>
     ov_stored (fst ` set ext) par_stored (img_store d) f = Some (file_content f es)" by simp
  have out: "names = finished_names es" "ov_inv (fst ` set ext) par_inv (img_store d)"
    using all by simp_all
  have out3: "par_stored (underlying (img_store d)) f = Some (file_content f es)"
    if "f \<noteq> METADATA_FILE" "f \<in> fst ` set es" "f \<notin> fst ` set ext" for f
    using stored [rule_format, OF that(1,2)] that(3) by (simp add: ov_stored_def)
  have ex_inv: "par_inv (underlying (img_store d))" using out(2) by (simp add: ov_inv_def)
  have closed: "par_stored fs = par_stored (underlying (img_store d))"
    "large_chan fs = large_chan (underlying (img_store d))"
    "small_chan fs = small_chan (underlying (img_store d))"
    unfolding fs by (auto simp: close_senders_def par_stored_def chan_def fun_eq_iff)
  have sv': "serve_img fenc fdec env fuel2 (small_chan (underlying (img_store d))) names remaps = Inr st"
    using sv closed by simp
  have names: "f \<in> set (finished_names es) \<Longrightarrow> f \<noteq> METADATA_FILE \<and> f \<in> fst ` set es" for f
    using wf(2) by (auto simp: names_ok_def finished_names_def)
  from serve_img_delivers [OF sv' libs(6) ex_inv view [unfolded closed] once] out(1) out3 names
  show ?thesis by fastforce
qed

end
