(* ===== verification/Store_Actions.thy ===== *)
theory Store_Actions
  imports Serve_Cmd
begin

text \<open>
  The deserializing thread of the serve command as the serving thread sees it: a list of actions on
  what the two share, the semaphore and the channel of the large files
  (\<open>write_all_from_pipe\<close> and \<open>insert\<close> of \<open>src/image_store/fs_parallel.rs\<close>).
  \<open>run_actions\<close> performs them on the store of \<open>Parallel_Store\<close>. The operations of that store
  are such actions, so \<open>acted\<close> is an invariant of it, and the contract of an image store holds
  with it (the interpretation \<open>par_acts\<close>).
\<close>

section \<open>Actions\<close>

datatype action = Acquire nat | Send "string \<times> file_content" | Close

fun run_actions :: "action list \<Rightarrow> par_store \<Rightarrow> par_store res" where
  "run_actions [] st = Inr st"
| "run_actions (Acquire k # acts) st = rbind (par_acquire st k) (run_actions acts)"
| "run_actions (Send msg # acts) st = run_actions acts (fst (chan_send st False msg))"
| "run_actions (Close # acts) st = run_actions acts (close_senders st)"

text \<open>The memory for a chunk is acquired before it is sent.\<close>

fun actions_of :: "channel \<Rightarrow> action list" where
  "actions_of [] = []"
| "actions_of ((n, Content b) # ch) = Acquire (length (mm_deref b)) # Send (n, Content b) # actions_of ch"
| "actions_of ((n, Fc_Eof) # ch) = Send (n, Fc_Eof) # actions_of ch"

fun sent_by :: "action list \<Rightarrow> channel" where
  "sent_by [] = []"
| "sent_by (Send msg # acts) = msg # sent_by acts"
| "sent_by (_ # acts) = sent_by acts"

definition buf_of :: "byte list \<Rightarrow> mmap_buf" where
  "buf_of bs = \<lparr>mm_mem = bs, mm_len = length bs\<rparr>"

lemma mm_deref_buf [simp]: "mm_deref (buf_of bs) = bs"
  by (simp add: mm_deref_def buf_of_def)

lemma CHUNK_SIZE_pos [simp]: "0 < CHUNK_SIZE"
  by (simp add: CHUNK_SIZE_def MB_def)

text \<open>The chunks of a payload.\<close>

function chunk_msgs :: "string \<Rightarrow> byte list \<Rightarrow> channel" where
  "chunk_msgs n bs =
     (if bs = [] then []
      else (n, Content (buf_of (take CHUNK_SIZE bs))) # chunk_msgs n (drop CHUNK_SIZE bs))"
  by pat_completeness auto
termination
  by (relation "measure (\<lambda>(n, bs). length bs)") auto

declare chunk_msgs.simps [simp del]

lemma actions_of_append: "actions_of (xs @ ys) = actions_of xs @ actions_of ys"
  by (induction xs rule: actions_of.induct) simp_all

lemma sent_by_append [simp]: "sent_by (xs @ ys) = sent_by xs @ sent_by ys"
  by (induction xs rule: sent_by.induct) simp_all

lemma sent_by_actions [simp]: "sent_by (actions_of ch) = ch"
  by (induction ch rule: actions_of.induct) simp_all

lemma run_actions_append: "run_actions (xs @ ys) st = rbind (run_actions xs st) (run_actions ys)"
proof (induction xs st rule: run_actions.induct)
  case (2 k acts st)
  then show ?case by (cases "par_acquire st k") simp_all
qed simp_all

lemma chunk_msgs_no_eof: "(m, Fc_Eof) \<notin> set (chunk_msgs n bs)"
  by (induction n bs rule: chunk_msgs.induct) (subst chunk_msgs.simps, simp)

lemma chunk_msgs_names: "msg \<in> set (chunk_msgs n bs) \<Longrightarrow> fst msg = n"
proof (induction n bs rule: chunk_msgs.induct)
  case (1 n bs)
  show ?case
  proof (cases "bs = []")
    case True
    with "1.prems" show ?thesis by (simp add: chunk_msgs.simps)
  next
    case False
    with "1.prems" have "msg = (n, Content (buf_of (take CHUNK_SIZE bs))) \<or> msg \<in> set (chunk_msgs n (drop CHUNK_SIZE bs))"
      by (subst (asm) chunk_msgs.simps) simp
    with "1.IH" False show ?thesis by auto
  qed
qed

section \<open>The operations as actions\<close>

lemma mm_chunk_buf:
  assumes "0 < n" and "length bs = n"
  shows "rbind (mm_with_capacity n) (\<lambda>c0. rbind (mm_resize c0 n) (\<lambda>c1. rbind (mm_fill c1 0 bs) f)) = f (buf_of bs)"
  using assms
  by (simp add: mm_with_capacity_def mm_resize_def mm_fill_def buf_of_def mm_capacity_def rassert_def)

lemma par_write_loop_actions:
  "\<not> pf_is_small fl \<Longrightarrow> \<not> pf_to_small fl \<Longrightarrow> k \<le> length (avail r) \<Longrightarrow>
   par_write_loop st fl r k
   = rbind (run_actions (actions_of (chunk_msgs (pf_name fl) (take k (avail r)))) st)
       (\<lambda>st'. Inr (st', r\<lparr>avail := drop k (avail r)\<rparr>))"
proof (induction k arbitrary: st r rule: less_induct)
  case (less k)
  show ?case
  proof (cases "k = 0")
    case True
    then show ?thesis by (subst par_write_loop.simps, subst chunk_msgs.simps) simp
  next
    case False
    define n where "n = min k CHUNK_SIZE"
    have n: "0 < n" "n \<le> k" "n \<le> length (avail r)" using False less.prems(3) by (auto simp: n_def)
    let ?bs = "take n (avail r)" and ?r = "r\<lparr>avail := drop n (avail r)\<rparr>"
    have "take CHUNK_SIZE (take k (avail r)) = ?bs" by (simp add: n_def min.commute)
    moreover have "drop CHUNK_SIZE (take k (avail r)) = take (k - n) (avail ?r)"
      by (cases "k \<le> CHUNK_SIZE") (simp_all add: n_def drop_take)
    ultimately have acts: "chunk_msgs (pf_name fl) (take k (avail r))
        = (pf_name fl, Content (buf_of ?bs)) # chunk_msgs (pf_name fl) (take (k - n) (avail ?r))"
      using n by (subst chunk_msgs.simps) auto
    have rd: "read_exact r n = Inr (?bs, ?r)" using n by (simp add: read_exact_def)
    have len: "length ?bs = n" using n by simp
    have step: "par_write_loop st fl r k = rbind (par_acquire st n) (\<lambda>st1.
        par_write_loop (fst (chan_send st1 False (pf_name fl, Content (buf_of ?bs)))) fl ?r (k - n))"
      using False less.prems(1,2)
      by (subst par_write_loop.simps) (simp add: Let_def rd mm_chunk_buf [OF n(1) len] flip: n_def)
    show ?thesis
      unfolding step acts using less.IH [of "k - n" ?r] n less.prems
      by (cases "par_acquire st n") (simp_all add: min_absorb2)
  qed
qed

text \<open>The part of the store that the actions are about.\<close>

definition agree :: "par_store \<Rightarrow> par_store \<Rightarrow> bool" where
  "agree a b \<longleftrightarrow>
     par_sem b = par_sem a \<and> acquires b = acquires a \<and> released_log b = released_log a
     \<and> released b = released a \<and> wakeups b = wakeups a \<and> large_chan b = large_chan a
     \<and> (\<forall>i. \<not> receiver_gone a False i) \<and> (\<forall>i. \<not> receiver_gone b False i)"

lemma agree_refl: "(\<forall>i. \<not> receiver_gone a False i) \<Longrightarrow> agree a a"
  by (simp add: agree_def)

lemma agree_sym: "agree a b \<Longrightarrow> agree b a"
  by (auto simp: agree_def)

lemma agree_trans: "agree a b \<Longrightarrow> agree b c \<Longrightarrow> agree a c"
  by (auto simp: agree_def)

lemma agree_send:
  "agree a b \<Longrightarrow> agree (fst (chan_send a False msg)) (fst (chan_send b False msg))"
  by (auto simp: agree_def chan_send_def chan_def)

lemma agree_acquire:
  "agree a b \<Longrightarrow> par_acquire a k = Inr a' \<Longrightarrow> \<exists>b'. par_acquire b k = Inr b' \<and> agree a' b'"
  by (auto simp: agree_def par_acquire_def Let_def)

lemma run_actions_agree:
  "agree a b \<Longrightarrow> run_actions acts a = Inr a' \<Longrightarrow> \<exists>b'. run_actions acts b = Inr b' \<and> agree a' b'"
proof (induction acts a arbitrary: b rule: run_actions.induct)
  case (2 k acts st)
  from 2(3) obtain st1 where st1: "par_acquire st k = Inr st1" "run_actions acts st1 = Inr a'" by auto
  from agree_acquire [OF 2(2) st1(1)] obtain b1 where b1: "par_acquire b k = Inr b1" "agree st1 b1" by blast
  from 2(1) [OF st1(1) b1(2) st1(2)] b1(1) show ?case by simp
next
  case (3 msg acts st)
  from 3(1) [OF agree_send [OF 3(2)]] 3(3) show ?case by simp
next
  case (4 acts st)
  have "agree (close_senders st) (close_senders b)" using 4(2) by (simp add: agree_def close_senders_def)
  from 4(1) [OF this] 4(3) show ?case by simp
qed auto

lemma run_actions_chan:
  "run_actions acts st = Inr st' \<Longrightarrow> (\<forall>i. \<not> receiver_gone st False i) \<Longrightarrow>
   large_chan st' = large_chan st @ sent_by acts \<and> receiver_gone st' = receiver_gone st"
proof (induction acts st rule: run_actions.induct)
  case (2 k acts st)
  then show ?case by (auto simp: par_acquire_def Let_def)
qed (auto simp: chan_send_def chan_def close_senders_def)

lemma small_write_agree:
  "par_write_loop st fl r k = Inr (st', r') \<Longrightarrow> pf_is_small fl \<Longrightarrow> pf_to_small fl \<Longrightarrow>
   (\<forall>i. \<not> receiver_gone st False i) \<Longrightarrow> agree st st'"
proof (induction st fl r k rule: par_write_loop.induct)
  case (1 st fl r k)
  define n where "n = min k CHUNK_SIZE"
  show ?case
  proof (cases "k > 0")
    case False
    with "1.prems" show ?thesis by (subst (asm) par_write_loop.simps) (simp add: agree_refl)
  next
    case True
    with "1.prems"(1,2) obtain c0 c1 bs rd' c where
      c: "mm_with_capacity n = Inr c0" "mm_resize c0 n = Inr c1" "read_exact r n = Inr (bs, rd')"
        "mm_fill c1 0 bs = Inr c"
      and rest: "par_write_loop (fst (chan_send st (pf_to_small fl) (pf_name fl, Content c))) fl rd' (k - n)
                 = Inr (st', r')"
      by (subst (asm) par_write_loop.simps)
         (auto simp: Let_def simp flip: n_def del: rbind.simps split: if_split_asm)
    let ?st = "fst (chan_send st (pf_to_small fl) (pf_name fl, Content c))"
    have a: "agree st ?st" using "1.prems"(3,4) by (simp add: chan_send_def agree_def)
    have "(if pf_is_small fl then Inr st else par_acquire st n) = Inr st" using "1.prems"(2) by simp
    from "1.IH" [OF True n_def this c(1,2,3) refl c(4) rest "1.prems"(2,3)] a
    have "agree ?st st'" by (simp add: agree_def)
    with a show ?thesis by (rule agree_trans)
  qed
qed

section \<open>A run of the deserializer as actions\<close>

definition eof_last :: "file_content list \<Rightarrow> bool" where
  "eof_last cs \<longleftrightarrow> Fc_Eof \<notin> set (butlast cs)"

lemma eof_last_simps [simp]: "eof_last []" "eof_last [c]"
  by (simp_all add: eof_last_def)

lemma eof_last_none: "Fc_Eof \<notin> set cs \<Longrightarrow> eof_last cs"
  by (auto simp: eof_last_def dest: in_set_butlastD)

lemma eof_last_append: "Fc_Eof \<notin> set xs \<Longrightarrow> eof_last ys \<Longrightarrow> eof_last (xs @ ys)"
  by (auto simp: eof_last_def butlast_append dest: in_set_butlastD)

definition acted :: "par_store \<Rightarrow> par_store \<Rightarrow> bool" where
  "acted st0 st \<longleftrightarrow>
     (\<exists>s. run_actions (actions_of (large_chan st)) st0 = Inr s \<and> agree s st)
     \<and> (\<forall>n. eof_last (msgs_for n (large_chan st)))"

lemma acted_agree: "acted st0 st \<Longrightarrow> agree st st' \<Longrightarrow> acted st0 st'"
  using agree_trans by (fastforce simp: acted_def agree_def)

lemma acted_more:
  assumes a: "acted st0 st" and r: "run_actions (actions_of ms) st = Inr st'"
    and n: "\<forall>m \<in> set ms. fst m = n" "(n, Fc_Eof) \<notin> set (large_chan st)" "eof_last (msgs_for n ms)"
  shows "acted st0 st'"
proof -
  from a obtain s where s: "run_actions (actions_of (large_chan st)) st0 = Inr s" "agree s st"
    by (auto simp: acted_def)
  from run_actions_agree [OF agree_sym [OF s(2)] r] obtain s' where
    s': "run_actions (actions_of ms) s = Inr s'" "agree st' s'" by blast
  have chan: "large_chan st' = large_chan st @ ms"
    using run_actions_chan [OF r] s(2) by (simp add: agree_def)
  have "eof_last (msgs_for m (large_chan st'))" for m
  proof (cases "m = n")
    case True
    have "Fc_Eof \<notin> set (msgs_for n (large_chan st))" using n(2) by (simp add: in_msgs_for)
    with n(3) True show ?thesis by (simp add: chan eof_last_append)
  next
    case False
    with a msgs_for_other [OF n(1)] show ?thesis by (simp add: chan acted_def)
  qed
  moreover have "run_actions (actions_of (large_chan st')) st0 = Inr s'"
    by (simp add: chan actions_of_append run_actions_append s s')
  ultimately show ?thesis using agree_sym [OF s'(2)] by (auto simp: acted_def)
qed

lemma par_inv_open: "par_inv st \<Longrightarrow> \<forall>i. \<not> receiver_gone st False i"
  by (simp add: par_inv_def)

lemma acted_create:
  "acted st0 st \<Longrightarrow> par_inv st \<Longrightarrow> par_create st n = Inr (st', f) \<Longrightarrow> acted st0 st'"
  by (rule acted_agree)
     (auto simp: par_create_def par_file_new_def Let_def close_small_file_sender_def agree_def
       dest: par_inv_open split: if_splits)

lemma acted_write:
  assumes a: "acted st0 st" and i: "par_inv st" "par_belongs st f n" "k \<le> length (avail r)"
    and w: "par_write st f r k = Inr (st', f', r')"
  shows "acted st0 st'"
proof -
  from w have w: "par_write_loop st f r k = Inr (st', r')" by (auto simp: par_write_def)
  have f: "pf_name f = n" "pf_to_small f = small_spec n" "pf_is_small f = small_spec n"
    using i(2) by (simp_all add: par_belongs_def)
  show ?thesis
  proof (cases "small_spec n")
    case True
    with small_write_agree [OF w _ _ par_inv_open [OF i(1)]] f acted_agree [OF a] show ?thesis by simp
  next
    case False
    let ?ms = "chunk_msgs n (take k (avail r))"
    from False w par_write_loop_actions [of f k r st] f i(3)
    have "run_actions (actions_of ?ms) st = Inr st'" by auto
    moreover have "(n, Fc_Eof) \<notin> set (large_chan st)" using i(2) False by (simp add: par_belongs_def chan_def)
    moreover have "eof_last (msgs_for n ?ms)" by (rule eof_last_none) (simp add: in_msgs_for chunk_msgs_no_eof)
    ultimately show ?thesis using acted_more [OF a] chunk_msgs_names by blast
  qed
qed

lemma acted_insert:
  assumes a: "acted st0 st" and i: "par_inv st" "par_belongs st f n" and w: "par_insert st n f = Inr st'"
  shows "acted st0 st'"
proof (cases "small_spec n")
  case True
  with i w have "agree st st'"
    by (auto simp: par_insert_def is_small_file_spec par_inv_def agree_def chan_send_def Let_def)
  with a show ?thesis by (rule acted_agree)
next
  case False
  with i w have "run_actions (actions_of [(n, Fc_Eof)]) st = Inr st'"
    by (auto simp: par_insert_def is_small_file_spec par_inv_def Let_def split: prod.splits)
  moreover have "(n, Fc_Eof) \<notin> set (large_chan st)" using i(2) False by (simp add: par_belongs_def chan_def)
  ultimately show ?thesis by (intro acted_more [OF a, of "[(n, Fc_Eof)]" st' n]) simp_all
qed

lemma holds_or_and: "holds_or fail r P \<Longrightarrow> (\<And>x. r = Inr x \<Longrightarrow> P x \<Longrightarrow> Q x) \<Longrightarrow> holds_or fail r (\<lambda>x. P x \<and> Q x)"
  by (cases r) auto

interpretation par_acts: image_store par_ops "\<lambda>st. par_inv st \<and> acted st0 st" par_unused par_belongs
  par_content par_stored par_blocks serve_failure for st0
proof (unfold_locales, goal_cases)
  case (1 st n)
  from par_over.create_law [of st n] 1 have
    "holds_or serve_failure (so_create par_ops st n) (\<lambda>x. (case x of (st', f) \<Rightarrow> par_inv st' \<and> par_belongs st' f n
       \<and> par_content st' f = [] \<and> leaves_others par_unused par_belongs par_content par_stored
            (\<lambda>m. \<not> par_blocks n m) n st st') \<and> acted st0 (fst x))"
    by (intro holds_or_and) (auto simp: par_ops_def dest: acted_create)
  then show ?case by (rule holds_or_mono) auto
next
  case (2 st f n k r)
  from par_over.write_law [of st f n k r] 2 have
    "holds_or serve_failure (so_write par_ops st f r k) (\<lambda>x. (case x of (st', f', r') \<Rightarrow> par_inv st' \<and> par_belongs st' f' n
             \<and> par_content st' f' = par_content st f @ take k (avail r)
             \<and> r' = r\<lparr>avail := drop k (avail r)\<rparr>
             \<and> leaves_others par_unused par_belongs par_content par_stored (\<lambda>_. True) n st st') \<and> acted st0 (fst x))"
    by (intro holds_or_and) (auto simp: par_ops_def dest: acted_write)
  then show ?case by (rule holds_or_mono) auto
next
  case (3 st f n)
  have "holds_or serve_failure (so_insert par_ops st n f) (\<lambda>st'. (par_inv st' \<and> par_stored st' n = Some (par_content st f)
             \<and> leaves_others par_unused par_belongs par_content par_stored (\<lambda>_. True) n st st') \<and> acted st0 st')"
    by (rule holds_or_and [OF par_over.insert_law [of st f n]]) (use 3 in \<open>auto simp: par_ops_def intro: acted_insert\<close>)
  then show ?case by (rule holds_or_mono) auto
qed

interpretation par_acts_over: overlay_store par_ops "\<lambda>st. par_inv st \<and> acted st0 st" par_unused par_belongs
  par_content par_stored par_blocks serve_failure E for st0 E
  by unfold_locales (simp add: serve_failure_def)

end
