(* ===== verification/Serve_Threads.thy ===== *)
theory Serve_Threads
  imports Store_Actions
begin

text \<open>
  The two threads of \<open>serve\<close> (\<open>src/extract.rs\<close>), interleaved. While \<open>serve_img\<close> answers the
  clients, the deserializing thread goes on sending chunks and waits for memory before each. A step
  of the system is one action of the deserializer or one round of \<open>serve_img\<close>'s loop. A round
  takes what is on the channel at its start; what the other thread does in the middle of a round
  could as well happen before or after it, since a round reads the channel only once and only
  gives memory back.

  A round that fails ends the command's serving thread with an error; the runs here are followed up to
  that point, those of \<open>Threads_Fail\<close> go on. After \<open>serve_img\<close> has returned the receiver is gone: chunks that are sent are ignored,
  and the first \<open>insert\<close> fails and ends the deserializer.
\<close>

section \<open>The two threads\<close>

record threads =
  todo :: "action list"                  \<comment> \<open>what the deserializing thread has still to do\<close>
  budget :: semaphore
  transit :: channel                     \<comment> \<open>sent and not received yet\<close>
  serving :: serve_state
  serve_ended :: bool                    \<comment> \<open>\<open>serve_img\<close> has returned\<close>

definition threads_start :: "channel \<Rightarrow> int \<Rightarrow> serve_state \<Rightarrow> threads" where
  "threads_start ch limit st =
     \<lparr>todo = actions_of ch @ [Close], budget = sem_new limit, transit = [], serving = st, serve_ended = False\<rparr>"

definition round_env :: "serve_env \<Rightarrow> threads \<Rightarrow> serve_env" where
  "round_env env t = env\<lparr>sv_recv := \<lambda>_. (transit t, todo t = [])\<rparr>"

definition after_round :: "threads \<Rightarrow> serve_state \<Rightarrow> bool \<Rightarrow> threads" where
  "after_round t st fin =
     t\<lparr>transit := (if reciever_eof (serving t) then transit t else []), serving := st, serve_ended := fin,
       budget := fold (\<lambda>r s. sem_release s r)
                   (drop (length (sv_released (serving t))) (sv_released st)) (budget t)\<rparr>"

inductive threads_step :: "serve_env \<Rightarrow> string list \<Rightarrow> threads \<Rightarrow> threads \<Rightarrow> bool" for env fl where
  acquire: "todo t = Acquire k # acts \<Longrightarrow> sem_acquire (budget t) (int k) [] = Inr s \<Longrightarrow>
    threads_step env fl t (t\<lparr>todo := acts, budget := s\<rparr>)"
| send: "todo t = Send msg # acts \<Longrightarrow> \<not> serve_ended t \<Longrightarrow>
    threads_step env fl t (t\<lparr>todo := acts, transit := transit t @ [msg]\<rparr>)"
| send_ignored: "todo t = Send (n, Content b) # acts \<Longrightarrow> serve_ended t \<Longrightarrow>
    threads_step env fl t (t\<lparr>todo := acts\<rparr>)"
| insert_fails: "todo t = Send (n, Fc_Eof) # acts \<Longrightarrow> serve_ended t \<Longrightarrow>
    threads_step env fl t (t\<lparr>todo := []\<rparr>)"
| close: "todo t = Close # acts \<Longrightarrow> threads_step env fl t (t\<lparr>todo := acts\<rparr>)"
| round: "\<not> serve_ended t \<Longrightarrow> serve_round (round_env env t) fl (serving t) = Inr (st, fin) \<Longrightarrow>
    threads_step env fl t (after_round t st fin)"

lemma set_client_parts [simp]:
  "sv_store (set_client k c st) = sv_store st" "sv_released (set_client k c st) = sv_released st"
  "recvs (set_client k c st) = recvs st" "reciever_eof (set_client k c st) = reciever_eof st"
  by (simp_all add: set_client_def)

section \<open>One round\<close>

abbreviation same_store :: "serve_state \<Rightarrow> serve_state \<Rightarrow> bool" where
  "same_store st st' \<equiv> sv_store st' = sv_store st \<and> sv_released st' = sv_released st
     \<and> recvs st' = recvs st \<and> reciever_eof st' = reciever_eof st"

lemma serve_client_cases:
  assumes r: "serve_client env fl key c st = Inr (st', fin)"
  shows "same_store st st' \<or> (\<exists>c1 n. serve_file_request env fl key c1 n (set_client key c1 st) = Inr st')"
proof -
  from r obtain req c1 where q: "read_next_file_request (sv_codec env) c = Inr (req, c1)"
    by (auto simp: serve_client_def)
  show ?thesis
  proof (cases req)
    case None
    with r q show ?thesis by (auto simp: serve_client_def)
  next
    case (Some n)
    consider "n = ''stop-listener''" | "n \<noteq> ''stop-listener''" "CHR ''*'' \<in> set n \<or> n = []"
      | "n \<noteq> ''stop-listener''" "\<not> (CHR ''*'' \<in> set n \<or> n = [])" by blast
    then show ?thesis
    proof cases
      case 1
      with r q Some show ?thesis by (auto simp: serve_client_def Let_def)
    next
      case 2
      with r q Some show ?thesis by (auto simp: serve_client_def Let_def)
    next
      case 3
      with r q Some have "serve_file_request env fl key c1 n (set_client key c1 st) = Inr st'"
        by (simp add: serve_client_def Let_def split: if_split_asm)
      then show ?thesis by blast
    qed
  qed
qed

lemma serve_round_cases:
  assumes r: "serve_round env fl st = Inr (st', fin)"
  obtains st1 st2 where "pump env (receive_chunks env st) = Inr st1" "same_store st1 st2"
    "same_store st2 st' \<or> (\<exists>key c. serve_client env fl key c st2 = Inr (st', fin))"
proof -
  from r obtain st1 obj p where p1: "pump env (receive_chunks env st) = Inr st1"
    and pl: "poller_poll (sv_poll env) (sv_poller st1) 16 = Inr (obj, p)"
    by (auto simp: serve_round_def)
  let ?st2 = "st1\<lparr>sv_poller := p\<rparr>"
  have "same_store ?st2 st' \<or> (\<exists>key c. serve_client env fl key c ?st2 = Inr (st', fin))"
  proof (cases obj)
    case None
    with r p1 pl show ?thesis by (auto simp: serve_round_def)
  next
    case (Some ko)
    obtain key o' where ko: "ko = (key, o')" by force
    with r p1 pl Some show ?thesis by (cases o') (auto simp: serve_round_def Let_def)
  qed
  then show ?thesis by (intro that [OF p1, of ?st2]) simp_all
qed

abbreviation same_recvs :: "serve_state \<Rightarrow> serve_state \<Rightarrow> bool" where
  "same_recvs st st' \<equiv> recvs st' = recvs st \<and> reciever_eof st' = reciever_eof st"

lemma file_request_recvs: "serve_file_request env fl key c n st = Inr st' \<Longrightarrow> same_recvs st st'"
  by (auto simp: serve_file_request_def Let_def set_client_def split: option.splits if_splits)

lemma client_recvs: "serve_client env fl key c st = Inr (st', fin) \<Longrightarrow> same_recvs st st'"
  using serve_client_cases [of env fl key c st st' fin]
  by (auto simp: set_client_def dest: file_request_recvs)

lemma serve_round_recvs:
  assumes "serve_round env fl st = Inr (st', fin)"
  shows "same_recvs (receive_chunks env st) st'"
  using assms by (rule serve_round_cases) (auto simp: pump_def dest: client_recvs)

section \<open>What is delivered\<close>

lemma send_over_chunks_env [simp]:
  "send_over_chunks (env\<lparr>sv_recv := f\<rparr>) n cs p rel i = send_over_chunks env n cs p rel i"
proof (induction cs arbitrary: p rel i)
  case (Cons c cs)
  then show ?case by (cases c) simp_all
qed simp

lemma send_open_pipes_env [simp]:
  "send_open_pipes (env\<lparr>sv_recv := f\<rparr>) ps store rel i = send_open_pipes env ps store rel i"
proof (induction ps arbitrary: store rel i)
  case (Cons x ps)
  then show ?case by (cases x) (simp cong: option.case_cong)
qed simp

lemma serve_client_env [simp]:
  "serve_client (env\<lparr>sv_recv := f\<rparr>) fl key c st = serve_client env fl key c st"
  by (simp add: serve_client_def serve_file_request_def Let_def cong: option.case_cong prod.case_cong if_cong)

lemma serve_round_recv:
  assumes "f (recvs st) = g (recvs st)"
  shows "serve_round (env\<lparr>sv_recv := f\<rparr>) fl st = serve_round (env\<lparr>sv_recv := g\<rparr>) fl st"
proof -
  have "receive_chunks (env\<lparr>sv_recv := f\<rparr>) st = receive_chunks (env\<lparr>sv_recv := g\<rparr>) st"
    using assms by (simp add: receive_chunks_def)
  then show ?thesis
    by (simp add: serve_round_def pump_def Let_def cong: option.case_cong prod.case_cong if_cong poll_type.case_cong)
qed

lemma serve_inv_recv:
  assumes "\<forall>i < recvs st. f i = g i"
  shows "serve_inv (env\<lparr>sv_recv := f\<rparr>) fl store0 st = serve_inv (env\<lparr>sv_recv := g\<rparr>) fl store0 st"
proof -
  have "concat (map (\<lambda>i. fst (f i)) [0..<recvs st]) = concat (map (\<lambda>i. fst (g i)) [0..<recvs st])"
    using assms by (intro arg_cong [of _ _ concat]) simp
  then show ?thesis by (simp add: serve_inv_def received_def del: map_eq_conv)
qed

definition flows :: "serve_env \<Rightarrow> string list \<Rightarrow> chunk_store \<Rightarrow> channel \<Rightarrow> threads \<Rightarrow> bool" where
  "flows env fl store0 ch t \<longleftrightarrow>
     (\<exists>f rest. serve_inv (env\<lparr>sv_recv := f\<rparr>) fl store0 (serving t)
        \<and> ch = concat (map (\<lambda>i. fst (f i)) [0..<recvs (serving t)]) @ rest
        \<and> (\<not> serve_ended t \<longrightarrow> rest = transit t @ sent_by (todo t)))"

lemma flows_round:
  assumes i: "flows env fl store0 ch t" and on: "\<not> serve_ended t" and ok: "serve_env_ok env"
    and r: "serve_round (round_env env t) fl (serving t) = Inr (st', fin)"
  shows "flows env fl store0 ch (after_round t st' fin)"
proof -
  let ?k = "recvs (serving t)" and ?t = "after_round t st' fin"
  from i on obtain f where f: "serve_inv (env\<lparr>sv_recv := f\<rparr>) fl store0 (serving t)"
    "ch = concat (map (\<lambda>i. fst (f i)) [0..<?k]) @ transit t @ sent_by (todo t)"
    by (auto simp: flows_def)
  let ?g = "f(?k := (transit t, todo t = []))"
  have g: "serve_inv (env\<lparr>sv_recv := ?g\<rparr>) fl store0 (serving t)"
    using f(1) serve_inv_recv [of "serving t" ?g f] by simp
  have "serve_round (env\<lparr>sv_recv := ?g\<rparr>) fl (serving t) = Inr (st', fin)"
    using r serve_round_recv [of ?g "serving t" "\<lambda>_. (transit t, todo t = [])" env fl]
    by (simp add: round_env_def)
  from serve_inv_round [OF _ g this] ok have inv: "serve_inv (env\<lparr>sv_recv := ?g\<rparr>) fl store0 st'"
    by (simp add: serve_env_ok_def)
  have k: "recvs st' = (if reciever_eof (serving t) then ?k else Suc ?k)"
    using serve_round_recvs [OF r] by (simp add: receive_chunks_def round_env_def)
  have same: "concat (map (\<lambda>i. fst (?g i)) [0..<?k]) = concat (map (\<lambda>i. fst (f i)) [0..<?k])"
    by (intro arg_cong [of _ _ concat]) simp
  have new: "fst (?g ?k) = transit t" by simp
  have "ch = concat (map (\<lambda>i. fst (?g i)) [0..<recvs st']) @ transit ?t @ sent_by (todo t)"
    unfolding f(2) k after_round_def by (simp del: fun_upd_apply map_eq_conv add: same new)
  with inv show ?thesis
    unfolding flows_def
    by (intro exI [of _ ?g] exI [of _ "transit ?t @ sent_by (todo t)"]) (simp add: after_round_def)
qed

lemma flows_step:
  assumes "threads_step env fl t t'" and "flows env fl store0 ch t" and "serve_env_ok env"
  shows "flows env fl store0 ch t'"
  using assms
proof (induction rule: threads_step.induct)
  case (round t st fin)
  then show ?case using flows_round by blast
next
  case (send t msg acts)
  then show ?case unfolding flows_def by simp
qed (auto simp: flows_def)

lemma flows_reach:
  assumes run: "(threads_step env fl)\<^sup>*\<^sup>* (threads_start ch limit (serve_start store p key)) t"
    and ok: "serve_env_ok env" "registered p = [key \<mapsto> Listener]"
  shows "flows env fl store ch t"
  using run
proof (induction rule: rtranclp_induct)
  case base
  from serve_inv_start [OF ok(2)] show ?case
    unfolding flows_def
    by (intro exI [of _ "sv_recv env"] exI [of _ ch]) (simp add: threads_start_def serve_start_def)
next
  case (step t1 t2)
  then show ?case using flows_step ok(1) by blast
qed

text \<open>At every moment an open pipe holds a first part of its file, and a closed one all of it.\<close>

lemma delivered_in_every_interleaving:
  assumes run: "(threads_step env fl)\<^sup>*\<^sup>* (threads_start ch limit (serve_start store p key)) t"
    and ok: "serve_env_ok env" "registered p = [key \<mapsto> Listener]"
    and once: "distinct (map fst (open_pipes (serving t) @ closed_pipes (serving t)))"
  shows "(\<forall>(n, q) \<in> set (closed_pipes (serving t)). n \<in> set fl
        \<and> written q = bytes_of (upto_eof (chunks_of store n @ msgs_for n ch)))
     \<and> (\<forall>(n, q) \<in> set (open_pipes (serving t)). n \<in> set fl
        \<and> (\<exists>more. written q @ more = bytes_of (upto_eof (chunks_of store n @ msgs_for n ch))))"
proof -
  from flows_reach [OF run ok] obtain f rest where inv: "serve_inv (env\<lparr>sv_recv := f\<rparr>) fl store (serving t)"
    and all: "ch = concat (map (\<lambda>i. fst (f i)) [0..<recvs (serving t)]) @ rest"
    by (auto simp: flows_def)
  let ?ms = "received (env\<lparr>sv_recv := f\<rparr>) store (recvs (serving t))"
  have total: "chunks_of store n @ msgs_for n ch = ?ms n @ msgs_for n rest" for n
    by (simp add: all received_def more_msgs_def)
  have flow: "pipe_flow ?ms (sv_store (serving t)) (open_pipes (serving t)) (closed_pipes (serving t))"
    and names: "fst ` set (open_pipes (serving t) @ closed_pipes (serving t)) \<subseteq> set fl"
    using inv by (auto simp: serve_inv_def)
  have opn: "n \<in> set fl \<and> (\<exists>more. written q @ more = bytes_of (upto_eof (?ms n @ msgs_for n rest)))"
    if nq: "(n, q) \<in> set (open_pipes (serving t))" for n q
  proof -
    from flow once have "\<forall>(n, p) \<in> set (open_pipes (serving t)). \<exists>pre. ?ms n = pre @ chunks_of (sv_store (serving t)) n
        \<and> Fc_Eof \<notin> set pre \<and> written p = bytes_of pre" unfolding pipe_flow_def by blast
    with nq obtain pre where pre: "?ms n = pre @ chunks_of (sv_store (serving t)) n"
      "Fc_Eof \<notin> set pre" "written q = bytes_of pre" by blast
    have "upto_eof (pre @ cs) = pre @ upto_eof cs" for cs
      using pre(2) by (auto simp: upto_eof_def takeWhile_append)
    with pre names nq show ?thesis by force
  qed
  have cls: "n \<in> set fl \<and> written q = bytes_of (upto_eof (?ms n @ msgs_for n rest))"
    if nq: "(n, q) \<in> set (closed_pipes (serving t))" for n q
  proof -
    from flow once have "\<forall>(n, p) \<in> set (closed_pipes (serving t)). Fc_Eof \<in> set (?ms n)
        \<and> written p = bytes_of (upto_eof (?ms n))" unfolding pipe_flow_def by blast
    with nq names show ?thesis by (force simp: upto_eof_append)
  qed
  show ?thesis unfolding total using opn cls by blast
qed

end
