(* ===== verification/Par_Budget.thy ===== *)
theory Par_Budget
  imports Parallel_Store
begin

text \<open>
  The memory budget of the serve command. Whatever sequence of operations the deserializer
  performs on the store of \<open>Parallel_Store\<close>, the bytes of large files that are on the channel and
  not released yet stay within the limit the semaphore was created with; and a chunk that is
  larger than the limit is waited for forever.
\<close>

section \<open>The states of a store\<close>

inductive par_reach :: "par_store \<Rightarrow> par_store \<Rightarrow> par_file set \<Rightarrow> bool" for st0 where
  init: "par_reach st0 st0 {}"
| creating: "par_reach st0 st fs \<Longrightarrow> par_create st n = Inr (st', f) \<Longrightarrow> par_reach st0 st' (insert f fs)"
| writing: "par_reach st0 st fs \<Longrightarrow> f \<in> fs \<Longrightarrow> par_write st f r k = Inr (st', f', r') \<Longrightarrow>
    par_reach st0 st' (insert f' fs)"
| inserting: "par_reach st0 st fs \<Longrightarrow> par_insert st n f = Inr st' \<Longrightarrow> par_reach st0 st' fs"
| closing: "par_reach st0 st fs \<Longrightarrow> par_reach st0 (close_senders st) fs"

text \<open>Bytes of large files that were sent, less what the serving thread has released.\<close>

definition chan_size :: "channel \<Rightarrow> int" where
  "chan_size ch = sum_list (map (\<lambda>m. int (length (chunk_of (snd m)))) ch)"

definition in_flight :: "par_store \<Rightarrow> int" where
  "in_flight st = chan_size (large_chan st) - sum_list (released_log st)"

definition in_budget :: "int \<Rightarrow> par_store \<Rightarrow> bool" where
  "in_budget limit st \<longleftrightarrow>
     start_val (par_sem st) = limit \<and> 0 \<le> sem_count (par_sem st)
     \<and> sem_count (par_sem st) + in_flight st \<le> limit"

definition file_kind_ok :: "par_file \<Rightarrow> bool" where
  "file_kind_ok f \<longleftrightarrow> pf_to_small f = pf_is_small f"

lemma chan_size_snoc [simp]:
  "chan_size (ch @ [(n, c)]) = chan_size ch + int (length (chunk_of c))"
  by (simp add: chan_size_def)

lemma in_budget_acquire:
  assumes "in_budget limit st" and "par_acquire st n = Inr st'"
  shows "start_val (par_sem st') = limit \<and> 0 \<le> sem_count (par_sem st')
       \<and> sem_count (par_sem st') + in_flight st' + int n \<le> limit \<and> large_chan st' = large_chan st"
proof -
  let ?s0 = "fold (\<lambda>r s. sem_release s r) (released st (acquires st)) (par_sem st)"
  from assms(2) obtain s where acq: "sem_acquire ?s0 (int n) (wakeups st (acquires st)) = Inr s"
    and st': "st' = st\<lparr>par_sem := s, acquires := Suc (acquires st),
                released_log := released_log st @ released st (acquires st)
                  @ released_waiting ?s0 (int n) (wakeups st (acquires st))\<rparr>"
    by (auto simp: par_acquire_def Let_def)
  from sem_acquire_budget [OF acq] sem_releases_budget [of "released st (acquires st)" "par_sem st"]
    sem_acquire_start [OF acq] assms(1)
  show ?thesis by (auto simp: st' in_budget_def in_flight_def)
qed

lemma in_budget_send:
  assumes "start_val (par_sem st) = limit" and "0 \<le> sem_count (par_sem st)"
    and "sem_count (par_sem st) + in_flight st + (if small then 0 else int (length (chunk_of c))) \<le> limit"
  shows "in_budget limit (fst (chan_send st small (n, c)))"
  using assms by (auto simp: chan_send_def in_budget_def in_flight_def split: if_splits)

lemma in_budget_write_loop:
  "par_write_loop st fl r k = Inr (st', r') \<Longrightarrow> in_budget limit st \<Longrightarrow> file_kind_ok fl \<Longrightarrow> in_budget limit st'"
proof (induction st fl r k rule: par_write_loop.induct)
  case (1 st fl r k)
  define n where "n = min k CHUNK_SIZE"
  show ?case
  proof (cases "k > 0")
    case False
    with "1.prems" show ?thesis by (subst (asm) par_write_loop.simps) simp
  next
    case True
    with "1.prems"(1) obtain st1 c0 c1 bs rd' c where
      acq: "(if pf_is_small fl then Inr st else par_acquire st n) = Inr st1"
      and c: "mm_with_capacity n = Inr c0" "mm_resize c0 n = Inr c1" "read_exact r n = Inr (bs, rd')"
        "mm_fill c1 0 bs = Inr c"
      and rest: "par_write_loop (fst (chan_send st1 (pf_to_small fl) (pf_name fl, Content c))) fl rd' (k - n)
                 = Inr (st', r')"
      by (subst (asm) par_write_loop.simps)
         (auto simp: Let_def simp flip: n_def del: rbind.simps split: if_split_asm)
    have "length bs = n" using c(3) by (auto simp: read_exact_def split: if_splits)
    moreover have "mm_deref c = bs" using mm_fill_Inr [OF c(4)] by simp
    moreover have "start_val (par_sem st1) = limit \<and> 0 \<le> sem_count (par_sem st1)
        \<and> sem_count (par_sem st1) + in_flight st1 + (if pf_is_small fl then 0 else int n) \<le> limit"
    proof (cases "pf_is_small fl")
      case True
      with acq "1.prems"(2) show ?thesis by (simp add: in_budget_def)
    next
      case False
      with acq have "par_acquire st n = Inr st1" by simp
      from in_budget_acquire [OF "1.prems"(2) this] False show ?thesis by simp
    qed
    ultimately have "in_budget limit (fst (chan_send st1 (pf_to_small fl) (pf_name fl, Content c)))"
      using "1.prems"(3) by (intro in_budget_send) (simp_all add: file_kind_ok_def split: if_splits)
    from "1.IH" [OF True n_def acq c(1,2,3) refl c(4) rest this "1.prems"(3)] show ?thesis .
  qed
qed

lemma in_budget_insert:
  assumes r: "par_insert st n f = Inr st'" and b: "in_budget limit st"
  shows "in_budget limit st'"
proof -
  from r obtain small where "chan_send st small (n, Fc_Eof) = (st', True)"
    by (auto simp: par_insert_def Let_def split: if_splits prod.splits)
  then show ?thesis
    using in_budget_send [of st limit small Fc_Eof n] b by (auto simp: in_budget_def)
qed

lemma par_create_budget:
  "par_create st n = Inr (st', f) \<Longrightarrow> file_kind_ok f \<and> (in_budget limit st \<longrightarrow> in_budget limit st')"
  by (auto simp: par_create_def par_file_new_def file_kind_ok_def Let_def close_small_file_sender_def
      in_budget_def in_flight_def split: if_splits)

lemma par_reach_budget:
  assumes "par_reach st0 st fs" and "in_budget limit st0"
  shows "in_budget limit st \<and> (\<forall>f \<in> fs. file_kind_ok f)"
  using assms(1)
proof induction
  case init
  then show ?case using assms(2) by simp
next
  case (creating st fs n st' f)
  then show ?case using par_create_budget [OF creating.hyps(2)] by simp
next
  case (writing st fs f r k st' f' r')
  then have "par_write_loop st f r k = Inr (st', r')" "f' = f" by (auto simp: par_write_def)
  with writing in_budget_write_loop [of st f r k st' r' limit] show ?case by auto
next
  case (inserting st fs n f st')
  then show ?case using in_budget_insert by blast
next
  case (closing st fs)
  then show ?case by (simp add: close_senders_def in_budget_def in_flight_def)
qed

text \<open>C15: the bytes of large files that are on the channel or being sent, and not released
  by the serving thread yet, never exceed the memory limit, whatever operations the deserializer
  performs and whenever the serving thread releases.\<close>

theorem memory_stays_in_budget:
  assumes "par_reach (file_sender_new rx (sem_new limit) gone rel wake) st fs" and "0 \<le> limit"
  shows "in_flight st \<le> limit"
proof -
  have "in_budget limit (file_sender_new rx (sem_new limit) gone rel wake)"
    using assms(2) by (simp add: in_budget_def in_flight_def file_sender_new_def sem_new_def chan_size_def)
  from par_reach_budget [OF assms(1) this] show ?thesis by (auto simp: in_budget_def)
qed

section \<open>Waiting forever\<close>

lemma sem_releases_le:
  "sem_count s \<le> start_val s \<Longrightarrow>
   sem_count (fold (\<lambda>r s. sem_release s r) rs s) \<le> start_val (fold (\<lambda>r s. sem_release s r) rs s)"
proof (induction rs arbitrary: s)
  case (Cons r rs)
  from Cons.IH [of "sem_release s r"] sem_release_le [of s r] show ?case by simp
qed simp

text \<open>C26: a large chunk that does not fit into the memory limit is never read: the write waits
  forever, whatever the serving thread releases. A chunk is 10 MB, so this is what every file
  of that size meets when the limit is below 10 MB.\<close>

theorem chunk_over_limit_hangs:
  assumes "\<not> pf_is_small f" and "0 < k" and "start_val (par_sem st) < int (min k CHUNK_SIZE)"
    and "sem_count (par_sem st) \<le> start_val (par_sem st)"
  shows "par_write st f r k = Inl Diverge"
proof -
  let ?s0 = "fold (\<lambda>r s. sem_release s r) (released st (acquires st)) (par_sem st)"
  have "start_val ?s0 < int (min k CHUNK_SIZE)"
    using assms(3) sem_releases_budget [of "released st (acquires st)" "par_sem st"] by simp
  from sem_acquire_too_much [OF sem_releases_le [OF assms(4)] this]
  have "par_acquire st (min k CHUNK_SIZE) = Inl Diverge" by (simp add: par_acquire_def Let_def)
  with assms(1,2) show ?thesis by (simp add: par_write_def par_write_loop.simps [of st f r k])
qed

theorem memory_stays_in_budget_witness:
  "\<exists>st f st' f' rd. par_create (file_sender_new rx_ref (sem_new 100) (\<lambda>_ _. False) (\<lambda>_. []) (\<lambda>_. []))
         ''pages-1.img'' = Inr (st, f)
      \<and> par_write st f \<lparr>avail = [7, 8], broken = False\<rparr> 2 = Inr (st', f', rd)
      \<and> large_chan st' \<noteq> [] \<and> in_flight st' \<le> 100"
proof -
  let ?st0 = "file_sender_new rx_ref (sem_new 100) (\<lambda>_ _. False) (\<lambda>_. []) (\<lambda>_. [])"
  have "numbered_name ''pages-'' ''pages-1.img''"
    unfolding numbered_name_def by (intro exI [of _ "''1''"]) (simp add: is_digit_def)
  then have large: "is_small_file rx_ref ''pages-1.img'' = Inr False"
    unfolding is_small_file_spec [OF regex_doc_rx_ref] by (simp add: listed_small_def listed_large_def)
  then obtain st f where c: "par_create ?st0 ''pages-1.img'' = Inr (st, f)"
    and st: "st = close_small_file_sender ?st0" "f = \<lparr>pf_name = ''pages-1.img'', pf_to_small = False, pf_is_small = False\<rparr>"
    by (simp add: par_create_def par_file_new_def file_sender_new_def unwrap_def)
  obtain b where mm: "mm_with_capacity 2 = Inr \<lparr>mm_mem = [0, 0], mm_len = 0\<rparr>"
    "mm_resize \<lparr>mm_mem = [0, 0], mm_len = 0\<rparr> 2 = Inr \<lparr>mm_mem = [0, 0], mm_len = 2\<rparr>"
    "mm_fill \<lparr>mm_mem = [0, 0], mm_len = 2\<rparr> 0 [7, 8] = Inr b"
    using mm_fill_total [of 0 "[7, 8]" "\<lparr>mm_mem = [0, 0], mm_len = 2\<rparr>"]
    by (auto simp: mm_with_capacity_def mm_resize_def mm_wf_def mm_capacity_def rassert_def eval_nat_numeral)
  have stop: "par_write_loop a b c 0 = Inr (a, c)" for a b c by (subst par_write_loop.simps) simp
  have "\<exists>st' rd. par_write st f \<lparr>avail = [7, 8], broken = False\<rparr> 2 = Inr (st', f, rd) \<and> large_chan st' \<noteq> []"
    using mm unfolding st
    by (simp add: par_write_def par_write_loop.simps [of _ _ _ 2] stop CHUNK_SIZE_def MB_def par_acquire_def file_sender_new_def
        close_small_file_sender_def sem_new_def read_exact_def chan_send_def Let_def)
  then obtain st' rd where w: "par_write st f \<lparr>avail = [7, 8], broken = False\<rparr> 2 = Inr (st', f, rd)" "large_chan st' \<noteq> []"
    by blast
  have "par_reach ?st0 st' {f}"
    using par_reach.writing [OF par_reach.creating [OF par_reach.init c] _ w(1)] by simp
  from memory_stays_in_budget [OF this] c w show ?thesis by auto
qed

theorem chunk_over_limit_hangs_witness:
  "par_write (file_sender_new rx_ref (sem_new 100) (\<lambda>_ _. False) (\<lambda>_. [1000]) (\<lambda>_. [1000]))
     \<lparr>pf_name = ''pages-1.img'', pf_to_small = False, pf_is_small = False\<rparr> \<lparr>avail = [], broken = False\<rparr> 200
   = Inl Diverge"
  by (rule chunk_over_limit_hangs) (simp_all add: file_sender_new_def sem_new_def CHUNK_SIZE_def MB_def)

end
