(* ===== verification/Serve_Live.thy ===== *)
theory Serve_Live
  imports Serve_Flow
begin

text \<open>
  The serving loop ends. A client that connects, asks for files that have arrived completely, one
  after the other, and then sends \<open>stop-listener\<close> gets every file, and the loop returns after one
  round for the connection and one for each request.
\<close>

definition kernel_moves :: "serve_env \<Rightarrow> bool" where
  "kernel_moves env \<longleftrightarrow> regex_doc (sv_rx env) \<and> (\<forall>i j. 0 < sv_splice env i j)
     \<and> (\<forall>i. ctl_ok (sv_poll env) i) \<and> (\<forall>r. length (reply_enc (sv_codec env) r) < 10 * KB)"

lemma send_over_chunks_total:
  "kernel_moves env \<Longrightarrow> room p = None \<Longrightarrow>
   \<exists>p' rel' i'. send_over_chunks env n cs p rel i = Inr (Fc_Eof \<in> set cs, p', rel', i') \<and> room p' = None"
proof (induction cs arbitrary: p rel i)
  case (Cons c cs)
  show ?case
  proof (cases c)
    case Fc_Eof
    with Cons.prems show ?thesis by simp
  next
    case (Content b)
    let ?p = "p\<lparr>written := written p @ mm_deref b\<rparr>"
    have v: "vmsplice_all (sv_splice env i) p (mm_deref b) = Inr ?p"
      using Cons.prems by (intro vmsplice_all_total) (simp_all add: kernel_moves_def)
    have sm: "is_small_file (sv_rx env) n = Inr (small_spec n)"
      using Cons.prems by (simp add: kernel_moves_def is_small_file_spec)
    from Cons.IH [of ?p "if small_spec n then rel else rel @ [int (length (mm_deref b))]" "Suc i"]
      Cons.prems v sm Content
    show ?thesis by simp
  qed
qed simp

text \<open>A client with the requests \<open>ns\<close> still to send, and a pipe for each.\<close>

definition asks :: "(string \<Rightarrow> byte list) \<Rightarrow> string list \<Rightarrow> sink connection \<Rightarrow> bool" where
  "asks renc ns c \<longleftrightarrow>
     sock_in c = \<lparr>avail = concat (map (frame renc) (ns @ [''stop-listener''])), broken = False\<rparr>
     \<and> length (sock_fds c) = length ns
     \<and> (\<forall>fds \<in> set (sock_fds c). \<exists>p. fds = [Fd_Pipe p] \<and> written p = [] \<and> room p = None)
     \<and> room (sock_out c) = None"

definition plain_request :: "string \<Rightarrow> bool" where
  "plain_request n \<longleftrightarrow> n \<noteq> ''stop-listener'' \<and> CHR ''*'' \<notin> set n \<and> n \<noteq> []"

lemma send_file_reply_total:
  assumes "kernel_moves env" and "room (sock_out c) = None"
  shows "\<exists>out. send_file_reply (sv_codec env) c b s = Inr (c\<lparr>sock_out := out\<rparr>) \<and> room out = None"
proof -
  have "\<exists>out n. pb_write (reply_enc (sv_codec env)) (sock_out c) r = Inr (out, n) \<and> room out = None" for r
    using assms by (simp add: pb_write_Inr kernel_moves_def write_all_unlimited)
  then obtain out n where "pb_write (reply_enc (sv_codec env)) (sock_out c)
     \<lparr>re_exists = b, re_status = (case s of None \<Rightarrow> if \<not> b then DoesNotExist else Ready | Some s \<Rightarrow> s)\<rparr>
     = Inr (out, n)" "room out = None" by blast
  then show ?thesis by (intro exI [of _ out]) (simp add: send_file_reply_def Let_def)
qed

lemma read_request_asks:
  assumes "msg_codec renc (req_dec ce) rok" and "rok n"
    and "sock_in c = \<lparr>avail = frame renc n @ rest, broken = False\<rparr>"
  shows "read_next_file_request ce c = Inr (Some n, c\<lparr>sock_in := \<lparr>avail = rest, broken = False\<rparr>\<rparr>)"
  using msg_codec.read_frame [OF assms(1,2), of rest False] assms(3)
  by (simp add: read_next_file_request_def)

lemma serve_client_asks:
  assumes k: "kernel_moves env" and rc: "msg_codec renc (req_dec (sv_codec env)) rok" "rok n"
    and n: "plain_request n" "n \<in> set fl"
    and cs: "map_of (sv_store st) n = Some cs" "Fc_Eof \<in> set cs"
    and c: "asks renc (n # ns) c" "registered (sv_poller st) key = Some (Client c)"
  shows "\<exists>c' p st'. serve_client env fl key c st = Inr (st', False) \<and> asks renc ns c'
       \<and> registered (sv_poller st') = (registered (sv_poller st))(key \<mapsto> Client c')
       \<and> pending_events (sv_poller st') = pending_events (sv_poller st)
       \<and> open_pipes st' = open_pipes st \<and> closed_pipes st' = closed_pipes st @ [(n, p)]
       \<and> sv_store st' = AList.delete n (sv_store st) \<and> reciever_eof st' = reciever_eof st
       \<and> listener_key st' = listener_key st \<and> waits (sv_poller st') = waits (sv_poller st)"
proof -
  let ?rest = "concat (map (frame renc) (ns @ [''stop-listener'']))"
  let ?c1 = "c\<lparr>sock_in := \<lparr>avail = ?rest, broken = False\<rparr>\<rparr>"
  have "sock_in c = \<lparr>avail = frame renc n @ ?rest, broken = False\<rparr>" using c(1) by (simp add: asks_def)
  note req = read_request_asks [OF rc this]
  obtain out where out: "send_file_reply (sv_codec env) ?c1 True (Some Ready) = Inr (?c1\<lparr>sock_out := out\<rparr>)"
    "room out = None"
    using send_file_reply_total [OF k, of ?c1 True "Some Ready"] c(1) unfolding asks_def by auto
  obtain p fds where fds: "sock_fds c = [Fd_Pipe p] # fds" "written p = []" "room p = None"
    "length fds = length ns" "\<forall>fd \<in> set fds. \<exists>p. fd = [Fd_Pipe p] \<and> written p = [] \<and> room p = None"
    using c(1) by (cases "sock_fds c") (auto simp: asks_def)
  let ?c2 = "?c1\<lparr>sock_out := out, sock_fds := fds\<rparr>"
  have pipe: "recv_pipe (?c1\<lparr>sock_out := out\<rparr>) = Inr (p, ?c2)"
    using fds(1) by (simp add: recv_pipe_def recv_fd_def unix_pipe_new_def)
  let ?st1 = "set_client key ?c1 st"
  obtain p' rel i where s: "send_over_chunks env n cs p (sv_released ?st1) (sends ?st1) = Inr (True, p', rel, i)"
    using send_over_chunks_total [OF k fds(3), of n cs "sv_released ?st1" "sends ?st1"] cs(2) by auto
  let ?st2 = "set_client key ?c2 (?st1\<lparr>sv_store := AList.delete n (sv_store st),
      filenames_of_sent_files := List.insert n (filenames_of_sent_files ?st1), sv_released := rel, sends := i\<rparr>)"
  have "serve_file_request env fl key ?c1 n ?st1 = Inr (?st2\<lparr>closed_pipes := closed_pipes ?st2 @ [(n, p')]\<rparr>)"
    using n(2) cs(1) out(1) pipe s by (simp add: serve_file_request_def Let_def)
  then have "serve_client env fl key c st = Inr (?st2\<lparr>closed_pipes := closed_pipes ?st2 @ [(n, p')]\<rparr>, False)"
    using req n(1) by (simp add: serve_client_def Let_def plain_request_def)
  moreover have "asks renc ns ?c2" using fds out(2) by (simp add: asks_def)
  moreover have "registered (sv_poller ?st2) = (registered (sv_poller st))(key \<mapsto> Client ?c2)"
    using c(2) by (simp add: set_client_def poller_set_registered)
  moreover have "pending_events (sv_poller ?st2) = pending_events (sv_poller st)"
      "waits (sv_poller ?st2) = waits (sv_poller st)"
    by (simp_all add: set_client_def poller_set_def split: option.split)
  ultimately show ?thesis by (intro exI [of _ ?c2] exI [of _ p'] exI) (auto simp: set_client_def)
qed

text \<open>The loop with a connected client.\<close>

definition client_asks ::
  "serve_env \<Rightarrow> string list \<Rightarrow> (string \<Rightarrow> byte list) \<Rightarrow> nat \<Rightarrow> string list \<Rightarrow> serve_state \<Rightarrow> bool" where
  "client_asks env fl renc key ns st \<longleftrightarrow>
     reciever_eof st \<and> open_pipes st = [] \<and> pending_events (sv_poller st) = []
     \<and> (\<exists>c. registered (sv_poller st) key = Some (Client c) \<and> asks renc ns c)
     \<and> registered (sv_poller st) (listener_key st) = Some Listener
     \<and> (\<forall>i \<ge> waits (sv_poller st). wait_ready (sv_poll env) i = Inr [key])
     \<and> distinct ns \<and> (\<forall>n \<in> set ns. plain_request n \<and> n \<in> set fl
           \<and> (\<exists>cs. map_of (sv_store st) n = Some cs \<and> Fc_Eof \<in> set cs))"

lemma client_round:
  assumes reg: "registered (sv_poller st) key = Some (Client c)"
    and st: "reciever_eof st" "open_pipes st = []" "pending_events (sv_poller st) = []"
    and w: "\<forall>i \<ge> waits (sv_poller st). wait_ready (sv_poll env) i = Inr [key]"
  shows "serve_round env fl st
         = serve_client env fl key c (st\<lparr>sv_poller := (sv_poller st)\<lparr>waits := Suc (waits (sv_poller st))\<rparr>\<rparr>)"
proof -
  from reg obtain fd where fd: "map_of (slab (sv_poller st)) key = Some (fd, Client c)"
    by (auto simp: registered_def)
  then have ne: "slab (sv_poller st) \<noteq> []" by auto
  let ?p = "(sv_poller st)\<lparr>waits := Suc (waits (sv_poller st))\<rparr>"
  have pump: "pump env (receive_chunks env st) = Inr st"
    using st(1,2) by (simp add: receive_chunks_def pump_def)
  have "poller_poll (sv_poll env) (sv_poller st) 16 = Inr (Some (key, Client c), ?p)"
    using st(3) w ne fd by (simp add: poller_poll_def Let_def)
  with pump show ?thesis by (simp add: serve_round_def Let_def)
qed

lemma client_asks_loop:
  assumes k: "kernel_moves env" and rc: "msg_codec renc (req_dec (sv_codec env)) rok" "rok ''stop-listener''"
  shows "client_asks env fl renc key ns st \<Longrightarrow> \<forall>n \<in> set ns. rok n \<Longrightarrow> length ns < fuel \<Longrightarrow>
    \<exists>st'. serve_loop env fl fuel st = Inr st' \<and> map fst (closed_pipes st') = map fst (closed_pipes st) @ ns"
proof (induction ns arbitrary: st fuel)
  case Nil
  then obtain fuel' where f: "fuel = Suc fuel'" by (cases fuel) auto
  from Nil obtain c where c: "registered (sv_poller st) key = Some (Client c)" "asks renc [] c"
    and l: "registered (sv_poller st) (listener_key st) = Some Listener"
    and st: "reciever_eof st" "open_pipes st = []" "pending_events (sv_poller st) = []"
    and w: "\<forall>i \<ge> waits (sv_poller st). wait_ready (sv_poll env) i = Inr [key]"
    unfolding client_asks_def by blast
  let ?st0 = "st\<lparr>sv_poller := (sv_poller st)\<lparr>waits := Suc (waits (sv_poller st))\<rparr>\<rparr>"
  let ?c1 = "c\<lparr>sock_in := \<lparr>avail = [], broken = False\<rparr>\<rparr>"
  have "sock_in c = \<lparr>avail = frame renc ''stop-listener'' @ [], broken = False\<rparr>"
    using c(2) by (simp add: asks_def)
  note req = read_request_asks [OF rc this]
  have "registered (sv_poller (set_client key ?c1 ?st0)) (listener_key st) = Some Listener"
    using l c(1) by (auto simp: set_client_def poller_set_registered registered_def)
  then obtain fd where "map_of (slab (sv_poller (set_client key ?c1 ?st0))) (listener_key st) = Some (fd, Listener)"
    by (auto simp: registered_def)
  then obtain p where "poller_remove (sv_poll env) (sv_poller (set_client key ?c1 ?st0)) (listener_key st)
      = Inr (p, Listener)"
    using k by (simp add: poller_remove_def kernel_moves_def)
  then have "serve_client env fl key c ?st0
      = Inr ((set_client key ?c1 ?st0)\<lparr>stopped := True, sv_poller := p\<rparr>, True)"
    using req st(2) by (simp add: serve_client_def Let_def)
  with client_round [OF c(1) st w] f show ?case by simp
next
  case (Cons n ns)
  from Cons.prems obtain fuel' where f: "fuel = Suc fuel'" "length ns < fuel'" by (cases fuel) auto
  from Cons.prems obtain c cs where c: "registered (sv_poller st) key = Some (Client c)" "asks renc (n # ns) c"
    and l: "registered (sv_poller st) (listener_key st) = Some Listener"
    and st: "reciever_eof st" "open_pipes st = []" "pending_events (sv_poller st) = []"
    and w: "\<forall>i \<ge> waits (sv_poller st). wait_ready (sv_poll env) i = Inr [key]"
    and n: "plain_request n" "n \<in> set fl" "map_of (sv_store st) n = Some cs" "Fc_Eof \<in> set cs" "n \<notin> set ns"
    and ns: "distinct ns" "\<forall>m \<in> set ns. plain_request m \<and> m \<in> set fl
           \<and> (\<exists>cs. map_of (sv_store st) m = Some cs \<and> Fc_Eof \<in> set cs)"
    unfolding client_asks_def by auto
  let ?st0 = "st\<lparr>sv_poller := (sv_poller st)\<lparr>waits := Suc (waits (sv_poller st))\<rparr>\<rparr>"
  have rok: "rok n" "\<forall>m \<in> set ns. rok m" using Cons.prems(2) by simp_all
  have same: "registered (sv_poller ?st0) = registered (sv_poller st)" by (simp add: registered_def fun_eq_iff)
  obtain c' p st' where s: "serve_client env fl key c ?st0 = Inr (st', False)" and c': "asks renc ns c'"
    and reg': "registered (sv_poller st') = (registered (sv_poller st))(key \<mapsto> Client c')"
    and st': "pending_events (sv_poller st') = []" "open_pipes st' = []"
      "closed_pipes st' = closed_pipes st @ [(n, p)]" "sv_store st' = AList.delete n (sv_store st)"
      "reciever_eof st'" "listener_key st' = listener_key st"
      "waits (sv_poller st') = Suc (waits (sv_poller st))"
    using serve_client_asks [OF k rc(1) rok(1) n(1,2) _ n(4) c(2), of ?st0 key] c(1) n(3) st
    unfolding same by auto
  have ne: "m \<in> set ns \<Longrightarrow> m \<noteq> n" for m using n(5) by auto
  have "client_asks env fl renc key ns st'"
    unfolding client_asks_def
    using c' reg' st' l ns c(1) ne w by (auto simp: delete_conv')
  from Cons.IH [OF this rok(2) f(2)] st'(3) client_round [OF c(1) st w] s f(1) show ?case by simp
qed

section \<open>From the start\<close>

text \<open>
  What happens outside: everything arrives in the first round, then one client connects and its
  socket stays readable.
\<close>

definition one_client ::
  "serve_env \<Rightarrow> (string \<Rightarrow> byte list) \<Rightarrow> channel \<Rightarrow> string list \<Rightarrow> bool" where
  "one_client env renc ch ns \<longleftrightarrow>
     sv_recv env 0 = (ch, True)
     \<and> (\<exists>lfd fd c. sv_bind env = Inr lfd \<and> sv_accept env 0 = Inr (fd, c) \<and> asks renc ns c)
     \<and> (let lkey = vacant_key (sv_poll env) [];
            ckey = vacant_key (sv_poll env) [lkey] in
        wait_ready (sv_poll env) 0 = Inr [lkey]
        \<and> (\<forall>i \<ge> 1. wait_ready (sv_poll env) i = Inr [ckey]))"

lemma serve_img_one_client:
  assumes k: "kernel_moves env" and rc: "msg_codec renc (req_dec (sv_codec env)) rok" "rok ''stop-listener''" "\<forall>n \<in> set ns. rok n"
    and slab: "slab_ok (sv_poll env)" and one: "one_client env renc ch ns"
    and ns: "distinct ns" "\<forall>n \<in> set ns. plain_request n \<and> n \<in> set fl
        \<and> Fc_Eof \<in> set (msgs_for n small_msgs @ msgs_for n ch)"
    and fuel: "Suc (length ns) < fuel"
  shows "\<exists>st. serve_img fenc fdec env fuel small_msgs fl [] = Inr st \<and> map fst (closed_pipes st) = ns"
proof -
  let ?lkey = "vacant_key (sv_poll env) []"
  let ?ckey = "vacant_key (sv_poll env) [?lkey]"
  from one obtain lfd fd c where env: "sv_recv env 0 = (ch, True)" "sv_bind env = Inr lfd"
    "sv_accept env 0 = Inr (fd, c)" "asks renc ns c" "wait_ready (sv_poll env) 0 = Inr [?lkey]"
    "\<forall>i \<ge> 1. wait_ready (sv_poll env) i = Inr [?ckey]"
    unfolding one_client_def Let_def by blast
  have keys: "?ckey \<noteq> ?lkey" using slab unfolding slab_ok_def by (metis list.set_intros(1))
  have ctl: "ctl_ok (sv_poll env) i" for i using k by (simp add: kernel_moves_def)
  let ?p = "\<lparr>slab = [(?lkey, lfd, Listener)], pending_events = [], ctls = 1, waits = 0\<rparr>"
  let ?store = "foldl store_push [] small_msgs"
  have add: "poller_add (sv_poll env) poller_new lfd Listener = Inr (?p, ?lkey)"
    using ctl by (simp add: poller_add_def poller_new_def Let_def)
  let ?p1 = "\<lparr>slab = [(?lkey, lfd, Listener), (?ckey, fd, Client c)], pending_events = [], ctls = 2, waits = 1\<rparr>"
  let ?st1 = "(serve_start ?store ?p ?lkey)\<lparr>sv_store := foldl store_push ?store ch, reciever_eof := True,
      recvs := 1, sv_poller := ?p1, accepts := 1\<rparr>"
  have round: "serve_round env fl (serve_start ?store ?p ?lkey) = Inr (?st1, False)"
    using env ctl keys
    by (simp add: serve_round_def receive_chunks_def pump_def serve_start_def poller_poll_def
        poller_add_def Let_def numeral_2_eq_2)
  have "client_asks env fl renc ?ckey ns ?st1"
  proof -
    have "\<exists>cs. map_of (foldl store_push ?store ch) n = Some cs \<and> Fc_Eof \<in> set cs" if "n \<in> set ns" for n
    proof -
      have "chunks_of (foldl store_push ?store ch) n = msgs_for n small_msgs @ msgs_for n ch"
        by (simp add: chunks_of_fold) (simp add: chunks_of_def)
      with ns(2) that show ?thesis
        by (cases "map_of (foldl store_push ?store ch) n") (auto simp: chunks_of_def)
    qed
    then show ?thesis
      unfolding client_asks_def using env ns keys
      by (auto simp: registered_def serve_start_def)
  qed
  moreover obtain fuel' where f: "fuel = Suc fuel'" "length ns < fuel'" using fuel by (cases fuel) auto
  ultimately obtain st where "serve_loop env fl fuel' ?st1 = Inr st" "map fst (closed_pipes st) = ns"
    using client_asks_loop [OF k rc(1,2), of fl ?ckey ns ?st1 fuel'] rc(3) by (auto simp: serve_start_def)
  with round add env(2) f(1) show ?thesis
    by (simp add: serve_img_def patch_store_def)
qed

end
