(* ===== verification/Par_Live.thy ===== *)
theory Par_Live
  imports Serve_Cmd Serve_Live
begin

text \<open>
  The serve command ends. When a chunk fits into the memory limit and the serving thread gives
  back what it was handed, the deserializer never waits forever, and the store of
  \<open>Parallel_Store\<close> meets the contract of a store that does not fail. With a client that asks for
  its files and stops the listener, the whole command returns.
\<close>

section \<open>Enough memory is given back\<close>

text \<open>Around each \<open>acquire\<close>, releases add up to the whole budget.\<close>

definition memory_comes_back :: "int \<Rightarrow> par_store \<Rightarrow> bool" where
  "memory_comes_back limit st \<longleftrightarrow>
     start_val (par_sem st) = limit \<and> int CHUNK_SIZE \<le> limit
     \<and> 0 \<le> sem_count (par_sem st) \<and> sem_count (par_sem st) \<le> limit
     \<and> (\<forall>i. (\<forall>r \<in> set (released st i @ wakeups st i). 0 \<le> r)
            \<and> limit \<le> sum_list (released st i) + sum_list (wakeups st i))"

lemma sem_releases_enough:
  "\<forall>r \<in> set rs. 0 \<le> r \<Longrightarrow> sem_count s \<le> start_val s \<Longrightarrow>
   min (start_val s) (sem_count s + sum_list rs) \<le> sem_count (fold (\<lambda>r s. sem_release s r) rs s)
   \<and> sem_count (fold (\<lambda>r s. sem_release s r) rs s) \<le> start_val s"
proof (induction rs arbitrary: s)
  case (Cons r rs)
  have "0 \<le> sum_list rs" using Cons.prems(1) by (intro sum_list_nonneg) auto
  with Cons.IH [of "sem_release s r"] Cons.prems sem_release_le [of s r] show ?case
    by (auto simp: sem_release_def min_def split: if_splits)
qed simp

lemma acquire_comes_back:
  assumes m: "memory_comes_back limit st" and n: "n \<le> CHUNK_SIZE"
  shows "\<exists>st'. par_acquire st n = Inr st' \<and> memory_comes_back limit st'"
proof -
  let ?rel = "released st (acquires st)" and ?wake = "wakeups st (acquires st)"
  let ?s0 = "fold (\<lambda>r s. sem_release s r) ?rel (par_sem st)"
  have nonneg: "\<forall>r \<in> set ?rel. 0 \<le> r" "\<forall>r \<in> set ?wake. 0 \<le> r"
    and sum: "limit \<le> sum_list ?rel + sum_list ?wake"
    and sem: "start_val (par_sem st) = limit" "0 \<le> sem_count (par_sem st)" "sem_count (par_sem st) \<le> limit"
      "int CHUNK_SIZE \<le> limit"
    using m by (auto simp: memory_comes_back_def)
  have s0: "min limit (sem_count (par_sem st) + sum_list ?rel) \<le> sem_count ?s0" "sem_count ?s0 \<le> limit"
    "start_val ?s0 = limit"
    using sem_releases_enough [OF nonneg(1), of "par_sem st"] sem
      sem_releases_budget [of ?rel "par_sem st"] by auto
  have "0 \<le> sum_list ?wake" using nonneg(2) by (intro sum_list_nonneg) auto
  with s0 sum sem n have "int n \<le> sem_count ?s0 + sum_list ?wake" "int n \<le> start_val ?s0" by linarith+
  then obtain s where s: "sem_acquire ?s0 (int n) ?wake = Inr s" "sem_count s \<le> start_val ?s0"
    using sem_acquire_enough [of ?s0 ?wake "int n"] s0(2,3) nonneg(2) by auto
  have "0 \<le> sem_count s" "start_val s = limit"
    using sem_acquire_budget [OF s(1)] sem_acquire_start [OF s(1)] s0(3) by auto
  with s m s0 show ?thesis by (auto simp: par_acquire_def Let_def memory_comes_back_def)
qed

lemma send_comes_back [simp]:
  "memory_comes_back limit (fst (chan_send st small x)) = memory_comes_back limit st"
  by (simp add: chan_send_def memory_comes_back_def)

lemma write_comes_back:
  "memory_comes_back limit st \<Longrightarrow>
   holds_or (\<lambda>e. e \<noteq> Diverge) (par_write_loop st fl r k) (\<lambda>(st', _). memory_comes_back limit st')"
proof (induction st fl r k rule: par_write_loop.induct)
  case (1 st fl r k)
  define n where "n = min k CHUNK_SIZE"
  show ?case
  proof (cases "k > 0")
    case False
    with "1.prems" show ?thesis by (subst par_write_loop.simps) simp
  next
    case True
    have acq: "holds_or (\<lambda>e. e \<noteq> Diverge) (if pf_is_small fl then Inr st else par_acquire st n)
        (memory_comes_back limit)"
      using acquire_comes_back [OF "1.prems", of n] "1.prems" by (auto simp: n_def)
    have mm: "holds_or (\<lambda>e. e \<noteq> Diverge) (mm_with_capacity n) (\<lambda>_. True)"
      "holds_or (\<lambda>e. e \<noteq> Diverge) (mm_resize c n) (\<lambda>_. True)"
      "holds_or (\<lambda>e. e \<noteq> Diverge) (read_exact r n) (\<lambda>_. True)"
      "holds_or (\<lambda>e. e \<noteq> Diverge) (mm_fill c 0 bs) (\<lambda>_. True)" for c bs
      by (auto simp: mm_with_capacity_def mm_resize_def read_exact_def mm_fill_def rassert_def)
    show ?thesis
    proof (subst par_write_loop.simps, simp only: True if_True Let_def n_def [symmetric],
        rule holds_or_bind [OF acq], rule holds_or_bind [OF mm(1)], rule holds_or_bind [OF mm(2)],
        rule holds_or_bind [OF mm(3)], goal_cases)
      case a: (1 st1 c0 c1 x)
      obtain bs rd' where x: "x = (bs, rd')" by force
      show ?case
        unfolding x prod.case
      proof (rule holds_or_bind [OF mm(4)], goal_cases)
        case b: (1 c)
        show ?case
          by (rule "1.IH" [OF True n_def a(1) a(3) a(5) a(7) [unfolded x] refl b(1)]) (simp add: a(2))
      qed
    qed
  qed
qed

section \<open>A store that never fails\<close>

abbreviation par_free :: "int \<Rightarrow> par_store \<Rightarrow> bool" where
  "par_free limit st \<equiv> par_inv st \<and> memory_comes_back limit st"

lemma holds_or_both:
  "holds_or (\<lambda>e. e = Diverge) r P \<Longrightarrow> holds_or (\<lambda>e. e \<noteq> Diverge) r Q \<Longrightarrow>
   holds_or (\<lambda>_. False) r (\<lambda>x. P x \<and> Q x)"
  by (cases r) auto

interpretation par_live: total_image_store par_ops "par_free limit" par_unused par_belongs
  par_content par_stored par_blocks "\<lambda>_. False" for limit
proof (unfold_locales, goal_cases)
  case (1 st n)
  have "holds_or (\<lambda>e. e \<noteq> Diverge) (so_create par_ops st n) (\<lambda>(st', _). memory_comes_back limit st')"
    using 1 by (auto simp: par_ops_def par_create_def par_file_new_def is_small_file_spec par_inv_def
        unwrap_def close_small_file_sender_def memory_comes_back_def Let_def)
  from holds_or_both [OF par.create_law this] 1 show ?case
    by (auto elim!: holds_or_mono)
next
  case (2 st f n k r)
  have "holds_or (\<lambda>e. e \<noteq> Diverge) (so_write par_ops st f r k)
      (\<lambda>(st', _). memory_comes_back limit st')"
    using 2 write_comes_back [of limit st f r k]
    by (cases "par_write_loop st f r k") (auto simp: par_ops_def par_write_def)
  from holds_or_both [OF par.write_law [OF _ 2(2,3)] this] 2 show ?case
    by (auto elim!: holds_or_mono)
next
  case (3 st f n)
  have "holds_or (\<lambda>e. e \<noteq> Diverge) (so_insert par_ops st n f) (memory_comes_back limit)"
    using 3(1)
    by (auto simp: par_ops_def par_insert_def is_small_file_spec par_inv_def unwrap_def rassert_def
        ensure_def chan_send_def memory_comes_back_def Let_def)
  from holds_or_both [OF par.insert_law [OF _ 3(2)] this] 3 show ?case
    by (auto elim!: holds_or_mono)
qed simp

interpretation par_live_over: overlay_store par_ops "par_free limit" par_unused par_belongs
  par_content par_stored par_blocks "\<lambda>_. False" "{}" for limit
  by unfold_locales simp

section \<open>The whole command\<close>

lemma extract_par_free:
  assumes cap: "capture_events k shs cap es = Inr s" and fresh: "fresh_shards shs"
    and fits: "run_fits k es" "image_fits k cap es (length shs) fuel"
    and wf: "wf_run es" "names_ok es"
    and libs: "msg_codec (pb_enc k) (pb_dec e) marker_ok" "poll_ok (\<lambda>_. False) e"
      "of_json e (to_json k (finished_names es)) = Some (finished_names es)"
      "regex_doc rx" "regex_doc (regexes k)"
    and chans: "\<forall>small i. \<not> gone small i"
    and mem: "memory_comes_back b (file_sender_new rx (sem_new b) gone rel wake)"
    and pipes: "mset pipes = mset (map pipe_of (shards s))"
  shows "\<exists>d. extract_image e (ov_ops par_ops) fuel
           (overlay_new (file_sender_new rx (sem_new b) gone rel wake) ask) (pipe_of (small_shard s) # pipes)
         = Inr (finished_names es, d) \<and> par_inv (underlying (img_store d))
       \<and> (\<forall>f. f \<noteq> METADATA_FILE \<longrightarrow> f \<in> fst ` set es \<longrightarrow>
             par_stored (underlying (img_store d)) f = Some (file_content f es))"
proof -
  let ?fs = "file_sender_new rx (sem_new b) gone rel wake"
  have "overlay_store.ext_ready par_inv par_unused par_blocks {} k es ?fs []"
    using par_ready [OF libs(4,5) chans, of "[]" es "sem_new b" rel wake] by simp
  then have "par_live_over.ext_ready b k es ?fs []"
    using mem unfolding par_live_over.ext_ready_def par_over.ext_ready_def by simp
  from par_live_over.extract_overlay [OF cap fresh fits wf libs(1-3) this pipes, of ask]
  show ?thesis by (auto simp: holds_or_total ov_inv_def ov_stored_def)
qed

lemma serve_cmd_ends:
  assumes cap: "capture_events k shs cap es = Inr s" and fresh: "fresh_shards shs"
    and fits: "run_fits k es" "image_fits k cap es (length shs) fuel"
    and wf: "wf_run es" "names_ok es"
    and libs: "msg_codec (pb_enc k) (pb_dec e) marker_ok" "poll_ok (\<lambda>_. False) e"
      "of_json e (to_json k (finished_names es)) = Some (finished_names es)"
      "regex_doc rx" "regex_doc (regexes k)"
    and chans: "\<forall>small i. \<not> sp_gone sp small i" and dir: "sp_mkdir sp"
    and budget: "memory_budget limit (sp_ram sp) = Inr b"
    and mem: "memory_comes_back b (file_sender_new rx (sem_new b) (sp_gone sp) (sp_released sp) (sp_wakeups sp))"
    and pipes: "mset pipes = mset (map pipe_of (shards s))"
    and ns: "distinct ns" "\<forall>n \<in> set ns. plain_request n \<and> n \<in> set (finished_names es)"
    and fuel2: "Suc (length ns) < fuel2"
  shows "\<exists>fs. \<forall>env renc rok. sv_rx env = rx \<longrightarrow> kernel_moves env \<longrightarrow> slab_ok (sv_poll env) \<longrightarrow>
      msg_codec renc (req_dec (sv_codec env)) rok \<longrightarrow> (\<forall>n \<in> insert ''stop-listener'' (set ns). rok n) \<longrightarrow>
      one_client env renc (large_chan fs) ns \<longrightarrow>
      (\<exists>st. serve_cmd fenc fdec e sp env fuel fuel2 (pipe_of (small_shard s) # pipes) [] [] limit = Inr (fs, st)
          \<and> map fst (closed_pipes st) = ns)"
proof -
  obtain d where d: "extract_image e (ov_ops par_ops) fuel
           (overlay_new (file_sender_new rx (sem_new b) (sp_gone sp) (sp_released sp) (sp_wakeups sp)) (sp_splice sp))
           (pipe_of (small_shard s) # pipes) = Inr (finished_names es, d)"
    and stored: "\<forall>f. f \<noteq> METADATA_FILE \<longrightarrow> f \<in> fst ` set es \<longrightarrow>
             par_stored (underlying (img_store d)) f = Some (file_content f es)"
    using extract_par_free [OF cap fresh fits wf libs chans mem pipes, of "sp_splice sp"] by blast
  let ?fs = "close_senders (underlying (img_store d))"
  have names: "f \<in> set (finished_names es) \<Longrightarrow> f \<noteq> METADATA_FILE \<and> f \<in> fst ` set es" for f
    using wf(2) by (auto simp: names_ok_def finished_names_def)
  have complete: "Fc_Eof \<in> set (msgs_for n (small_chan ?fs) @ msgs_for n (large_chan ?fs))" if "n \<in> set ns" for n
  proof -
    have "par_stored (underlying (img_store d)) n \<noteq> None" using ns(2) that names stored by simp
    then show ?thesis
      by (cases "small_spec n") (auto simp: par_stored_def Let_def chan_def close_senders_def split: if_splits)
  qed
  show ?thesis
  proof (intro exI [of _ ?fs] allI impI)
    fix env :: serve_env and renc rok
    assume env: "sv_rx env = rx" "kernel_moves env" "slab_ok (sv_poll env)"
      "msg_codec renc (req_dec (sv_codec env)) rok" "\<forall>n \<in> insert ''stop-listener'' (set ns). rok n" "one_client env renc (large_chan ?fs) ns"
    have complete': "\<forall>n \<in> set ns. plain_request n \<and> n \<in> set (finished_names es)
        \<and> Fc_Eof \<in> set (msgs_for n (small_chan ?fs) @ msgs_for n (large_chan ?fs))"
      using ns(2) complete by blast
    have "\<exists>st. serve_img fenc fdec env fuel2 (small_chan ?fs) (finished_names es) [] = Inr st
        \<and> map fst (closed_pipes st) = ns"
      by (rule serve_img_one_client [OF env(2,4) _ _ env(3,6) ns(1) complete' fuel2]) (use env(5) in simp_all)
    then obtain st where "serve_img fenc fdec env fuel2 (small_chan ?fs) (finished_names es) [] = Inr st"
      "map fst (closed_pipes st) = ns" by blast
    with d dir budget env(1) show "\<exists>st. serve_cmd fenc fdec e sp env fuel fuel2
        (pipe_of (small_shard s) # pipes) [] [] limit = Inr (?fs, st) \<and> map fst (closed_pipes st) = ns"
      by (simp add: serve_cmd_def Let_def)
  qed
qed

end
