(* ===== verification/Capture_Total.thy ===== *)
theory Capture_Total
  imports Capture_Log
begin

text \<open>
  The serializer returns. When the kernel keeps moving bytes, the readers of the shards stay, and
  the messages fit their limit, no assertion of the capture code fails, no loop runs on, and every
  call of \<open>capture_events\<close> makes ends without an error.
\<close>

definition capture_env_ok :: "cenv \<Rightarrow> bool" where
  "capture_env_ok k \<longleftrightarrow>
     0 < page_size k \<and> (\<forall>t fd. \<exists>n. fion k t fd = Inr n) \<and> (\<forall>b t i. 0 < splice_n k b t i)
     \<and> regex_doc (regexes k) \<and> (\<forall>m. marker_ok m \<longrightarrow> length (pb_enc k m) < 10 * KB)"

definition open_ended :: "serializer \<Rightarrow> bool" where
  "open_ended s \<longleftrightarrow>
     room (sh_pipe (small_shard s)) = None \<and> shards s \<noteq> []
     \<and> (\<forall>sh \<in> set (shards s). room (sh_pipe sh) = None)
     \<and> small_seq s < 2 ^ 64 \<and> next_seq s < 2 ^ 64"

text \<open>A chunk whose data is on the stream.\<close>

definition chunk_ready :: "(reader \<times> int) option \<Rightarrow> bool" where
  "chunk_ready data \<longleftrightarrow> (case data of None \<Rightarrow> True | Some (src, sz) \<Rightarrow> nat sz \<le> length (avail src))"

lemma pb_write_total:
  assumes "capture_env_ok k" and "marker_ok m" and "room p = None"
  shows "pb_write (pb_enc k) p m
         = Inr (p\<lparr>written := written p @ frame (pb_enc k) m\<rparr>, 4 + length (pb_enc k m))"
  using assms by (simp add: pb_write_Inr capture_env_ok_def write_all_unlimited)

lemma put_chunk_total:
  assumes k: "capture_env_ok k" and m: "marker_ok m" and r: "room (sh_pipe sh) = None"
    and d: "chunk_ready data"
  shows "\<exists>sh' n. put_chunk k sm m data req sh = Inr (sh', n, rest_of data) \<and> room (sh_pipe sh') = None"
proof (cases data)
  case None
  with pb_write_total [OF k m r] r show ?thesis by (simp add: put_chunk_def Let_def)
next
  case (Some a)
  obtain src sz where a: "a = (src, sz)" by (cases a)
  let ?p = "(sh_pipe sh)\<lparr>written := written (sh_pipe sh) @ frame (pb_enc k) m\<rparr>"
  have "splice_all (splice_n k sm (mseq m)) src ?p (nat sz)
        = Inr (src\<lparr>avail := drop (nat sz) (avail src)\<rparr>,
               ?p\<lparr>written := written ?p @ take (nat sz) (avail src)\<rparr>)"
    using k d Some a r by (intro splice_all_total) (simp_all add: capture_env_ok_def chunk_ready_def)
  with Some a pb_write_total [OF k m r] r show ?thesis by (simp add: put_chunk_def Let_def)
qed

lemma refresh_all_total:
  assumes k: "capture_env_ok k" and s: "open_ended s"
  shows "\<exists>s'. refresh_all_shard_remaining_space k t s = Inr s' \<and> open_ended s'"
proof -
  let ?f = "refresh_remaining_space k t (pipe_capacity s)"
  have one: "\<exists>y. ?f sh = Inr y" for sh
  proof -
    obtain n where "fion k t (sh_fd sh) = Inr n" using k unfolding capture_env_ok_def by blast
    then show ?thesis by (simp add: refresh_remaining_space_def)
  qed
  from rmap_total [of "shards s" ?f, OF one] obtain shs where r: "rmap ?f (shards s) = Inr shs" by blast
  then have "refresh_all_shard_remaining_space k t s = Inr (s\<lparr>shards := shs\<rparr>)"
    by (simp add: refresh_all_shard_remaining_space_def)
  moreover have "room (sh_pipe sh) = None" if "sh \<in> set shs" for sh
  proof -
    from that obtain i where "i < length shs" "sh = shs ! i" by (auto simp: in_set_conv_nth)
    with rmap_Inr_nth [OF r, of i] rmap_Inr_length [OF r] s show ?thesis
      by (auto simp: open_ended_def dest!: refresh_remaining_Inr)
  qed
  moreover have "shs \<noteq> []" using rmap_Inr_length [OF r] s by (auto simp: open_ended_def)
  ultimately show ?thesis using s by (simp add: open_ended_def)
qed

lemma write_chunk_total:
  assumes k: "capture_env_ok k" and s: "open_ended s" and m: "marker_ok m" and d: "chunk_ready data"
  shows "\<exists>s'. write_chunk k s m data sm = Inr (s', rest_of data) \<and> open_ended s'"
proof (cases sm)
  case True
  have "room (sh_pipe (small_shard s)) = None" using s by (simp add: open_ended_def)
  from put_chunk_total [OF k m this d] obtain sh' n where
    "put_chunk k True m data (i32 (int (page_size k) + (case data of None \<Rightarrow> 0 | Some (_, sz) \<Rightarrow> sz)))
       (small_shard s) = Inr (sh', n, rest_of data)" "room (sh_pipe sh') = None" by blast
  with True s show ?thesis by (simp add: write_chunk_def Let_def open_ended_def)
next
  case False
  define req where "req = i32 (int (page_size k) + (case data of None \<Rightarrow> 0 | Some (_, sz) \<Rightarrow> sz))"
  have "\<exists>top. heap_peek shard_cmp (shards s) = Some top"
    using s by (simp add: open_ended_def heap_peek_def)
  then obtain top :: shard where top: "heap_peek shard_cmp (shards s) = Some top" ..
  obtain s1 where s1: "(if remaining_space top < req
      then refresh_all_shard_remaining_space k (mseq m) s else Inr s) = Inr s1" "open_ended s1"
    using refresh_all_total [OF k s, of "mseq m"] s that by (cases "remaining_space top < req") auto
  have "\<exists>sh. heap_peek shard_cmp (shards s1) = Some sh"
    using s1 by (simp add: open_ended_def heap_peek_def)
  then obtain sh :: shard where sh: "heap_peek shard_cmp (shards s1) = Some sh" ..
  have "room (sh_pipe sh) = None" using heap_peek_mem [OF sh] s1 by (simp add: open_ended_def)
  from put_chunk_total [OF k m this d] obtain sh' n where
    p: "put_chunk k False m data req sh = Inr (sh', n, rest_of data)" "room (sh_pipe sh') = None"
    by blast
  let ?s' = "s1\<lparr>shards := heap_set_top shard_cmp sh' (shards s1),
                current_file_size := u64_add (current_file_size s1) n\<rparr>"
  have "write_chunk k s m data sm = Inr (?s', rest_of data)"
    using False top s1 sh p by (simp add: write_chunk_def Let_def flip: req_def)
  moreover have "open_ended ?s'"
    using s1 p by (auto simp: open_ended_def heap_set_top_def dest!: set_update_subset_insert [THEN subsetD])
  ultimately show ?thesis by blast
qed

lemma emit_total:
  assumes k: "capture_env_ok k" and s: "open_ended s" and b: "body_ok b" and d: "chunk_ready data"
  shows "\<exists>s'. emit k s b data sm = Inr (s', rest_of data) \<and> open_ended s'"
proof -
  obtain m s1 where g: "gen_marker s b sm = (m, s1)" by (cases "gen_marker s b sm")
  then have "open_ended s1" "marker_ok m"
    using s b by (auto simp: gen_marker_def open_ended_def marker_ok_def split: if_splits)
  from write_chunk_total [OF k this d] g show ?thesis by (simp add: emit_def)
qed

lemma open_ended_set [simp]:
  "open_ended (s\<lparr>current_filename := x\<rparr>) = open_ended s"
  "open_ended (s\<lparr>metadata := md\<rparr>) = open_ended s"
  by (simp_all add: open_ended_def)

lemma drain_loop_total:
  "capture_env_ok k \<Longrightarrow> open_ended s \<Longrightarrow> r < 2 ^ 31 \<Longrightarrow> nat r \<le> length (avail src) \<Longrightarrow> nat r \<le> fuel \<Longrightarrow>
   \<exists>s' src'. drain_loop k fuel sm r s src = Inr (s', src') \<and> open_ended s'"
proof (induction fuel arbitrary: r s src)
  case 0
  then show ?case by (subst drain_loop.simps) auto
next
  case (Suc fuel)
  show ?case
  proof (cases "r > 0")
    case False
    with Suc.prems show ?thesis by (subst drain_loop.simps) auto
  next
    case True
    define d where "d = min r (chunk_max_data_size k s)"
    have "0 < page_size k" using Suc.prems(1) by (simp add: capture_env_ok_def)
    then have "0 < chunk_max_data_size k s" by (auto simp: chunk_max_data_size_def)
    then have dd: "0 < d" "d \<le> r" using True by (auto simp: d_def)
    then have "as_u32 d < 2 ^ 32" by (intro as_u32_lt)
    moreover have "chunk_ready (Some (src, d))" using dd Suc.prems(4) by (simp add: chunk_ready_def)
    ultimately obtain s1 where
      e: "emit k s (FileData (as_u32 d)) (Some (src, d)) sm
          = Inr (s1, Some (src\<lparr>avail := drop (nat d) (avail src)\<rparr>))" and s1: "open_ended s1"
      using emit_total [OF Suc.prems(1,2), of "FileData (as_u32 d)" "Some (src, d)" sm] by auto
    have i: "i32 (r - d) = r - d" using dd Suc.prems(3) by (intro i32_small) auto
    have "\<exists>s' src'. drain_loop k fuel sm (r - d) s1 (src\<lparr>avail := drop (nat d) (avail src)\<rparr>)
            = Inr (s', src') \<and> open_ended s'"
      by (rule Suc.IH) (use dd Suc.prems s1 in auto)
    with e i True show ?thesis by (subst drain_loop.simps) (auto simp: Let_def d_def [symmetric])
  qed
qed

lemma drain_img_file_total:
  assumes k: "capture_env_ok k" and s: "open_ended s" and len: "length (snd ev) < 2 ^ 31"
    and nm: "length (fst ev) \<le> 10000"
  shows "\<exists>b s' f'. drain_img_file k s (event_file ev) = Inr (b, s', f') \<and> open_ended s'"
proof -
  have r: "i32 (int (length (snd ev))) = int (length (snd ev))" using len by (intro i32_small) auto
  from k obtain sm where sm: "is_small_file (regexes k) (fst ev) = Inr sm"
    using is_small_file_spec [of "regexes k" "fst ev"] by (auto simp: capture_env_ok_def)
  have "\<exists>s1. maybe_write_filename_marker k s (fst ev) sm = Inr s1 \<and> open_ended s1"
    using emit_total [OF k, of "s\<lparr>current_filename := Some (fst ev)\<rparr>" "Filename (fst ev)" None sm] s nm
    by (auto simp: maybe_write_filename_marker_def chunk_ready_def)
  then obtain s1 where s1: "maybe_write_filename_marker k s (fst ev) sm = Inr s1" "open_ended s1" by blast
  obtain s2 src where s2: "drain_loop k (length (snd ev)) sm (int (length (snd ev))) s1
      \<lparr>avail = snd ev, broken = False\<rparr> = Inr (s2, src)" "open_ended s2"
    using drain_loop_total [OF k s1(2), of "int (length (snd ev))" "\<lparr>avail = snd ev, broken = False\<rparr>"
        "length (snd ev)" sm] len by auto
  obtain s3 where s3: "emit k (s2\<lparr>metadata := metadata s2 @ [fst ev]\<rparr>) (FileEof True) None sm
      = Inr (s3, None)" "open_ended s3"
    using emit_total [OF k, of "s2\<lparr>metadata := metadata s2 @ [fst ev]\<rparr>" "FileEof True" None sm] s2(2)
    by (auto simp: chunk_ready_def)
  show ?thesis
    using r sm s1 s2 s3
    by (simp add: drain_img_file_def event_file_def fionread_def Let_def)
qed

lemma drain_events_total:
  "capture_env_ok k \<Longrightarrow> open_ended s \<Longrightarrow> (\<And>e. e \<in> set es \<Longrightarrow> length (snd e) < 2 ^ 31) \<Longrightarrow>
   (\<And>e. e \<in> set es \<Longrightarrow> length (fst e) \<le> 10000) \<Longrightarrow>
   \<exists>s'. drain_events k s es = Inr s' \<and> open_ended s'"
proof (induction es arbitrary: s)
  case (Cons e es)
  have "length (snd e) < 2 ^ 31" "length (fst e) \<le> 10000" using Cons.prems by auto
  from drain_img_file_total [OF Cons.prems(1,2) this] obtain b s1 f' where
    "drain_img_file k s (event_file e) = Inr (b, s1, f')" "open_ended s1" by blast
  moreover from this obtain s' where "drain_events k s1 es = Inr s'" "open_ended s'"
    using Cons.IH [OF Cons.prems(1), of s1] Cons.prems by auto
  ultimately show ?case by auto
qed auto

lemma write_image_eof_total:
  assumes k: "capture_env_ok k" and s: "open_ended s"
  shows "\<exists>s'. write_image_eof k s = Inr s'"
proof -
  note em = emit_total [OF k, where data = None, unfolded chunk_ready_def option.case, OF _ _ TrueI]
  have "body_ok (Filename METADATA_FILE)" by (simp add: METADATA_FILE_def)
  from em [OF s this, of True] obtain s1 where
    s1: "emit k s (Filename METADATA_FILE) None True = Inr (s1, None)" "open_ended s1" by auto
  let ?bytes = "to_json k (metadata s1)"
  let ?m = "mk_marker (small_seq s1) (FileData (as_u32 (int (length ?bytes))))"
  have "marker_ok ?m" using s1 as_u32_lt [of "int (length ?bytes)"]
    by (simp add: marker_ok_def open_ended_def)
  moreover have r: "room (sh_pipe (small_shard s1)) = None" using s1 by (simp add: open_ended_def)
  ultimately have w: "pb_write (pb_enc k) (sh_pipe (small_shard s1)) ?m
      = Inr ((sh_pipe (small_shard s1))\<lparr>written := written (sh_pipe (small_shard s1))
               @ frame (pb_enc k) ?m\<rparr>, 4 + length (pb_enc k ?m))"
    by (rule pb_write_total [OF k])
  define s3 where "s3 = s1\<lparr>small_seq := u64_add (small_seq s1) 1,
      small_shard := (small_shard s1)\<lparr>
        sh_pipe := (sh_pipe (small_shard s1))\<lparr>written := written (sh_pipe (small_shard s1))
               @ frame (pb_enc k) ?m @ ?bytes\<rparr>,
        bytes_written := u64_add (bytes_written (small_shard s1))
          (u64_add (length ?bytes) (4 + length (pb_enc k ?m)))\<rparr>\<rparr>"
  have "open_ended s3" using s1 by (simp add: open_ended_def s3_def)
  from em [OF this, of "FileEof True" True] obtain s4 where
    s4: "emit k s3 (FileEof True) None True = Inr (s4, None)" "open_ended s4" by auto
  have md: "write_metadata_to_small_shard k s = Inr s4"
    using s1 w r s4
    by (simp add: write_metadata_to_small_shard_def gen_marker_def Let_def write_all_unlimited s3_def)
  from em [OF s4(2), of "ImageEof True" False] md show ?thesis
    by (auto simp: write_image_eof_def)
qed

lemma capture_events_total:
  assumes k: "capture_env_ok k" and shs: "2 \<le> length shs" "\<forall>sh \<in> set shs. room (sh_pipe sh) = None"
    and fits: "run_fits k es" and nm: "\<forall>e \<in> set es. length (fst e) \<le> 10000"
  shows "\<exists>s. capture_events k shs cap es = Inr s"
proof -
  obtain s0 where s0: "serializer_new shs cap = Inr s0" using shs by (simp add: serializer_new_def)
  have "open_ended s0"
    using s0 shs by (cases shs) (auto simp: serializer_new_def open_ended_def)
  from drain_events_total [OF k this, of es] fits nm obtain s1 where
    "drain_events k s0 es = Inr s1" "open_ended s1" by (auto simp: run_fits_def)
  with write_image_eof_total [OF k, of s1] s0 show ?thesis by (simp add: capture_events_def)
qed

end
