(* ===== verification/Capture_Cmd.thy ===== *)
theory Capture_Cmd
  imports Capture_Total Play Poller Connection
begin

text \<open>
  The function \<open>capture\<close> of \<open>src/capture.rs\<close>: its event loop accepts connections, takes file
  requests with their pipes, and hands each readable pipe to the serializer until every input has
  reached its end. \<open>capture_params\<close> is what comes from outside; \<open>cp_pipe i\<close> is what the pipe of
  the file holds at the \<open>i\<close>-th event of an image file (nothing, when its writer has closed it).
  A pipe is known by its descriptor. Reports to the progress pipe are left out, except that
  \<open>checkpoint-start\<close> is sent at most once.

  The fields \<open>cs_events\<close>, \<open>cs_files\<close> and \<open>cs_stops\<close> log the events handled, the files taken on
  and the number of \<open>stop-listener\<close> requests; they state the theorem that the loop is a run of
  \<open>capture_events\<close>.
\<close>

section \<open>The event loop\<close>

record capture_params =
  cp_mkdir :: bool
  cp_bind :: "nat res"
  cp_setcap :: "nat \<Rightarrow> int \<Rightarrow> errno option"
  cp_poll :: penv
  cp_codec :: cenc
  cp_accept :: "nat \<Rightarrow> (nat \<times> nat connection) res"
  cp_pipe :: "nat \<Rightarrow> byte list"

datatype cap_poll_type = Cap_Listener | Cap_Client "nat connection" | Cap_File string

record capture_state =
  cs_poller :: "cap_poll_type poller"
  cs_listener_key :: nat
  cs_ser :: serializer
  cs_started :: bool
  cs_accepts :: nat
  cs_events :: "drain_event list"
  cs_files :: "string list"
  cs_stops :: nat

definition SHARD_PIPE_DESIRED_CAPACITY :: int where
  "SHARD_PIPE_DESIRED_CAPACITY = int MB"

definition cap_add_file :: "capture_params \<Rightarrow> string \<Rightarrow> nat \<Rightarrow> capture_state \<Rightarrow> capture_state res" where
  "cap_add_file cp filename fd st =
     rbind (poller_add (cp_poll cp) (cs_poller st) fd (Cap_File filename)) (\<lambda>(p, _).
       Inr (st\<lparr>cs_poller := p, cs_files := cs_files st @ [filename]\<rparr>))"

definition capture_client ::
  "capture_params \<Rightarrow> nat \<Rightarrow> nat connection \<Rightarrow> capture_state \<Rightarrow> capture_state res" where
  "capture_client cp key client st =
     rbind (read_next_file_request (cp_codec cp) client) (\<lambda>(req, c).
     let st1 = st\<lparr>cs_poller := poller_set (cs_poller st) key (Cap_Client c)\<rparr> in
     case req of
       None \<Rightarrow>
         rbind (poller_remove (cp_poll cp) (cs_poller st1) key) (\<lambda>(p, _). Inr (st1\<lparr>cs_poller := p\<rparr>))
     | Some filename \<Rightarrow>
         if filename = ''stop-listener'' then
           rbind (poller_remove (cp_poll cp) (cs_poller st1) (cs_listener_key st1)) (\<lambda>(p, _).
             Inr (st1\<lparr>cs_poller := p, cs_stops := Suc (cs_stops st1)\<rparr>))
         else
           let st2 = (if filename \<noteq> ''cpuinfo.img'' then st1\<lparr>cs_started := True\<rparr> else st1) in
           rbind (recv_pipe c) (\<lambda>(fd, c').
             cap_add_file cp filename fd
               (st2\<lparr>cs_poller := poller_set (cs_poller st2) key (Cap_Client c')\<rparr>)))"

definition capture_file ::
  "cenv \<Rightarrow> capture_params \<Rightarrow> nat \<Rightarrow> string \<Rightarrow> capture_state \<Rightarrow> capture_state res" where
  "capture_file k cp key filename st =
     (let ev = (filename, cp_pipe cp (length (cs_events st))) in
      rbind (drain_img_file k (cs_ser st) (event_file ev)) (\<lambda>(more, ser, _).
        let st1 = st\<lparr>cs_ser := ser, cs_events := cs_events st @ [ev]\<rparr> in
        if \<not> more then
          rbind (poller_remove (cp_poll cp) (cs_poller st1) key) (\<lambda>(p, _). Inr (st1\<lparr>cs_poller := p\<rparr>))
        else Inr st1))"

fun capture_loop :: "cenv \<Rightarrow> capture_params \<Rightarrow> nat \<Rightarrow> capture_state \<Rightarrow> capture_state res" where
  "capture_loop k cp 0 st = Inl Diverge"
| "capture_loop k cp (Suc fuel) st =
     rbind (poller_poll (cp_poll cp) (cs_poller st) 16) (\<lambda>(obj, p).
       let st1 = st\<lparr>cs_poller := p\<rparr> in
       case obj of
         None \<Rightarrow> Inr st1
       | Some (key, Cap_Listener) \<Rightarrow>
           rbind (cp_accept cp (cs_accepts st1)) (\<lambda>(fd, conn).
           rbind (poller_add (cp_poll cp) (cs_poller st1) fd (Cap_Client conn)) (\<lambda>(p', _).
             capture_loop k cp fuel (st1\<lparr>cs_poller := p', cs_accepts := Suc (cs_accepts st1)\<rparr>)))
       | Some (key, Cap_Client client) \<Rightarrow>
           rbind (capture_client cp key client st1) (\<lambda>st2. capture_loop k cp fuel st2)
       | Some (key, Cap_File filename) \<Rightarrow>
           rbind (capture_file k cp key filename st1) (\<lambda>st2. capture_loop k cp fuel st2))"

fun add_ext_files :: "capture_params \<Rightarrow> (string \<times> nat) list \<Rightarrow> capture_state \<Rightarrow> capture_state res" where
  "add_ext_files cp [] st = Inr st"
| "add_ext_files cp ((filename, fd) # ext) st =
     rbind (cap_add_file cp filename fd st) (\<lambda>st'. add_ext_files cp ext st')"

section \<open>The command\<close>

text \<open>The serializer is created after the poller, but touches neither it nor a pipe.\<close>

definition capture_cmd ::
  "cenv \<Rightarrow> capture_params \<Rightarrow> nat \<Rightarrow> (int \<times> sink) list \<Rightarrow> (string \<times> nat) list
   \<Rightarrow> (capture_state \<times> serializer) res" where
  "capture_cmd k cp fuel shard_pipes ext_file_pipes =
     rbind (ensure (cp_mkdir cp) Io_Error) (\<lambda>_.
     rbind (cp_bind cp) (\<lambda>listener.
     rbind (increase_capacity (cp_setcap cp) (page_size k) [0..<length shard_pipes]
              SHARD_PIPE_DESIRED_CAPACITY) (\<lambda>capacity.
     let shs = map (\<lambda>(fd, p). shard_new fd p) shard_pipes in
     rbind (poller_add (cp_poll cp) poller_new listener Cap_Listener) (\<lambda>(p, listener_key).
     rbind (serializer_new shs capacity) (\<lambda>ser.
     let st = \<lparr>cs_poller = p, cs_listener_key = listener_key, cs_ser = ser, cs_started = False,
               cs_accepts = 0, cs_events = [], cs_files = [], cs_stops = 0\<rparr> in
     rbind (add_ext_files cp ext_file_pipes st) (\<lambda>st1.
     rbind (capture_loop k cp fuel st1) (\<lambda>st2.
     rbind (write_image_eof k (cs_ser st2)) (\<lambda>ser'. Inr (st2, ser')))))))))"

section \<open>The loop is a run of the serializer\<close>

text \<open>Each file that was taken on has one entry in the poller until its pipe reaches its end.\<close>

definition open_names :: "capture_state \<Rightarrow> string set" where
  "open_names st = {f. \<exists>key. registered (cs_poller st) key = Some (Cap_File f)}"

lemma open_names_ran: "open_names st = {f. Cap_File f \<in> ran (registered (cs_poller st))}"
  by (simp add: open_names_def ran_def)

lemma open_names_nothing: "slab (cs_poller st) = [] \<Longrightarrow> open_names st = {}"
  by (simp add: open_names_def registered_nothing)

definition files_tracked :: "capture_state \<Rightarrow> bool" where
  "files_tracked st \<longleftrightarrow>
     no_late_events [] (cs_events st)
     \<and> fst ` set (cs_events st) \<subseteq> set (cs_files st)
     \<and> open_names st = {f \<in> set (cs_files st). (f, []) \<notin> set (cs_events st)}
     \<and> (\<forall>key key' f. registered (cs_poller st) key = Some (Cap_File f) \<longrightarrow>
           registered (cs_poller st) key' = Some (Cap_File f) \<longrightarrow> key = key')"

definition loop_inv :: "cenv \<Rightarrow> serializer \<Rightarrow> capture_state \<Rightarrow> bool" where
  "loop_inv k ser0 st \<longleftrightarrow>
     drain_events k ser0 (cs_events st) = Inr (cs_ser st)
     \<and> (cs_stops st = 0 \<longrightarrow> registered (cs_poller st) (cs_listener_key st) = Some Cap_Listener)
     \<and> (distinct (cs_files st) \<longrightarrow> cs_stops st \<le> 1 \<longrightarrow> files_tracked st)"

definition capture_params_ok :: "capture_params \<Rightarrow> bool" where
  "capture_params_ok cp \<longleftrightarrow>
     slab_ok (cp_poll cp) \<and> (\<forall>i. length (cp_pipe cp i) < 2 ^ 31)
     \<and> (\<forall>i. wait_ready (cp_poll cp) i \<noteq> Inr [])"

lemma drain_events_snoc:
  "drain_events k s (es @ [e]) =
   rbind (drain_events k s es) (\<lambda>s1. rbind (drain_img_file k s1 (event_file e)) (\<lambda>(_, s', _). Inr s'))"
proof (induction es arbitrary: s)
  case (Cons x es)
  then show ?case by (cases "drain_img_file k s (event_file x)") auto
qed simp

lemma no_late_snoc:
  "no_late_events fin (es @ [e]) \<longleftrightarrow> no_late_events fin es \<and> fst e \<notin> set fin \<and> (fst e, []) \<notin> set es"
  by (induction es arbitrary: fin) (auto simp: prod_eq_iff)

lemma drain_more:
  assumes "drain_img_file k s (event_file (f, bs)) = Inr (again, s', x)" and "length bs < 2 ^ 31"
  shows "again \<longleftrightarrow> bs \<noteq> []"
  using assms by (auto simp: drain_img_file_def event_file_def fionread_def i32_small)

text \<open>What only moves clients and the listener about changes nothing that is tracked.\<close>

definition same_files :: "capture_state \<Rightarrow> capture_state \<Rightarrow> bool" where
  "same_files st st' \<longleftrightarrow>
     (\<forall>key f. registered (cs_poller st') key = Some (Cap_File f)
              \<longleftrightarrow> registered (cs_poller st) key = Some (Cap_File f))
     \<and> cs_events st' = cs_events st \<and> cs_files st' = cs_files st \<and> cs_ser st' = cs_ser st
     \<and> cs_listener_key st' = cs_listener_key st"

lemma files_tracked_same: "same_files st st' \<Longrightarrow> files_tracked st \<Longrightarrow> files_tracked st'"
  by (simp add: same_files_def files_tracked_def open_names_def)

lemma loop_inv_same:
  assumes "same_files st st'" and "loop_inv k ser0 st" and "cs_stops st' = cs_stops st"
    and "registered (cs_poller st) (cs_listener_key st) = Some Cap_Listener \<Longrightarrow>
         registered (cs_poller st') (cs_listener_key st) = Some Cap_Listener"
  shows "loop_inv k ser0 st'"
  using assms files_tracked_same [OF assms(1)] by (auto simp: loop_inv_def same_files_def)

lemma loop_inv_add_file:
  assumes i: "loop_inv k ser0 st" and ok: "capture_params_ok cp"
    and r: "cap_add_file cp f fd st = Inr st'"
  shows "loop_inv k ser0 st'"
proof -
  from r obtain p key where add: "poller_add (cp_poll cp) (cs_poller st) fd (Cap_File f) = Inr (p, key)"
    and st': "st' = st\<lparr>cs_poller := p, cs_files := cs_files st @ [f]\<rparr>"
    by (auto simp: cap_add_file_def)
  have p: "registered (cs_poller st) key = None" "registered p = (registered (cs_poller st))(key \<mapsto> Cap_File f)"
    using poller_add_Inr [OF add] ok by (auto simp: capture_params_ok_def)
  have "files_tracked st'" if d: "distinct (cs_files st @ [f])" and t: "files_tracked st"
  proof -
    have "f \<notin> open_names st" "(f, []) \<notin> set (cs_events st)"
      using d t by (force simp: files_tracked_def)+
    moreover have "open_names st' = insert f (open_names st)"
      unfolding open_names_ran st' using p by auto
    ultimately show ?thesis
      using t p unfolding files_tracked_def by (auto simp: st' open_names_def)
  qed
  with i p show ?thesis by (auto simp: loop_inv_def st')
qed

lemma loop_inv_client:
  assumes i: "loop_inv k ser0 st" and ok: "capture_params_ok cp"
    and c: "registered (cs_poller st) key = Some (Cap_Client client)"
    and r: "capture_client cp key client st = Inr st'"
  shows "loop_inv k ser0 st'"
proof -
  from r obtain req c1 where q: "read_next_file_request (cp_codec cp) client = Inr (req, c1)"
    by (auto simp: capture_client_def)
  define st1 where "st1 = st\<lparr>cs_poller := poller_set (cs_poller st) key (Cap_Client c1)\<rparr>"
  have set1: "registered (cs_poller st1) = (registered (cs_poller st))(key \<mapsto> Cap_Client c1)"
    using c by (simp add: st1_def poller_set_registered)
  have i1: "loop_inv k ser0 st1"
    by (rule loop_inv_same [OF _ i]) (use set1 c in \<open>auto simp: same_files_def st1_def\<close>)
  show ?thesis
  proof (cases req)
    case None
    with r q obtain p x where rem: "poller_remove (cp_poll cp) (cs_poller st1) key = Inr (p, x)"
      and st': "st' = st1\<lparr>cs_poller := p\<rparr>"
      by (auto simp: capture_client_def Let_def st1_def)
    show ?thesis
      by (rule loop_inv_same [OF _ i1])
         (use poller_remove_Inr [OF rem] set1 c in \<open>auto simp: same_files_def st' st1_def\<close>)
  next
    case (Some f)
    show ?thesis
    proof (cases "f = ''stop-listener''")
      case True
      with r q Some obtain p x where
        rem: "poller_remove (cp_poll cp) (cs_poller st1) (cs_listener_key st1) = Inr (p, x)"
        and st': "st' = st1\<lparr>cs_poller := p, cs_stops := Suc (cs_stops st1)\<rparr>"
        by (auto simp: capture_client_def Let_def st1_def)
      have "files_tracked st'" if "files_tracked st1" "cs_stops st1 = 0"
      proof (rule files_tracked_same [OF _ that(1)])
        have "x = Cap_Listener"
          using i1 that(2) poller_remove_Inr [OF rem] by (auto simp: loop_inv_def)
        with poller_remove_Inr [OF rem] show "same_files st1 st'" by (auto simp: same_files_def st')
      qed
      with i1 show ?thesis by (auto simp: loop_inv_def st')
    next
      case False
      with r q Some obtain fd c2 where
        add: "cap_add_file cp f fd ((if f \<noteq> ''cpuinfo.img'' then st1\<lparr>cs_started := True\<rparr> else st1)
                 \<lparr>cs_poller := poller_set (cs_poller st1) key (Cap_Client c2)\<rparr>) = Inr st'"
        by (auto simp: capture_client_def Let_def st1_def split: if_splits)
      show ?thesis
        by (rule loop_inv_add_file [OF loop_inv_same [OF _ i1] ok add])
           (use set1 c in \<open>auto simp: same_files_def st1_def poller_set_registered\<close>)
    qed
  qed
qed

lemma loop_inv_file:
  assumes i: "loop_inv k ser0 st" and ok: "capture_params_ok cp"
    and c: "registered (cs_poller st) key = Some (Cap_File f)"
    and r: "capture_file k cp key f st = Inr st'"
  shows "loop_inv k ser0 st'"
proof -
  define bs where "bs = cp_pipe cp (length (cs_events st))"
  from r obtain again ser x where d: "drain_img_file k (cs_ser st) (event_file (f, bs)) = Inr (again, ser, x)"
    by (auto simp: capture_file_def bs_def Let_def)
  have again: "again \<longleftrightarrow> bs \<noteq> []"
    using drain_more [OF d] ok by (simp add: capture_params_ok_def bs_def)
  define st1 where "st1 = st\<lparr>cs_ser := ser, cs_events := cs_events st @ [(f, bs)]\<rparr>"
  have ser: "drain_events k ser0 (cs_events st1) = Inr (cs_ser st1)"
    using i d by (simp add: loop_inv_def st1_def drain_events_snoc)
  have kept: "files_tracked st \<Longrightarrow> no_late_events [] (cs_events st1) \<and> fst ` set (cs_events st1) \<subseteq> set (cs_files st1)"
  proof -
    assume t: "files_tracked st"
    have "f \<in> open_names st" using c by (auto simp: open_names_def)
    with t show ?thesis by (auto simp: files_tracked_def st1_def no_late_snoc)
  qed
  show ?thesis
  proof (cases again)
    case True
    with r d have st': "st' = st1" by (auto simp: capture_file_def bs_def Let_def st1_def)
    have "files_tracked st1" if "files_tracked st"
      using kept [OF that] that True again by (auto simp: files_tracked_def st1_def open_names_def)
    with i ser show ?thesis by (auto simp: loop_inv_def st' st1_def)
  next
    case False
    with r d obtain p y where rem: "poller_remove (cp_poll cp) (cs_poller st1) key = Inr (p, y)"
      and st': "st' = st1\<lparr>cs_poller := p\<rparr>"
      by (auto simp: capture_file_def bs_def Let_def st1_def)
    have p: "registered p = (registered (cs_poller st))(key := None)"
      using poller_remove_Inr [OF rem] by (simp add: st1_def)
    have "files_tracked st'" if t: "files_tracked st"
    proof -
      have u: "registered (cs_poller st) key' = Some (Cap_File f) \<Longrightarrow> key' = key" for key'
        using t c by (auto simp: files_tracked_def)
      have "registered p j = Some (Cap_File g) \<longleftrightarrow> g \<noteq> f \<and> registered (cs_poller st) j = Some (Cap_File g)"
        for j g using c u [of j] unfolding p by (cases "j = key") auto
      then have "open_names st' = open_names st - {f}"
        unfolding open_names_def st' by (simp add: set_diff_eq) blast
      also have "open_names st = {g \<in> set (cs_files st). (g, []) \<notin> set (cs_events st)}"
        using t by (simp add: files_tracked_def)
      finally have o': "open_names st' = {g \<in> set (cs_files st'). (g, []) \<notin> set (cs_events st')}"
        using False again by (auto simp: st' st1_def)
      have uniq: "\<forall>j j' g. registered (cs_poller st') j = Some (Cap_File g) \<longrightarrow>
          registered (cs_poller st') j' = Some (Cap_File g) \<longrightarrow> j = j'"
        using t by (simp add: files_tracked_def st' p)
      show ?thesis
        using kept [OF t] o' uniq unfolding files_tracked_def by (simp add: st')
    qed
    moreover have "cs_stops st = 0 \<longrightarrow> cs_listener_key st \<noteq> key"
      using i c by (auto simp: loop_inv_def)
    moreover have "cs_stops st' = cs_stops st" "cs_listener_key st' = cs_listener_key st"
      "cs_files st' = cs_files st" "cs_poller st' = p" "cs_events st' = cs_events st1" "cs_ser st' = cs_ser st1"
      by (simp_all add: st' st1_def)
    ultimately show ?thesis using i ser p unfolding loop_inv_def by simp
  qed
qed

lemma loop_inv_loop:
  "capture_params_ok cp \<Longrightarrow> loop_inv k ser0 st \<Longrightarrow> capture_loop k cp fuel st = Inr st' \<Longrightarrow>
   loop_inv k ser0 st' \<and> slab (cs_poller st') = []"
proof (induction fuel arbitrary: st)
  case (Suc fuel)
  from Suc.prems(3) obtain obj p where
    pl: "poller_poll (cp_poll cp) (cs_poller st) 16 = Inr (obj, p)" by auto
  define st1 where "st1 = st\<lparr>cs_poller := p\<rparr>"
  have reg: "registered p = registered (cs_poller st)"
    using poller_poll_None [of _ _ _ p] poller_poll_Inr [of _ _ _ _ _ p] pl
    by (cases obj) (auto simp: registered_def fun_eq_iff)
  have i1: "loop_inv k ser0 st1"
    by (rule loop_inv_same [OF _ Suc.prems(2)]) (simp_all add: reg same_files_def st1_def)
  show ?case
  proof (cases obj)
    case None
    have "slab (cs_poller st) = []"
      using poller_poll_empty [of _ _ _ p] pl None Suc.prems(1) by (simp add: capture_params_ok_def)
    then have "slab p = []" using poller_poll_None [OF pl [unfolded None]] by simp
    moreover have "st' = st1" using Suc.prems(3) pl None by (simp add: st1_def)
    ultimately show ?thesis using i1 by (simp add: st1_def)
  next
    case (Some ko)
    obtain key o' where ko: "ko = (key, o')" by force
    have at_key: "registered (cs_poller st1) key = Some o'"
      using poller_poll_Inr [OF pl [unfolded Some ko]] reg by (simp add: st1_def)
    show ?thesis
    proof (cases o')
      case Cap_Listener
      with Suc.prems(3) pl Some ko obtain fd conn p' key' where
        add: "poller_add (cp_poll cp) (cs_poller st1) fd (Cap_Client conn) = Inr (p', key')"
        and rest: "capture_loop k cp fuel
            (st1\<lparr>cs_poller := p', cs_accepts := Suc (cs_accepts st1)\<rparr>) = Inr st'"
        by (auto simp: st1_def Let_def)
      have "loop_inv k ser0 (st1\<lparr>cs_poller := p', cs_accepts := Suc (cs_accepts st1)\<rparr>)"
        by (rule loop_inv_same [OF _ i1])
           (use poller_add_Inr [OF add] Suc.prems(1) in \<open>auto simp: same_files_def capture_params_ok_def\<close>)
      with Suc.IH [OF Suc.prems(1) _ rest] show ?thesis by blast
    next
      case (Cap_Client c)
      with Suc.prems(3) pl Some ko obtain st2 where
        "capture_client cp key c st1 = Inr st2" "capture_loop k cp fuel st2 = Inr st'"
        by (auto simp: st1_def Let_def)
      with Suc.IH [OF Suc.prems(1)] loop_inv_client [OF i1 Suc.prems(1)] at_key Cap_Client
      show ?thesis by blast
    next
      case (Cap_File f)
      with Suc.prems(3) pl Some ko obtain st2 where
        "capture_file k cp key f st1 = Inr st2" "capture_loop k cp fuel st2 = Inr st'"
        by (auto simp: st1_def Let_def)
      with Suc.IH [OF Suc.prems(1)] loop_inv_file [OF i1 Suc.prems(1)] at_key Cap_File
      show ?thesis by blast
    qed
  qed
qed simp

lemma add_ext_inv:
  "capture_params_ok cp \<Longrightarrow> loop_inv k ser0 st \<Longrightarrow> add_ext_files cp ext st = Inr st' \<Longrightarrow> loop_inv k ser0 st'"
proof (induction cp ext st rule: add_ext_files.induct)
  case (2 cp f fd ext st)
  then show ?case by (auto dest: loop_inv_add_file)
qed simp

text \<open>
  A capture that returns has served a complete run, provided no file name was sent twice and the
  listener was stopped at most once.
\<close>

lemma capture_cmd_run_at:
  assumes ok: "capture_params_ok cp"
    and run: "capture_cmd k cp fuel shard_pipes ext = Inr (st, ser)"
    and once: "distinct (cs_files st)" "cs_stops st \<le> 1"
  shows "\<exists>cap. increase_capacity (cp_setcap cp) (page_size k) [0..<length shard_pipes] SHARD_PIPE_DESIRED_CAPACITY
         = Inr cap
       \<and> capture_events k (map (\<lambda>(fd, p). shard_new fd p) shard_pipes) cap (cs_events st) = Inr ser
       \<and> wf_run (cs_events st) \<and> set (finished_names (cs_events st)) = set (cs_files st)"
proof -
  let ?shs = "map (\<lambda>(fd, p). shard_new fd p) shard_pipes"
  from run obtain listener cap p key ser0 st1 where
    setcap: "increase_capacity (cp_setcap cp) (page_size k) [0..<length shard_pipes] SHARD_PIPE_DESIRED_CAPACITY = Inr cap"
    and add: "poller_add (cp_poll cp) poller_new listener Cap_Listener = Inr (p, key)"
    and ser0: "serializer_new ?shs cap = Inr ser0"
    and ext: "add_ext_files cp ext \<lparr>cs_poller = p, cs_listener_key = key, cs_ser = ser0,
        cs_started = False, cs_accepts = 0, cs_events = [], cs_files = [], cs_stops = 0\<rparr> = Inr st1"
    and loop: "capture_loop k cp fuel st1 = Inr st" and wie: "write_image_eof k (cs_ser st) = Inr ser"
    by (auto simp: capture_cmd_def Let_def)
  have "registered p = [key \<mapsto> Cap_Listener]"
    using poller_add_Inr [OF add] ok by (auto simp: capture_params_ok_def fun_eq_iff)
  then have "loop_inv k ser0 \<lparr>cs_poller = p, cs_listener_key = key, cs_ser = ser0,
      cs_started = False, cs_accepts = 0, cs_events = [], cs_files = [], cs_stops = 0\<rparr>"
    by (simp add: loop_inv_def files_tracked_def open_names_def)
  from loop_inv_loop [OF ok add_ext_inv [OF ok this ext] loop]
  have i: "loop_inv k ser0 st" and no_slab: "slab (cs_poller st) = []" by auto
  from i once have t: "files_tracked st" and d: "drain_events k ser0 (cs_events st) = Inr (cs_ser st)"
    by (auto simp: loop_inv_def)
  have "open_names st = {}" by (rule open_names_nothing [OF no_slab])
  then have fin: "f \<in> set (cs_files st) \<Longrightarrow> (f, []) \<in> set (cs_events st)" for f
    using t by (auto simp: files_tracked_def)
  with t have "wf_run (cs_events st)" by (auto simp: files_tracked_def wf_run_def)
  moreover have "set (finished_names (cs_events st)) = set (cs_files st)"
    using fin t by (force simp: finished_names_def files_tracked_def)
  moreover have "capture_events k ?shs cap (cs_events st) = Inr ser"
    using ser0 d wie by (simp add: capture_events_def)
  ultimately show ?thesis using setcap by blast
qed

lemma capture_cmd_run:
  assumes "capture_params_ok cp" and "capture_cmd k cp fuel shard_pipes ext = Inr (st, ser)"
    and "distinct (cs_files st)" and "cs_stops st \<le> 1"
  shows "\<exists>cap. capture_events k (map (\<lambda>(fd, p). shard_new fd p) shard_pipes) cap (cs_events st) = Inr ser
       \<and> wf_run (cs_events st) \<and> set (finished_names (cs_events st)) = set (cs_files st)"
  using capture_cmd_run_at [OF assms] by blast

section \<open>Properties\<close>

text \<open>A second \<open>stop-listener\<close> request. The loop removes whatever is registered under the listener's
  key: nothing, after the first request, and then the process panics; or, when the slab has given
  the key to something else since, that object, a client or a file that is still being read.\<close>

theorem second_stop_listener:
  assumes "read_next_file_request (cp_codec cp) client = Inr (Some ''stop-listener'', c)"
    and "ctl_ok (cp_poll cp) (ctls (cs_poller st))" and "key \<noteq> cs_listener_key st"
  shows "case registered (cs_poller st) (cs_listener_key st) of
      None \<Rightarrow> capture_client cp key client st = Inl (Panic Key_Invalid)
    | Some x \<Rightarrow> \<exists>st'. capture_client cp key client st = Inr st'
                   \<and> registered (cs_poller st') (cs_listener_key st) = None"
proof -
  let ?p = "poller_set (cs_poller st) key (Cap_Client c)" and ?lk = "cs_listener_key st"
  have eq: "capture_client cp key client st
      = rbind (poller_remove (cp_poll cp) ?p ?lk) (\<lambda>(p, _).
          Inr (st\<lparr>cs_poller := p, cs_stops := Suc (cs_stops st)\<rparr>))"
    using assms(1) by (simp add: capture_client_def Let_def)
  have reg: "registered ?p ?lk = registered (cs_poller st) ?lk"
    using assms(3) by (simp add: poller_set_registered)
  have "ctls ?p = ctls (cs_poller st)" by (simp add: poller_set_def split: option.split prod.split)
  with assms(2) have ctl: "ctl_ok (cp_poll cp) (ctls ?p)" by simp
  show ?thesis
  proof (cases "registered ?p ?lk")
    case None
    then show ?thesis using reg eq by (auto simp: poller_remove_def registered_def)
  next
    case (Some x)
    with ctl obtain p where p: "poller_remove (cp_poll cp) ?p ?lk = Inr (p, x)"
      by (auto simp: poller_remove_def registered_def ensure_def)
    with poller_remove_Inr [OF p] show ?thesis using Some reg eq by simp
  qed
qed

definition stopping_client :: "nat connection" where
  "stopping_client = \<lparr>sock_in = \<lparr>avail = [1, 0, 0, 0, 5], broken = False\<rparr>, sock_fds = [],
     sock_out = \<lparr>written = [], room = None\<rparr>\<rparr>"

definition stopped_capture :: capture_state where
  "stopped_capture = \<lparr>cs_poller = \<lparr>slab = [(2, 8, Cap_Client stopping_client), (1, 9, Cap_File ''pages-1.img'')],
     pending_events = [], ctls = 4, waits = 3\<rparr>, cs_listener_key = 1, cs_ser = two_shard_state, cs_started = True,
     cs_accepts = 1, cs_events = [], cs_files = [''pages-1.img''], cs_stops = 1\<rparr>"

theorem second_stop_listener_witness:
  "\<exists>st'. capture_client \<lparr>cp_mkdir = True, cp_bind = Inr 7, cp_setcap = (\<lambda>_ _. None),
        cp_poll = \<lparr>vacant_key = length, ctl_ok = (\<lambda>_. True), wait_ready = (\<lambda>_. Inr [])\<rparr>,
        cp_codec = \<lparr>req_dec = (\<lambda>_. Some ''stop-listener''), reply_enc = (\<lambda>_. []), list_enc = (\<lambda>_. [])\<rparr>,
        cp_accept = (\<lambda>_. Inl (Err Io_Error)), cp_pipe = (\<lambda>_. [])\<rparr> 2 stopping_client stopped_capture = Inr st'
     \<and> registered (cs_poller stopped_capture) 1 = Some (Cap_File ''pages-1.img'')
     \<and> registered (cs_poller st') 1 = None"
proof -
  let ?cp = "\<lparr>cp_mkdir = True, cp_bind = Inr 7, cp_setcap = (\<lambda>_ _. None),
        cp_poll = \<lparr>vacant_key = length, ctl_ok = (\<lambda>_. True), wait_ready = (\<lambda>_. Inr [])\<rparr>,
        cp_codec = \<lparr>req_dec = (\<lambda>_. Some ''stop-listener''), reply_enc = (\<lambda>_. []), list_enc = (\<lambda>_. [])\<rparr>,
        cp_accept = (\<lambda>_. Inl (Err Io_Error)), cp_pipe = (\<lambda>_. [])\<rparr>"
  have r: "read_next_file_request (cp_codec ?cp) stopping_client
      = Inr (Some ''stop-listener'', stopping_client\<lparr>sock_in := \<lparr>avail = [], broken = False\<rparr>\<rparr>)"
    by (simp add: read_next_file_request_def stopping_client_def pb_read_next_def read_bytes_next_def
        take_read_to_end_def get_u32_le_Cons4 KB_def rassert_def ok_or_def)
  have reg: "registered (cs_poller stopped_capture) 1 = Some (Cap_File ''pages-1.img'')"
    by (simp add: registered_def stopped_capture_def)
  from second_stop_listener [OF r, of stopped_capture 2] reg show ?thesis
    by (simp add: stopped_capture_def)
qed

text \<open>C27: a connection that is waiting when \<open>stop-listener\<close> is handled takes the capture down. When one
  \<open>epoll_wait()\<close> reports the listener and, after it, a client, the client is handled first; if its
  request is \<open>stop-listener\<close>, the listener is removed from the slab, but its event is kept, and the next
  \<open>poll\<close> looks its key up and panics. Whatever has been captured by then, there is no image.\<close>

theorem stop_listener_race:
  assumes events: "pending_events (cs_poller st) = ks @ [cs_listener_key st, key]"
    and reg: "registered (cs_poller st) key = Some (Cap_Client client)"
      "registered (cs_poller st) (cs_listener_key st) = Some Cap_Listener"
    and req: "read_next_file_request (cp_codec cp) client = Inr (Some ''stop-listener'', c)"
    and ctl: "ctl_ok (cp_poll cp) (ctls (cs_poller st))"
  shows "capture_loop k cp (Suc (Suc fuel)) st = Inl (Panic Key_Invalid)"
proof -
  let ?lk = "cs_listener_key st"
  define p1 where "p1 = (cs_poller st)\<lparr>pending_events := ks @ [?lk]\<rparr>"
  have ne: "key \<noteq> ?lk" using reg by auto
  have m: "\<exists>fd. map_of (slab (cs_poller st)) key = Some (fd, Cap_Client client)"
    using reg(1) by (auto simp: registered_def)
  have poll: "poller_poll (cp_poll cp) (cs_poller st) 16 = Inr (Some (key, Cap_Client client), p1)"
    using m events by (cases "slab (cs_poller st) = []") (auto simp: poller_poll_def p1_def butlast_append)
  define p2 where "p2 = poller_set p1 key (Cap_Client c)"
  have r2: "registered p2 key = Some (Cap_Client c)" "registered p2 ?lk = Some Cap_Listener"
  proof -
    have "registered p1 = registered (cs_poller st)" by (simp add: fun_eq_iff registered_def p1_def)
    with reg ne show "registered p2 key = Some (Cap_Client c)" "registered p2 ?lk = Some Cap_Listener"
      by (simp_all add: p2_def poller_set_registered)
  qed
  have "ctl_ok (cp_poll cp) (ctls p2)" "pending_events p2 = ks @ [?lk]"
    using ctl by (simp_all add: p2_def p1_def poller_set_def split: option.split prod.split)
  moreover obtain p3 where rem: "poller_remove (cp_poll cp) p2 ?lk = Inr (p3, Cap_Listener)"
    using r2(2) calculation(1) by (auto simp: poller_remove_def registered_def ensure_def)
  ultimately have p3: "pending_events p3 = ks @ [?lk]" "registered p3 ?lk = None" "registered p3 key \<noteq> None"
    using poller_remove_Inr [OF rem] r2(1) ne by auto
  then have "slab p3 \<noteq> []" by (auto simp: registered_def)
  then have stale: "poller_poll (cp_poll cp) p3 16 = Inl (Panic Key_Invalid)" by (rule poller_poll_stale [OF p3(1,2)])
  have "capture_client cp key client (st\<lparr>cs_poller := p1\<rparr>)
      = Inr (st\<lparr>cs_poller := p3, cs_stops := Suc (cs_stops st)\<rparr>)"
    using req rem by (simp add: capture_client_def Let_def p2_def)
  then show ?thesis using poll stale by simp
qed

definition racing_capture :: capture_state where
  "racing_capture = \<lparr>cs_poller = \<lparr>slab = [(2, 8, Cap_Client stopping_client), (0, 7, Cap_Listener)],
     pending_events = [0, 2], ctls = 2, waits = 3\<rparr>, cs_listener_key = 0, cs_ser = two_shard_state, cs_started = True,
     cs_accepts = 1, cs_events = [], cs_files = [], cs_stops = 0\<rparr>"

theorem stop_listener_race_witness:
  "\<forall>k. capture_loop k \<lparr>cp_mkdir = True, cp_bind = Inr 7, cp_setcap = (\<lambda>_ _. None),
        cp_poll = \<lparr>vacant_key = length, ctl_ok = (\<lambda>_. True), wait_ready = (\<lambda>_. Inr [])\<rparr>,
        cp_codec = \<lparr>req_dec = (\<lambda>_. Some ''stop-listener''), reply_enc = (\<lambda>_. []), list_enc = (\<lambda>_. [])\<rparr>,
        cp_accept = (\<lambda>_. Inl (Err Io_Error)), cp_pipe = (\<lambda>_. [])\<rparr> 2 racing_capture = Inl (Panic Key_Invalid)"
proof -
  let ?codec = "\<lparr>req_dec = (\<lambda>_. Some ''stop-listener''), reply_enc = (\<lambda>_. []), list_enc = (\<lambda>_. [])\<rparr>"
  have "read_next_file_request ?codec stopping_client
      = Inr (Some ''stop-listener'', stopping_client\<lparr>sock_in := \<lparr>avail = [], broken = False\<rparr>\<rparr>)"
    by (simp add: read_next_file_request_def stopping_client_def pb_read_next_def read_bytes_next_def
        take_read_to_end_def get_u32_le_Cons4 KB_def rassert_def ok_or_def)
  then show ?thesis
    unfolding numeral_2_eq_2
    by (intro allI stop_listener_race [where ks = "[]" and key = 2 and client = stopping_client])
       (simp_all add: racing_capture_def registered_def)
qed

end
