(* ===== verification/Demo.thy ===== *)
theory Demo
  imports Par_Live Capture_Cmd
begin

text \<open>A small image and the environments of its capture and restore, for the witnesses.\<close>

section \<open>A concrete environment for the witnesses\<close>

text \<open>
  A page of four bytes, a kernel that moves three bytes at a time and reports every shard ready,
  the wire format of \<open>Proto_Marker\<close>, and names separated by zero bytes in place of JSON.
\<close>

definition names_bytes :: "string list \<Rightarrow> byte list" where
  "names_bytes names = concat (map (\<lambda>f. map byte_of_char f @ [0]) names)"

fun bytes_names :: "byte list \<Rightarrow> string \<Rightarrow> string list option" where
  "bytes_names [] cur = (if cur = [] then Some [] else None)"
| "bytes_names (b # bs) cur =
     (if b = 0 then map_option (\<lambda>r. cur # r) (bytes_names bs [])
      else bytes_names bs (cur @ [char_of_byte b]))"

definition demo_cenv :: cenv where
  "demo_cenv = \<lparr>page_size = 4, fion = (\<lambda>_ _. Inr 0), splice_n = (\<lambda>_ _ _. 3),
                regexes = rx_ref, to_json = names_bytes, pb_enc = enc_marker\<rparr>"

definition demo_denv :: denv where
  "demo_denv = \<lparr>pb_dec = dec_marker, of_json = (\<lambda>bs. bytes_names bs []),
                poll_ready = (\<lambda>_ k. Inr [0..<k]), elapsed_millis = (\<lambda>_. 0)\<rparr>"

definition demo_shards :: "shard list" where
  "demo_shards = map (\<lambda>fd. shard_new fd \<lparr>written = [], room = None\<rparr>) [3, 4, 5]"

definition demo_run :: "drain_event list" where
  "demo_run = [(''core-1.img'', [1, 2, 3]), (''pages-1.img'', [4, 5, 6, 7, 8, 9]),
               (''core-1.img'', []), (''pages-1.img'', [])]"

lemma demo_capture_env_ok: "capture_env_ok demo_cenv"
  by (simp add: capture_env_ok_def demo_cenv_def regex_doc_rx_ref length_enc_marker)

lemma demo_poll_ok: "poll_ok fail demo_denv"
  by (auto simp: poll_ok_def demo_denv_def)

lemma demo_json: "of_json demo_denv (to_json demo_cenv (finished_names demo_run))
                  = Some (finished_names demo_run)"
  by code_simp

lemma demo_run_fits: "run_fits demo_cenv demo_run"
  by (simp add: run_fits_def demo_cenv_def demo_run_def finished_names_def names_bytes_def)

lemma demo_wf_run: "wf_run demo_run"
  by (simp add: wf_run_def demo_run_def)

lemma demo_names_ok: "names_ok demo_run"
  by (simp add: names_ok_def demo_run_def METADATA_FILE_def)

lemma demo_small: "small_name demo_cenv f = (is_small_file rx_ref f = Inr True)"
  by (simp add: small_name_def demo_cenv_def)

lemma demo_names: "small_name demo_cenv ''core-1.img''" "\<not> small_name demo_cenv ''pages-1.img''"
proof -
  have "\<not> listed_large ''core-1.img''"
    by (rule small_by_stem) (auto simp: large_prefixes_def)
  then show "small_name demo_cenv ''core-1.img''"
    unfolding demo_small is_small_file_spec [OF regex_doc_rx_ref] by simp
  have "numbered_name ''pages-'' ''pages-1.img''"
    unfolding numbered_name_def by (intro exI [of _ "''1''"]) (simp add: is_digit_def)
  moreover have "\<not> listed_small ''pages-1.img''" by (simp add: listed_small_def)
  ultimately show "\<not> small_name demo_cenv ''pages-1.img''"
    unfolding demo_small is_small_file_spec [OF regex_doc_rx_ref] listed_large_def by simp
qed

lemma demo_items:
  "run_items (small_name demo_cenv) (chunk_bytes demo_cenv 64) True None demo_run
   = [(Filename ''core-1.img'', []), (FileData 3, [1, 2, 3]),
      (Filename ''core-1.img'', []), (FileEof True, [])]"
  "run_items (small_name demo_cenv) (chunk_bytes demo_cenv 64) False None demo_run
   = [(Filename ''pages-1.img'', []), (FileData 6, [4, 5, 6, 7, 8, 9]),
      (Filename ''pages-1.img'', []), (FileEof True, [])]"
proof -
  have "i32 12 = 12" by (rule i32_small) simp_all
  then have "chunk_bytes demo_cenv 64 = 12"
    by (simp add: chunk_bytes_def demo_cenv_def signed_divide_int_def)
  with demo_names show
    "run_items (small_name demo_cenv) (chunk_bytes demo_cenv 64) True None demo_run
     = [(Filename ''core-1.img'', []), (FileData 3, [1, 2, 3]),
        (Filename ''core-1.img'', []), (FileEof True, [])]"
    "run_items (small_name demo_cenv) (chunk_bytes demo_cenv 64) False None demo_run
     = [(Filename ''pages-1.img'', []), (FileData 6, [4, 5, 6, 7, 8, 9]),
        (Filename ''pages-1.img'', []), (FileEof True, [])]"
    by (simp_all add: demo_run_def event_items_def chop_step data_item_def)
qed

lemma demo_image_fits: "image_fits demo_cenv 64 demo_run 3 100"
  by (simp add: image_fits_def small_items_def large_items_def demo_items metadata_items_def)

text \<open>The pieces the witnesses of the commands share.\<close>

lemma demo_codec: "msg_codec (pb_enc demo_cenv) (pb_dec demo_denv) marker_ok"
  using marker_codec.msg_codec_axioms by (simp add: demo_cenv_def demo_denv_def)

lemma demo_names_finished: "finished_names demo_run = [''core-1.img'', ''pages-1.img'']"
  by (simp add: finished_names_def demo_run_def)

lemma demo_shards_ok:
  "2 \<le> length demo_shards" "\<forall>sh \<in> set demo_shards. room (sh_pipe sh) = None"
  "fresh_shards demo_shards" "length demo_shards = 3"
  by (simp_all add: demo_shards_def shard_new_def fresh_shards_def)

lemma demo_captured: "\<exists>s. capture_events demo_cenv demo_shards 64 demo_run = Inr s"
  using demo_names_ok
  by (intro capture_events_total [OF demo_capture_env_ok demo_shards_ok(1,2) demo_run_fits])
     (simp add: names_ok_def)

definition demo_disk :: fs_store where
  "demo_disk = \<lparr>images_dir = ''/img'', files = Map.empty, openable = (\<lambda>_. True), disk_room = None,
                disk_splice = (\<lambda>_ _. 3), splice_calls = 0\<rparr>"

definition demo_pipe :: sink where
  "demo_pipe = \<lparr>written = [], room = None\<rparr>"

text \<open>A client of the serve command that asks for both files, over the received channel \<open>ch\<close>.\<close>

definition demo_req :: "string \<Rightarrow> byte list" where
  "demo_req n = map byte_of_char n"

definition demo_client :: "sink connection" where
  "demo_client = \<lparr>sock_in = \<lparr>avail = concat (map (frame demo_req)
                     [''core-1.img'', ''pages-1.img'', ''stop-listener'']), broken = False\<rparr>,
                  sock_fds = [[Fd_Pipe demo_pipe], [Fd_Pipe demo_pipe]], sock_out = demo_pipe\<rparr>"

definition demo_penv :: penv where
  "demo_penv = \<lparr>vacant_key = (\<lambda>ks. Suc (Max (set (0 # ks)))), ctl_ok = (\<lambda>_. True),
                wait_ready = (\<lambda>i. Inr [if i = 0 then 1 else 2])\<rparr>"

definition demo_cenc :: cenc where
  "demo_cenc = \<lparr>req_dec = (\<lambda>bs. Some (map char_of_byte bs)), reply_enc = (\<lambda>_. []), list_enc = (\<lambda>_. [])\<rparr>"

definition demo_senv :: "channel \<Rightarrow> serve_env" where
  "demo_senv ch = \<lparr>sv_rx = rx_ref, sv_poll = demo_penv, sv_codec = demo_cenc,
      sv_recv = (\<lambda>i. if i = 0 then (ch, True) else ([], True)), sv_bind = Inr 7,
      sv_accept = (\<lambda>_. Inr (8, demo_client)), sv_splice = (\<lambda>_ _. 3)\<rparr>"

definition demo_serve_params :: serve_params where
  "demo_serve_params = \<lparr>sp_mkdir = True, sp_ram = Inl (Err Io_Error), sp_splice = (\<lambda>_ _. 3),
      sp_gone = (\<lambda>_ _. False), sp_released = (\<lambda>_. [int (20 * MB)]), sp_wakeups = (\<lambda>_. [])\<rparr>"

lemma demo_slab_ok: "slab_ok demo_penv"
  unfolding slab_ok_def
proof
  fix ks :: "nat list"
  show "vacant_key demo_penv ks \<notin> set ks"
  proof
    assume "vacant_key demo_penv ks \<in> set ks"
    then have "vacant_key demo_penv ks \<le> Max (set (0 # ks))" by (intro Max_ge) auto
    then show False by (simp add: demo_penv_def)
  qed
qed

lemma demo_req_codec: "msg_codec demo_req (req_dec demo_cenc) (\<lambda>n. length n < 100)"
  by unfold_locales (simp_all add: demo_req_def demo_cenc_def KB_def)

lemma demo_kernel: "kernel_moves (demo_senv ch)"
  by (simp add: kernel_moves_def demo_senv_def regex_doc_rx_ref demo_penv_def demo_cenc_def KB_def)

lemma demo_serve_env_ok: "serve_env_ok (demo_senv ch)"
  using demo_slab_ok
  by (simp add: serve_env_ok_def demo_senv_def fresh_fds_def demo_client_def demo_pipe_def)

lemma demo_one_client: "one_client (demo_senv ch) demo_req ch [''core-1.img'', ''pages-1.img'']"
  by (simp add: one_client_def demo_senv_def demo_penv_def asks_def demo_client_def demo_pipe_def)

lemma demo_channel_view: "channel_view (demo_senv ch) ch"
  unfolding channel_view_def
proof
  fix k
  show "\<exists>rest. ch = concat (map (\<lambda>i. fst (sv_recv (demo_senv ch) i)) [0..<k]) @ rest"
  proof (cases k)
    case (Suc m)
    have "concat (map (\<lambda>i. fst (sv_recv (demo_senv ch) i)) [0..<Suc m]) = ch"
      by (induction m) (simp_all add: demo_senv_def)
    with Suc show ?thesis by simp
  qed simp
qed

lemma demo_memory:
  "memory_budget (Some 20) (sp_ram demo_serve_params) = Inr (int (20 * MB))"
  "memory_comes_back (int (20 * MB)) (file_sender_new rx_ref (sem_new (int (20 * MB)))
     (sp_gone demo_serve_params) (sp_released demo_serve_params) (sp_wakeups demo_serve_params))"
proof -
  have "i64 20 = 20" "i64 (int (20 * MB)) = int (20 * MB)"
    by (simp_all add: i64_small MB_def)
  then show "memory_budget (Some 20) (sp_ram demo_serve_params) = Inr (int (20 * MB))"
    by (simp add: memory_budget_def)
qed (simp add: memory_comes_back_def file_sender_new_def sem_new_def demo_serve_params_def
       CHUNK_SIZE_def MB_def)

lemma demo_served:
  assumes s: "capture_events demo_cenv demo_shards 64 demo_run = Inr s"
  shows "\<exists>fs st. serve_cmd (\<lambda>_ :: unit file_entry. []) (\<lambda>_. None) demo_denv demo_serve_params
      (demo_senv (large_chan fs)) 100 10 (pipe_of (small_shard s) # map pipe_of (shards s)) [] [] (Some 20)
      = Inr (fs, st) \<and> map fst (closed_pipes st) = [''core-1.img'', ''pages-1.img'']"
proof -
  let ?ns = "[''core-1.img'', ''pages-1.img'']"
  have ns: "distinct ?ns" "\<forall>n \<in> set ?ns. plain_request n \<and> n \<in> set (finished_names demo_run)"
    "Suc (length ?ns) < 10"
    by (simp_all add: plain_request_def demo_names_finished)
  have params: "regex_doc (regexes demo_cenv)" "\<forall>small i. \<not> sp_gone demo_serve_params small i"
    "sp_mkdir demo_serve_params"
    by (simp_all add: demo_cenv_def regex_doc_rx_ref demo_serve_params_def)
  from serve_cmd_ends [OF s demo_shards_ok(3) demo_run_fits demo_image_fits [folded demo_shards_ok(4)]
      demo_wf_run demo_names_ok demo_codec demo_poll_ok demo_json regex_doc_rx_ref params demo_memory refl ns]
  obtain fs where fs: "\<forall>env renc rok. sv_rx env = rx_ref \<longrightarrow> kernel_moves env \<longrightarrow> slab_ok (sv_poll env) \<longrightarrow>
      msg_codec renc (req_dec (sv_codec env)) rok \<longrightarrow> (\<forall>n \<in> insert ''stop-listener'' (set ?ns). rok n) \<longrightarrow>
      one_client env renc (large_chan fs) ?ns \<longrightarrow>
      (\<exists>st. serve_cmd (\<lambda>_ :: unit file_entry. []) (\<lambda>_. None) demo_denv demo_serve_params env 100 10
            (pipe_of (small_shard s) # map pipe_of (shards s)) [] [] (Some 20) = Inr (fs, st)
          \<and> map fst (closed_pipes st) = ?ns)"
    by blast
  have env: "msg_codec demo_req (req_dec (sv_codec (demo_senv ch))) (\<lambda>n. length n < 100)"
    "sv_rx (demo_senv ch) = rx_ref" "slab_ok (sv_poll (demo_senv ch))" for ch
    using demo_req_codec demo_slab_ok by (simp_all add: demo_senv_def)
  show ?thesis
    by (rule exI [of _ fs], rule fs [rule_format, OF env(2) demo_kernel env(3) env(1) _ demo_one_client])
       auto
qed

section \<open>A run of the capture command\<close>

text \<open>
  One client that sends the file \<open>core-1.img\<close>, stops the listener and hangs up; the readiness
  reported by the kernel is in that order.
\<close>

definition demo_sender :: "nat connection" where
  "demo_sender = \<lparr>sock_in = \<lparr>avail = concat (map (frame demo_req)
                     [''core-1.img'', ''stop-listener'']), broken = False\<rparr>,
                  sock_fds = [[Fd_Pipe 10]], sock_out = demo_pipe\<rparr>"

definition demo_capture :: capture_params where
  "demo_capture = \<lparr>cp_mkdir = True, cp_bind = Inr 7, cp_setcap = (\<lambda>_ _. None),
     cp_poll = demo_penv\<lparr>wait_ready := (\<lambda>i. Inr [if i = 0 then 1 else if 2 \<le> i \<and> i \<le> 3 then 3 else 2])\<rparr>,
     cp_codec = demo_cenc, cp_accept = (\<lambda>_. Inr (8, demo_sender)),
     cp_pipe = (\<lambda>i. if i = 0 then [1, 2, 3] else [])\<rparr>"

definition demo_sent :: "drain_event list" where
  "demo_sent = [(''core-1.img'', [1, 2, 3]), (''core-1.img'', [])]"

lemma demo_sender_asks:
  "read_next_file_request demo_cenc (demo_sender\<lparr>sock_in := \<lparr>avail = frame demo_req n @ rest, broken = False\<rparr>\<rparr>)
   = Inr (Some n, demo_sender\<lparr>sock_in := \<lparr>avail = rest, broken = False\<rparr>\<rparr>)" if "length n < 100" for n
  using msg_codec.read_frame [OF demo_req_codec that, of rest False]
  by (simp add: read_next_file_request_def)

lemma demo_sender_reads:
  fixes c1 defines "c1 \<equiv> demo_sender\<lparr>sock_in := \<lparr>avail = frame demo_req ''stop-listener'', broken = False\<rparr>\<rparr>"
  shows "read_next_file_request demo_cenc demo_sender = Inr (Some ''core-1.img'', c1)"
    "read_next_file_request demo_cenc (c1\<lparr>sock_fds := []\<rparr>)
     = Inr (Some ''stop-listener'', c1\<lparr>sock_fds := [], sock_in := \<lparr>avail = [], broken = False\<rparr>\<rparr>)"
    "read_next_file_request demo_cenc (c1\<lparr>sock_fds := [], sock_in := \<lparr>avail = [], broken = False\<rparr>\<rparr>)
     = Inr (None, c1\<lparr>sock_fds := [], sock_in := \<lparr>avail = [], broken = False\<rparr>\<rparr>)"
    "sock_fds c1 = [[Fd_Pipe 10]]"
  unfolding c1_def
  using demo_sender_asks [of "''core-1.img''" "frame demo_req ''stop-listener''"]
    demo_sender_asks [of "''stop-listener''" "[]"]
  by (auto simp: demo_sender_def read_next_file_request_def pb_read_next_def read_bytes_next_def
      take_read_to_end_def)

lemma demo_capacity:
  "increase_capacity (cp_setcap demo_capture) (page_size demo_cenv) ps c = Inr c"
proof -
  have "set_all (cp_setcap demo_capture) ps c = None"
    by (induction ps) (simp_all add: demo_capture_def)
  then show ?thesis by (simp add: increase_capacity.simps [of _ _ ps])
qed

lemma demo_capture_run:
  "\<exists>st ser. capture_cmd demo_cenv demo_capture (Suc (Suc (Suc (Suc (Suc (Suc (Suc 0))))))) (map (\<lambda>fd. (fd, demo_pipe)) [3, 4, 5]) [] = Inr (st, ser)
     \<and> cs_events st = demo_sent \<and> cs_files st = [''core-1.img''] \<and> cs_stops st = 1"
proof -
  let ?shs = "map (\<lambda>(fd, p). shard_new fd p) (map (\<lambda>fd. (fd, demo_pipe)) [3, 4, 5])"
  have "\<exists>s. capture_events demo_cenv ?shs (int MB) demo_sent = Inr s"
    by (rule capture_events_total [OF demo_capture_env_ok])
       (simp_all add: demo_sent_def demo_pipe_def run_fits_def finished_names_def shard_new_def
         demo_cenv_def names_bytes_def)
  then obtain s s0 m1 s1 x1 m2 s2 x2 where
    s: "serializer_new ?shs (int MB) = Inr s0" 
      "drain_img_file demo_cenv s0 (event_file (''core-1.img'', [1, 2, 3])) = Inr (m1, s1, x1)"
      "drain_img_file demo_cenv s1 (event_file (''core-1.img'', [])) = Inr (m2, s2, x2)"
      "write_image_eof demo_cenv s2 = Inr s"
    by (auto simp: capture_events_def demo_sent_def)
  have m: "m1" "\<not> m2"
    using drain_more [OF s(2)] drain_more [OF s(3)] by auto
  let ?c1 = "demo_sender\<lparr>sock_in := \<lparr>avail = frame demo_req ''stop-listener'', broken = False\<rparr>\<rparr>"
  define S where "S = (\<lambda>sl c w ser b a evs fs stops.
     \<lparr>cs_poller = \<lparr>slab = sl, pending_events = [], ctls = c, waits = w\<rparr>, cs_listener_key = 1, cs_ser = ser,
      cs_started = b, cs_accepts = a, cs_events = evs, cs_files = fs, cs_stops = stops\<rparr>)"
  let ?l = "(1, 7, Cap_Listener)" and ?f = "(3, 10, Cap_File ''core-1.img'')"
  let ?c2 = "?c1\<lparr>sock_fds := []\<rparr>" and ?c3 = "?c1\<lparr>sock_fds := [], sock_in := \<lparr>avail = [], broken = False\<rparr>\<rparr>"
  note defs = demo_capture_def ensure_def poller_add_def poller_poll_def demo_penv_def poller_remove_def Let_def
    capture_client_def capture_file_def recv_pipe_def recv_fd_def unix_pipe_new_def poller_set_def cap_add_file_def S_def
  let ?loop = "capture_loop demo_cenv demo_capture"
  have steps:
    "?loop (Suc n) (S [?l] 1 0 s0 False 0 [] [] 0) = ?loop n (S [?l, (2, 8, Cap_Client demo_sender)] 2 1 s0 False 1 [] [] 0)"
    "?loop (Suc n) (S [?l, (2, 8, Cap_Client demo_sender)] 2 1 s0 False 1 [] [] 0)
     = ?loop n (S [?l, (2, 8, Cap_Client ?c2), ?f] 3 2 s0 True 1 [] [''core-1.img''] 0)"
    "?loop (Suc n) (S [?l, (2, 8, Cap_Client ?c2), ?f] 3 2 s0 True 1 [] [''core-1.img''] 0)
     = ?loop n (S [?l, (2, 8, Cap_Client ?c2), ?f] 3 3 s1 True 1 [(''core-1.img'', [1, 2, 3])] [''core-1.img''] 0)"
    "?loop (Suc n) (S [?l, (2, 8, Cap_Client ?c2), ?f] 3 3 s1 True 1 [(''core-1.img'', [1, 2, 3])] [''core-1.img''] 0)
     = ?loop n (S [?l, (2, 8, Cap_Client ?c2)] 4 4 s2 True 1 demo_sent [''core-1.img''] 0)"
    "?loop (Suc n) (S [?l, (2, 8, Cap_Client ?c2)] 4 4 s2 True 1 demo_sent [''core-1.img''] 0)
     = ?loop n (S [(2, 8, Cap_Client ?c3)] 5 5 s2 True 1 demo_sent [''core-1.img''] 1)"
    "?loop (Suc n) (S [(2, 8, Cap_Client ?c3)] 5 5 s2 True 1 demo_sent [''core-1.img''] 1)
     = ?loop n (S [] 6 6 s2 True 1 demo_sent [''core-1.img''] 1)"
    "?loop (Suc n) (S [] 6 6 s2 True 1 demo_sent [''core-1.img''] 1) = Inr (S [] 6 6 s2 True 1 demo_sent [''core-1.img''] 1)" for n
    subgoal by (simp add: defs eval_nat_numeral)
    subgoal using demo_sender_reads by (simp add: defs eval_nat_numeral)
    subgoal using s(2) m by (simp add: defs eval_nat_numeral)
    subgoal using s(3) m by (simp add: defs demo_sent_def eval_nat_numeral)
    subgoal using demo_sender_reads by (simp add: defs eval_nat_numeral)
    subgoal using demo_sender_reads by (simp add: defs eval_nat_numeral)
    subgoal by (simp add: defs eval_nat_numeral)
    done
  have "capture_cmd demo_cenv demo_capture (Suc (Suc (Suc (Suc (Suc (Suc (Suc 0)))))))
      (map (\<lambda>fd. (fd, demo_pipe)) [3, 4, 5]) [] = Inr (S [] 6 6 s2 True 1 demo_sent [''core-1.img''] 1, s)"
  proof -
    have "capture_cmd demo_cenv demo_capture (Suc (Suc (Suc (Suc (Suc (Suc (Suc 0)))))))
      (map (\<lambda>fd. (fd, demo_pipe)) [3, 4, 5]) [] = rbind (?loop (Suc (Suc (Suc (Suc (Suc (Suc (Suc 0)))))))
        (S [?l] 1 0 s0 False 0 [] [] 0)) (\<lambda>st2. rbind (write_image_eof demo_cenv (cs_ser st2)) (\<lambda>ser'. Inr (st2, ser')))"
      using s(1) demo_capacity
      by (simp add: capture_cmd_def SHARD_PIPE_DESIRED_CAPACITY_def poller_new_def defs
          del: capture_loop.simps)
    then show ?thesis unfolding steps using s(4) by (simp add: S_def)
  qed
  then show ?thesis by (auto simp: S_def)
qed
end
