(* ===== verification/Threads_Memory.thy ===== *)
theory Threads_Memory
  imports Serve_Threads Par_Budget Demo
begin

text \<open>
  Where the memory of the serve command is. Everything the deserializer acquires is on its way to
  the serving thread or waits there for a client, and is given back when it has been sent. The
  invariant \<open>threads_inv\<close> says so for every state of the two threads.
\<close>

section \<open>What a round gives back\<close>

definition held :: "chunk_store \<Rightarrow> int" where
  "held store = sum_list (map (\<lambda>(n, cs). if small_spec n then 0 else int (length (bytes_of cs))) store)"

definition tidy :: "chunk_store \<Rightarrow> bool" where
  "tidy store \<longleftrightarrow> distinct (map fst store) \<and> (\<forall>n. \<not> small_spec n \<longrightarrow> eof_last (chunks_of store n))"

lemma held_push:
  "held (store_push store (n, c)) = held store + (if small_spec n then 0 else int (length (chunk_of c)))"
proof -
  have "held (AList.update n (chunks_of store n @ [c]) store)
      = held store + (if small_spec n then 0 else int (length (chunk_of c)))"
  proof (induction store)
    case Nil
    then show ?case by (simp add: held_def chunks_of_def)
  next
    case (Cons x store)
    obtain m cs where x: "x = (m, cs)" by force
    with Cons show ?case by (auto simp: held_def chunks_of_def)
  qed
  then show ?thesis by (simp add: store_push_def)
qed

lemma held_fold:
  "\<forall>m \<in> set ch. \<not> small_spec (fst m) \<Longrightarrow> held (foldl store_push store ch) = held store + chan_size ch"
proof (induction ch arbitrary: store)
  case Nil
  then show ?case by (simp add: chan_size_def)
next
  case (Cons x ch)
  then show ?case by (cases x) (simp add: held_push chan_size_def)
qed

lemma held_delete:
  "distinct (map fst store) \<Longrightarrow>
   held (AList.delete n store) = held store - (if small_spec n then 0 else int (length (bytes_of (chunks_of store n))))"
proof (induction store)
  case Nil
  then show ?case by (simp add: held_def chunks_of_def)
next
  case (Cons x store)
  obtain m cs where x: "x = (m, cs)" by force
  show ?case
  proof (cases "m = n")
    case True
    then have "n \<notin> fst ` set store" using Cons.prems x by auto
    then have "AList.delete n store = store" by (simp add: delete_id)
    with True x show ?thesis by (simp add: held_def chunks_of_def)
  next
    case False
    with Cons x show ?thesis by (simp add: held_def chunks_of_def)
  qed
qed

lemma eof_last_bytes: "eof_last cs \<Longrightarrow> bytes_of (upto_eof cs) = bytes_of cs"
proof (cases cs rule: rev_cases)
  case (snoc xs x)
  moreover assume "eof_last cs"
  ultimately have "Fc_Eof \<notin> set xs" by (simp add: eof_last_def)
  then show ?thesis using snoc by (cases x) (simp_all add: upto_eof_Eof upto_eof_none)
qed (simp add: upto_eof_def)

lemma tidy_delete: "tidy store \<Longrightarrow> tidy (AList.delete n store)"
  by (simp add: tidy_def chunks_of_delete distinct_delete)

text \<open>Releases account for what has left the store.\<close>

definition gives_back :: "int list \<Rightarrow> chunk_store \<Rightarrow> int list \<Rightarrow> chunk_store \<Rightarrow> bool" where
  "gives_back rel store rel' store' \<longleftrightarrow>
     (\<exists>rs. rel' = rel @ rs \<and> (\<forall>r \<in> set rs. 0 \<le> r) \<and> sum_list rs + held store' = held store)
     \<and> tidy store' \<and> (\<forall>n. chunks_of store' n = [] \<or> chunks_of store' n = chunks_of store n)"

lemma gives_back_refl: "tidy store \<Longrightarrow> gives_back rel store rel store"
  by (auto simp: gives_back_def)

lemma gives_back_trans:
  assumes "gives_back a s b s'" and "gives_back b s' c s''"
  shows "gives_back a s c s''"
proof -
  from assms obtain rs rs' where "b = a @ rs" "c = b @ rs'" "\<forall>r \<in> set rs. 0 \<le> r" "\<forall>r \<in> set rs'. 0 \<le> r"
    "sum_list rs + held s' = held s" "sum_list rs' + held s'' = held s'"
    by (auto simp: gives_back_def)
  then have "\<exists>rs. c = a @ rs \<and> (\<forall>r \<in> set rs. 0 \<le> r) \<and> sum_list rs + held s'' = held s"
    by (intro exI [of _ "rs @ rs'"]) auto
  with assms show ?thesis unfolding gives_back_def by metis
qed

lemma send_over_chunks_released:
  "send_over_chunks env n cs p rel i = Inr (all, p', rel', i') \<Longrightarrow> regex_doc (sv_rx env) \<Longrightarrow>
   \<exists>rs. rel' = rel @ rs \<and> (\<forall>r \<in> set rs. 0 \<le> r)
      \<and> sum_list rs = (if small_spec n then 0 else int (length (bytes_of (upto_eof cs))))"
proof (induction env n cs p rel i rule: send_over_chunks.induct)
  case (3 env n chunk chunks p rel i)
  let ?rel = "if small_spec n then rel else rel @ [int (length (mm_deref chunk))]"
  from 3(2,3) obtain p1 where v: "vmsplice_all (sv_splice env i) p (mm_deref chunk) = Inr p1"
    and r: "send_over_chunks env n chunks p1 ?rel (Suc i) = Inr (all, p', rel', i')"
    by (auto simp: is_small_file_spec)
  have sm: "is_small_file (sv_rx env) n = Inr (small_spec n)" using 3(3) by (rule is_small_file_spec)
  from 3(1) [OF v sm r 3(3)] obtain rs where rs: "rel' = ?rel @ rs" "\<forall>r \<in> set rs. 0 \<le> r"
    "sum_list rs = (if small_spec n then 0 else int (length (bytes_of (upto_eof chunks))))" by blast
  show ?case
  proof (cases "small_spec n")
    case True
    with rs show ?thesis by simp
  next
    case False
    with rs show ?thesis
      by (intro exI [of _ "int (length (mm_deref chunk)) # rs"]) (auto simp: upto_eof_def)
  qed
qed (auto simp: upto_eof_def)

lemma send_over_chunks_gives:
  assumes "send_over_chunks env n (chunks_of store n) p rel i = Inr (all, p', rel', i')"
    and "regex_doc (sv_rx env)" and "tidy store"
  shows "gives_back rel store rel' (AList.delete n store)"
proof -
  from send_over_chunks_released [OF assms(1,2)] obtain rs where rs: "rel' = rel @ rs" "\<forall>r \<in> set rs. 0 \<le> r"
    "sum_list rs = (if small_spec n then 0 else int (length (bytes_of (upto_eof (chunks_of store n)))))"
    by blast
  moreover have "\<not> small_spec n \<Longrightarrow> bytes_of (upto_eof (chunks_of store n)) = bytes_of (chunks_of store n)"
    using assms(3) by (simp add: tidy_def eof_last_bytes)
  moreover have "held (AList.delete n store)
      = held store - (if small_spec n then 0 else int (length (bytes_of (chunks_of store n))))"
    using assms(3) by (intro held_delete) (simp add: tidy_def)
  ultimately show ?thesis
    using tidy_delete [OF assms(3), of n]
    by (auto simp: gives_back_def chunks_of_delete)
qed

lemma send_open_pipes_gives:
  "send_open_pipes env ps store rel i = Inr (still, done, store', rel', i') \<Longrightarrow> regex_doc (sv_rx env) \<Longrightarrow>
   tidy store \<Longrightarrow> gives_back rel store rel' store'"
proof (induction ps arbitrary: store rel i still "done" store' rel' i')
  case Nil
  then show ?case by (simp add: gives_back_refl)
next
  case (Cons x ps)
  obtain n p where x: "x = (n, p)" by force
  show ?case
  proof (cases "map_of store n")
    case None
    with Cons x show ?thesis by auto
  next
    case (Some cs)
    with Cons.prems(1) x obtain all p1 rel1 i1 still1 done1 where
      s: "send_over_chunks env n (chunks_of store n) p rel i = Inr (all, p1, rel1, i1)"
      and r: "send_open_pipes env ps (AList.delete n store) rel1 i1 = Inr (still1, done1, store', rel', i')"
      by (auto simp: chunks_of_def split: if_splits)
    have g: "gives_back rel store rel1 (AList.delete n store)"
      by (rule send_over_chunks_gives [OF s Cons.prems(2,3)])
    then have "tidy (AList.delete n store)" by (simp add: gives_back_def)
    from gives_back_trans [OF g Cons.IH [OF r Cons.prems(2) this]] show ?thesis .
  qed
qed

abbreviation round_gives :: "serve_state \<Rightarrow> serve_state \<Rightarrow> bool" where
  "round_gives st st' \<equiv>
     gives_back (sv_released st) (sv_store st) (sv_released st') (sv_store st')"

lemma pump_gives:
  "pump env st = Inr st' \<Longrightarrow> regex_doc (sv_rx env) \<Longrightarrow> tidy (sv_store st) \<Longrightarrow> round_gives st st'"
  by (auto simp: pump_def dest: send_open_pipes_gives)

lemma file_request_gives:
  assumes r: "serve_file_request env fl key c n st = Inr st'"
    and ok: "regex_doc (sv_rx env)" "tidy (sv_store st)"
  shows "round_gives st st'"
proof (cases "n \<in> set fl \<and> map_of (sv_store st) n \<noteq> None")
  case False
  with r ok(2) show ?thesis
    by (auto simp: serve_file_request_def gives_back_refl split: option.splits if_splits)
next
  case True
  then obtain cs where cs: "map_of (sv_store st) n = Some cs" "chunks_of (sv_store st) n = cs"
    by (auto simp: chunks_of_def)
  with r True obtain c1 p c2 all p' rel i where
    s: "send_over_chunks env n cs p (sv_released st) (sends st) = Inr (all, p', rel, i)"
    and st': "sv_store st' = AList.delete n (sv_store st)" "sv_released st' = rel"
    by (auto simp: serve_file_request_def Let_def split: if_splits)
  from send_over_chunks_gives [OF s [folded cs(2)] ok] st' show ?thesis by simp
qed

lemma client_gives:
  assumes r: "serve_client env fl key c st = Inr (st', fin)"
    and ok: "regex_doc (sv_rx env)" "tidy (sv_store st)"
  shows "round_gives st st'"
  using serve_client_cases [OF r] file_request_gives [OF _ ok(1)] ok(2) gives_back_refl [OF ok(2)] by force

lemma round_rest_gives:
  assumes r: "serve_round env fl st = Inr (st', fin)"
    and ok: "regex_doc (sv_rx env)" "tidy (sv_store (receive_chunks env st))"
  shows "round_gives (receive_chunks env st) st'"
proof -
  from serve_round_cases [OF r] obtain st1 st2 where p1: "pump env (receive_chunks env st) = Inr st1"
    and same: "same_store st1 st2" and st': "same_store st2 st' \<or> (\<exists>key c. serve_client env fl key c st2 = Inr (st', fin))"
    by blast
  have g: "round_gives (receive_chunks env st) st2" using pump_gives [OF p1 ok] same by simp
  then have t: "tidy (sv_store st2)" by (simp add: gives_back_def)
  from st' have "round_gives st2 st'"
  proof (elim disjE exE)
    assume "same_store st2 st'"
    then show ?thesis using gives_back_refl [OF t] by simp
  next
    fix key c
    assume "serve_client env fl key c st2 = Inr (st', fin)"
    then show ?thesis by (rule client_gives [OF _ ok(1) t])
  qed
  with g show ?thesis by (rule gives_back_trans)
qed

section \<open>Where the memory is\<close>

text \<open>
  Every chunk is sent directly after its memory was acquired, and nothing else is acquired:
  \<open>k\<close> is what has been acquired for the chunk that comes first.
\<close>

fun paired :: "nat \<Rightarrow> action list \<Rightarrow> bool" where
  "paired k [] \<longleftrightarrow> k = 0"
| "paired k (Acquire j # acts) \<longleftrightarrow> k = 0 \<and> paired j acts"
| "paired k (Send (n, c) # acts) \<longleftrightarrow> k = length (chunk_of c) \<and> paired 0 acts"
| "paired k (Close # acts) \<longleftrightarrow> k = 0 \<and> paired 0 acts"

definition in_order :: "chunk_store \<Rightarrow> channel \<Rightarrow> bool" where
  "in_order store ch \<longleftrightarrow> distinct (map fst store)
     \<and> (\<forall>m \<in> set ch. \<not> small_spec (fst m))
     \<and> (\<forall>n. \<not> small_spec n \<longrightarrow> eof_last (chunks_of store n @ msgs_for n ch))"

definition accounted :: "int \<Rightarrow> threads \<Rightarrow> bool" where
  "accounted limit t \<longleftrightarrow>
     start_val (budget t) = limit \<and> 0 \<le> sem_count (budget t)
     \<and> (\<exists>k. paired k (todo t)
          \<and> sem_count (budget t) + int k + chan_size (transit t) + held (sv_store (serving t)) = limit)"

definition threads_inv :: "int \<Rightarrow> threads \<Rightarrow> bool" where
  "threads_inv limit t \<longleftrightarrow>
     accounted limit t \<and> in_order (sv_store (serving t)) (transit t @ sent_by (todo t))"

lemma eof_last_appendD: "eof_last (xs @ ys) \<Longrightarrow> eof_last xs" "eof_last (xs @ ys) \<Longrightarrow> eof_last ys"
proof -
  assume e: "eof_last (xs @ ys)"
  show "eof_last ys" using e by (auto simp: eof_last_def butlast_append split: if_splits)
  show "eof_last xs" using e by (cases "ys = []") (auto simp: eof_last_def butlast_append dest: in_set_butlastD)
qed

lemma in_order_tidy: "in_order store ch \<Longrightarrow> tidy store"
  by (auto simp: in_order_def tidy_def dest: eof_last_appendD)

lemma distinct_store_push: "distinct (map fst store) \<Longrightarrow> distinct (map fst (store_push store m))"
  by (simp add: store_push_def distinct_update)

lemma in_order_push: "in_order store (m # ch) \<Longrightarrow> in_order (store_push store m) ch"
  by (cases m) (auto simp: in_order_def chunks_of_push distinct_store_push)

lemma in_order_fold: "in_order store (ch @ ch') \<Longrightarrow> in_order (foldl store_push store ch) ch'"
  by (induction ch arbitrary: store) (auto intro: in_order_push)

lemma in_order_sub:
  "in_order store ch \<Longrightarrow> tidy store' \<Longrightarrow> \<forall>n. chunks_of store' n = [] \<or> chunks_of store' n = chunks_of store n \<Longrightarrow>
   in_order store' ch"
proof -
  assume a: "in_order store ch" "tidy store'" "\<forall>n. chunks_of store' n = [] \<or> chunks_of store' n = chunks_of store n"
  have "eof_last (chunks_of store' n @ msgs_for n ch)" if "\<not> small_spec n" for n
  proof -
    have e: "eof_last (chunks_of store n @ msgs_for n ch)" using a(1) that by (simp add: in_order_def)
    show ?thesis using a(3) [rule_format, of n] e eof_last_appendD(2) [OF e] by auto
  qed
  with a(1,2) show ?thesis by (simp add: in_order_def tidy_def)
qed

lemma sem_releases_exact:
  "\<forall>r \<in> set rs. 0 \<le> r \<Longrightarrow> sem_count s + sum_list rs \<le> start_val s \<Longrightarrow>
   sem_count (fold (\<lambda>r s. sem_release s r) rs s) = sem_count s + sum_list rs"
proof (induction rs arbitrary: s)
  case (Cons r rs)
  have "0 \<le> sum_list rs" using Cons.prems(1) by (intro sum_list_nonneg) auto
  then have c: "sem_count (sem_release s r) = sem_count s + r"
    using Cons.prems(2) by (simp add: sem_release_def)
  have "sem_count (sem_release s r) + sum_list rs \<le> start_val (sem_release s r)"
    using Cons.prems(2) c by simp
  from Cons.IH [OF _ this] Cons.prems(1) c show ?case by simp
qed simp

lemma sem_releases_start: "start_val (fold (\<lambda>r s. sem_release s r) rs s) = start_val s"
  by (induction rs arbitrary: s) simp_all

lemma chan_size_nonneg: "0 \<le> chan_size ch"
  unfolding chan_size_def by (intro sum_list_nonneg) auto

lemma held_nonneg: "0 \<le> held store"
  unfolding held_def by (intro sum_list_nonneg) auto

lemma receive_round_env:
  "sv_store (receive_chunks (round_env env t) st)
     = (if reciever_eof st then sv_store st else foldl store_push (sv_store st) (transit t))"
  "sv_released (receive_chunks (round_env env t) st) = sv_released st"
  by (simp_all add: receive_chunks_def round_env_def)

lemma threads_inv_round:
  assumes i: "threads_inv limit t" and rx: "regex_doc (sv_rx env)"
    and r: "serve_round (round_env env t) fl (serving t) = Inr (st', fin)"
  shows "threads_inv limit (after_round t st' fin)"
proof -
  let ?st = "receive_chunks (round_env env t) (serving t)" and ?t = "after_round t st' fin"
  have order: "in_order (sv_store ?st) (transit ?t @ sent_by (todo t))"
    using i by (auto simp: threads_inv_def receive_round_env after_round_def intro: in_order_fold)
  have large: "\<forall>m \<in> set (transit t). \<not> small_spec (fst m)"
    using i by (auto simp: threads_inv_def in_order_def)
  have move: "held (sv_store ?st) + chan_size (transit ?t) = held (sv_store (serving t)) + chan_size (transit t)"
    using held_fold [OF large] by (simp add: receive_round_env after_round_def) (simp add: chan_size_def)
  have g: "round_gives ?st st'"
    using round_rest_gives [OF r _ in_order_tidy [OF order]] rx by (simp add: round_env_def)
  then obtain rs where rs: "sv_released st' = sv_released (serving t) @ rs" "\<forall>r \<in> set rs. 0 \<le> r"
    "sum_list rs + held (sv_store st') = held (sv_store ?st)"
    by (auto simp: gives_back_def receive_round_env)
  have b: "budget ?t = fold (\<lambda>r s. sem_release s r) rs (budget t)"
    using rs(1) by (simp add: after_round_def)
  obtain k where k: "start_val (budget t) = limit" "0 \<le> sem_count (budget t)" "paired k (todo t)"
    "sem_count (budget t) + int k + chan_size (transit t) + held (sv_store (serving t)) = limit"
    using i by (auto simp: threads_inv_def accounted_def)
  have "sem_count (budget t) + sum_list rs \<le> start_val (budget t)"
    using k move rs(3) chan_size_nonneg [of "transit ?t"] held_nonneg [of "sv_store st'"] by linarith
  from sem_releases_exact [OF rs(2) this] have c: "sem_count (budget ?t) = sem_count (budget t) + sum_list rs"
    unfolding b .
  have sum: "0 \<le> sum_list rs" using rs(2) by (intro sum_list_nonneg) auto
  have "sem_count (budget ?t) + int k + chan_size (transit ?t) + held (sv_store st') = limit"
    using c k(4) move rs(3) by linarith
  moreover have "start_val (budget ?t) = limit" unfolding b using k(1) by (simp add: sem_releases_start)
  moreover have "0 \<le> sem_count (budget ?t)" using c k(2) sum by linarith
  ultimately have "accounted limit ?t"
    using k(3) by (auto simp: accounted_def after_round_def)
  moreover have "in_order (sv_store st') (transit ?t @ sent_by (todo t))"
    using in_order_sub [OF order] g by (simp add: gives_back_def)
  ultimately show ?thesis by (simp add: threads_inv_def after_round_def)
qed

lemma threads_inv_step:
  assumes "threads_step env fl t t'" and "threads_inv limit t" and "regex_doc (sv_rx env)"
    and "\<not> serve_ended t"
  shows "threads_inv limit t'"
  using assms
proof (induction rule: threads_step.induct)
  case (acquire t k acts s)
  then have "sem_count s = sem_count (budget t) - int k" "start_val s = start_val (budget t)"
    "0 \<le> sem_count s" by (auto split: if_splits)
  with acquire show ?case by (auto simp: threads_inv_def accounted_def)
next
  case (send t msg acts)
  then show ?case by (cases msg) (auto simp: threads_inv_def accounted_def)
next
  case (close t acts)
  then show ?case by (auto simp: threads_inv_def accounted_def)
next
  case (round t st fin)
  then show ?case using threads_inv_round by blast
qed simp_all

lemma serve_ended_step: "threads_step env fl t t' \<Longrightarrow> serve_ended t \<Longrightarrow> serve_ended t'"
  by (induction rule: threads_step.induct) auto

lemma threads_inv_reach:
  assumes "(threads_step env fl)\<^sup>*\<^sup>* t t'" and "threads_inv limit t" and "regex_doc (sv_rx env)"
  shows "serve_ended t' \<or> threads_inv limit t'"
  using assms(1)
proof (induction rule: rtranclp_induct)
  case base
  then show ?case using assms(2) by simp
next
  case (step t1 t2)
  then show ?case using threads_inv_step [OF step.hyps(2) _ assms(3)] serve_ended_step [OF step.hyps(2)] by blast
qed

lemma held_small: "\<forall>n \<in> fst ` set store. small_spec n \<Longrightarrow> held store = 0"
  unfolding held_def by (induction store) auto

lemma chunks_of_absent: "n \<notin> fst ` set store \<Longrightarrow> chunks_of store n = []"
  by (simp add: chunks_of_def map_of_eq_None_iff [symmetric])

text \<open>The messages for the large files of an image.\<close>

definition large_messages :: "channel \<Rightarrow> bool" where
  "large_messages ch \<longleftrightarrow> (\<forall>m \<in> set ch. \<not> small_spec (fst m)) \<and> (\<forall>n. eof_last (msgs_for n ch))"

lemma paired_actions: "paired 0 (actions_of ch @ [Close])"
  by (induction ch rule: actions_of.induct) simp_all

definition small_store :: "chunk_store \<Rightarrow> bool" where
  "small_store store \<longleftrightarrow> distinct (map fst store) \<and> (\<forall>n \<in> fst ` set store. small_spec n)"

lemma threads_inv_start:
  assumes "large_messages ch" and "small_store (sv_store st)" and "0 \<le> limit"
  shows "threads_inv limit (threads_start ch limit st)"
proof -
  have "chunks_of (sv_store st) n = []" if "\<not> small_spec n" for n
    using assms(2) that by (intro chunks_of_absent) (auto simp: small_store_def)
  with assms paired_actions show ?thesis
    by (auto simp: threads_inv_def accounted_def in_order_def threads_start_def sem_new_def large_messages_def
        small_store_def held_small chan_size_def)
qed

text \<open>C9: no memory is lost. As long as the serving thread runs, in every state that the two threads
  reach, what is left in the semaphore and the bytes of large files that are on the channel or wait in
  the serving thread add up to at most the memory limit, and to exactly the limit whenever the
  deserializer is about to acquire. So it waits only while the missing memory is full of data
  that no client has asked for yet, and everything that is sent comes back.\<close>

theorem memory_is_accounted:
  assumes run: "(threads_step env fl)\<^sup>*\<^sup>* (threads_start ch limit st) t"
    and ch: "large_messages ch" and st: "small_store (sv_store st)" "0 \<le> limit"
    and rx: "regex_doc (sv_rx env)" and on: "\<not> serve_ended t"
  shows "0 \<le> sem_count (budget t)
    \<and> chan_size (transit t) + held (sv_store (serving t)) + sem_count (budget t) \<le> limit
    \<and> (\<forall>n rest. todo t = Acquire n # rest \<longrightarrow>
         chan_size (transit t) + held (sv_store (serving t)) + sem_count (budget t) = limit)"
  using threads_inv_reach [OF run threads_inv_start [OF ch st] rx] on
  by (auto simp: threads_inv_def accounted_def)

section \<open>An example\<close>

lemma demo_large: "\<not> small_spec ''pages-1.img''"
  using demo_names(2) unfolding demo_small is_small_file_spec [OF regex_doc_rx_ref] by simp

definition demo_chunk :: file_content where
  "demo_chunk = Content \<lparr>mm_mem = [1, 2, 3, 4, 5, 6], mm_len = 6\<rparr>"

definition demo_ch :: channel where
  "demo_ch = [(''pages-1.img'', demo_chunk), (''pages-1.img'', demo_chunk), (''pages-1.img'', Fc_Eof)]"

lemma demo_messages: "large_messages demo_ch"
  using demo_large by (auto simp: large_messages_def demo_ch_def demo_chunk_def eof_last_def)

theorem memory_is_accounted_witness:
  "\<exists>t rest. (threads_step (demo_senv []) [])\<^sup>*\<^sup>* (threads_start demo_ch 10 (serve_start [] poller_new 0)) t
     \<and> todo t = Acquire 6 # rest \<and> sem_count (budget t) = 4 \<and> chan_size (transit t) = 6
     \<and> chan_size (transit t) + held (sv_store (serving t)) + sem_count (budget t) = 10"
proof -
  let ?rest = "[Send (''pages-1.img'', demo_chunk), Send (''pages-1.img'', Fc_Eof), Close]"
  let ?t0 = "threads_start demo_ch 10 (serve_start [] poller_new 0)"
  let ?t1 = "?t0\<lparr>todo := Send (''pages-1.img'', demo_chunk) # Acquire 6 # ?rest, budget := \<lparr>sem_count = 4, start_val = 10\<rparr>\<rparr>"
  let ?t2 = "?t1\<lparr>todo := Acquire 6 # ?rest, transit := [(''pages-1.img'', demo_chunk)]\<rparr>"
  have "todo ?t0 = Acquire 6 # Send (''pages-1.img'', demo_chunk) # Acquire 6 # ?rest"
    by (simp add: threads_start_def demo_ch_def demo_chunk_def mm_deref_def)
  then have s1: "threads_step (demo_senv []) [] ?t0 ?t1"
    by (rule threads_step.acquire) (simp add: threads_start_def sem_new_def)
  have s2: "threads_step (demo_senv []) [] ?t1 ?t2"
    using threads_step.send [of ?t1 "(''pages-1.img'', demo_chunk)"] by (simp add: threads_start_def)
  from s1 s2 have run: "(threads_step (demo_senv []) [])\<^sup>*\<^sup>* ?t0 ?t2" by simp
  have "regex_doc (sv_rx (demo_senv []))" by (simp add: demo_senv_def regex_doc_rx_ref)
  from memory_is_accounted [OF run demo_messages _ _ this]
  have "chan_size (transit ?t2) + held (sv_store (serving ?t2)) + sem_count (budget ?t2) = 10"
    by (simp add: small_store_def serve_start_def threads_start_def)
  moreover have "chan_size (transit ?t2) = 6" by (simp add: chan_size_def demo_chunk_def mm_deref_def)
  ultimately show ?thesis using run by (intro exI [of _ ?t2] exI [of _ ?rest]) simp
qed

end
