(* ===== verification/Threads_Image.thy ===== *)
theory Threads_Image
  imports Threads_Memory
begin

text \<open>
  A captured image served by the two threads: what the deserializer does with it, and what the
  client gets, whatever the schedule.
\<close>

section \<open>The deserializer over the channel store\<close>

lemma acted_start:
  "\<forall>small i. \<not> gone small i \<Longrightarrow> acted (file_sender_new rx sem gone rel wake) (file_sender_new rx sem gone rel wake)"
  by (auto simp: acted_def file_sender_new_def agree_def)

lemma extract_acts:
  assumes cap: "capture_events k shs cap es = Inr s" and fresh: "fresh_shards shs"
    and fits: "run_fits k es" "image_fits k cap es (length shs) fuel"
    and wf: "wf_run es" "names_ok es"
    and libs: "msg_codec (pb_enc k) (pb_dec e) marker_ok" "poll_ok serve_failure e"
      "of_json e (to_json k (finished_names es)) = Some (finished_names es)"
      "regex_doc rx" "regex_doc (regexes k)"
    and ext: "\<forall>x \<in> set ext. written (snd x) = []" and chans: "\<forall>small i. \<not> gone small i"
    and pipes: "mset pipes = mset (map pipe_of (shards s))"
    and run: "extract_image e (ov_ops par_ops) fuel
        (fold (\<lambda>(n, p) o'. add_overlay o' n p) ext (overlay_new (file_sender_new rx sem gone rel wake) ask))
        (pipe_of (small_shard s) # pipes) = Inr (names, d)"
  shows "names = finished_names es \<and> par_inv (underlying (img_store d))
    \<and> acted (file_sender_new rx sem gone rel wake) (underlying (img_store d))
    \<and> (\<forall>f \<in> set (finished_names es). f \<notin> fst ` set ext \<longrightarrow>
         par_stored (underlying (img_store d)) f = Some (file_content f es))"
proof -
  let ?fs = "file_sender_new rx sem gone rel wake"
  have "par_acts_over.ext_ready ?fs (fst ` set ext) k es ?fs ext"
    using par_ready [OF libs(4,5) chans ext, of es sem rel wake] acted_start [OF chans]
    unfolding par_acts_over.ext_ready_def par_over.ext_ready_def by simp
  note all = holds_or_Inr [OF par_acts_over.extract_overlay [OF cap fresh fits wf libs(1-3) this pipes, of ask] run]
  have names: "f \<in> set (finished_names es) \<Longrightarrow> f \<noteq> METADATA_FILE \<and> f \<in> fst ` set es" for f
    using wf(2) by (auto simp: names_ok_def finished_names_def)
  have "par_stored (underlying (img_store d)) f = Some (file_content f es)"
    if "f \<in> set (finished_names es)" "f \<notin> fst ` set ext" for f
  proof -
    have "ov_stored (fst ` set ext) par_stored (img_store d) f = Some (file_content f es)"
      using all names [OF that(1)] by auto
    then show ?thesis using that(2) by (simp add: ov_stored_def)
  qed
  with all show ?thesis by (auto simp: ov_inv_def)
qed

lemma acted_messages: "acted st0 fs \<Longrightarrow> par_inv fs \<Longrightarrow> large_messages (large_chan fs)"
  by (auto simp: acted_def par_inv_def large_messages_def)

section \<open>A whole image\<close>

text \<open>The rounds so far, as a view of the whole channel.\<close>

lemma flows_view:
  assumes "flows env fl store ch t"
  obtains f where "serve_inv (env\<lparr>sv_recv := f\<rparr>) fl store (serving t)" "channel_view (env\<lparr>sv_recv := f\<rparr>) ch"
proof -
  from assms obtain g rest where g: "serve_inv (env\<lparr>sv_recv := g\<rparr>) fl store (serving t)"
    "ch = concat (map (\<lambda>i. fst (g i)) [0..<recvs (serving t)]) @ rest" by (auto simp: flows_def)
  define f where "f = (\<lambda>i. if i < recvs (serving t) then g i else ([], True))"
  have inv: "serve_inv (env\<lparr>sv_recv := f\<rparr>) fl store (serving t)"
    using g(1) serve_inv_recv [of "serving t" f g env fl store] by (simp add: f_def)
  have "\<exists>rest. ch = concat (map (\<lambda>i. fst (f i)) [0..<k]) @ rest" for k
  proof (cases "k \<le> recvs (serving t)")
    case True
    have "concat (map (\<lambda>i. fst (f i)) [0..<k]) = concat (map (\<lambda>i. fst (g i)) [0..<k])"
      using True by (intro arg_cong [of _ _ concat]) (simp add: f_def)
    moreover have "[0..<recvs (serving t)] = [0..<k] @ [k..<recvs (serving t)]"
      using True by (metis le0 le_add_diff_inverse upt_add_eq_append)
    ultimately show ?thesis using g(2) by simp
  next
    case False
    then have split: "[0..<k] = [0..<recvs (serving t)] @ [recvs (serving t)..<k]"
      by (metis le0 le_add_diff_inverse nat_le_linear upt_add_eq_append)
    have none: "concat (map (\<lambda>i. fst (f i)) [recvs (serving t)..<k]) = []" by (simp add: f_def)
    have "concat (map (\<lambda>i. fst (f i)) [0..<recvs (serving t)]) = concat (map (\<lambda>i. fst (g i)) [0..<recvs (serving t)])"
      by (intro arg_cong [of _ _ concat]) (simp add: f_def)
    then have "ch = concat (map (\<lambda>i. fst (f i)) [0..<k]) @ rest"
      unfolding split map_append concat_append none by (simp only: append_Nil2 g(2))
    then show ?thesis by (rule exI)
  qed
  then have "channel_view (env\<lparr>sv_recv := f\<rparr>) ch" by (simp add: channel_view_def)
  with inv show ?thesis by (rule that)
qed

lemma ended_no_open:
  assumes "(threads_step env fl)\<^sup>*\<^sup>* (threads_start ch limit st) t"
  shows "serve_ended t \<longrightarrow> open_pipes (serving t) = []"
  using assms
proof (induction rule: rtranclp_induct)
  case base
  then show ?case by (simp add: threads_start_def)
next
  case (step t1 t2)
  from step.hyps(2) step.IH show ?case
    by (induction rule: threads_step.induct) (auto simp: after_round_def dest: serve_round_finished)
qed

lemma threads_deliver:
  assumes inv: "par_inv fs"
    and patch: "patch_store fenc fdec remaps (foldl store_push [] (small_chan fs)) = Inr store"
    and run: "(threads_step env fl)\<^sup>*\<^sup>* (threads_start (large_chan fs) limit (serve_start store p key)) t"
    and ok: "serve_env_ok env" "registered p = [key \<mapsto> Listener]"
    and once: "distinct (map fst (open_pipes (serving t) @ closed_pipes (serving t)))"
    and np: "(n, q) \<in> set (closed_pipes (serving t))"
  shows "n \<in> set fl \<and> (\<forall>d. par_stored fs n = Some d \<longrightarrow> delivers fenc fdec remaps n d (written q))"
proof -
  from flows_view [OF flows_reach [OF run ok]] obtain f where
    "serve_inv (env\<lparr>sv_recv := f\<rparr>) fl store (serving t)" "channel_view (env\<lparr>sv_recv := f\<rparr>) (large_chan fs)" .
  from serve_inv_delivers [OF patch this(1) inv this(2) once np] show ?thesis .
qed

section \<open>The sequential run is one of them\<close>

lemma chan_size_Cons [simp]: "chan_size ((n, c) # ch) = int (length (chunk_of c)) + chan_size ch"
  by (simp add: chan_size_def)

lemma send_all_steps:
  "chan_size ch \<le> sem_count (budget t) \<Longrightarrow> todo t = actions_of ch @ [Close] \<Longrightarrow> \<not> serve_ended t \<Longrightarrow>
   \<exists>b. (threads_step env fl)\<^sup>*\<^sup>* t (t\<lparr>todo := [], transit := transit t @ ch, budget := b\<rparr>)"
proof (induction ch arbitrary: t rule: actions_of.induct)
  case 1
  then have "threads_step env fl t (t\<lparr>todo := []\<rparr>)" using threads_step.close [of t "[]"] by simp
  then show ?case by (intro exI [of _ "budget t"]) simp
next
  case (2 n b ch)
  let ?k = "length (mm_deref b)"
  let ?s = "(budget t)\<lparr>sem_count := sem_count (budget t) - int ?k\<rparr>"
  let ?t1 = "t\<lparr>todo := Send (n, Content b) # actions_of ch @ [Close], budget := ?s\<rparr>"
  let ?t2 = "?t1\<lparr>todo := actions_of ch @ [Close], transit := transit ?t1 @ [(n, Content b)]\<rparr>"
  have "int ?k \<le> sem_count (budget t)" using 2(2) chan_size_nonneg [of ch] by simp
  then have s1: "threads_step env fl t ?t1"
    using threads_step.acquire [of t ?k "Send (n, Content b) # actions_of ch @ [Close]" ?s] 2(3) by simp
  have s2: "threads_step env fl ?t1 ?t2" using threads_step.send [of ?t1 "(n, Content b)"] 2(4) by simp
  have "chan_size ch \<le> sem_count (budget ?t2)" using 2(2) by simp
  from 2(1) [OF this] 2(4) obtain b' where
    "(threads_step env fl)\<^sup>*\<^sup>* ?t2 (?t2\<lparr>todo := [], transit := transit ?t2 @ ch, budget := b'\<rparr>)" by auto
  with s1 s2 have "(threads_step env fl)\<^sup>*\<^sup>* t (?t2\<lparr>todo := [], transit := transit ?t2 @ ch, budget := b'\<rparr>)"
    by (meson converse_rtranclp_into_rtranclp)
  then show ?case by (intro exI [of _ b']) simp
next
  case (3 n ch)
  let ?t1 = "t\<lparr>todo := actions_of ch @ [Close], transit := transit t @ [(n, Fc_Eof)]\<rparr>"
  have s1: "threads_step env fl t ?t1" using threads_step.send [of t "(n, Fc_Eof)"] 3(3,4) by simp
  from 3(1) [of ?t1] 3(2,4) obtain b' where
    "(threads_step env fl)\<^sup>*\<^sup>* ?t1 (?t1\<lparr>todo := [], transit := transit ?t1 @ ch, budget := b'\<rparr>)" by auto
  with s1 have "(threads_step env fl)\<^sup>*\<^sup>* t (?t1\<lparr>todo := [], transit := transit ?t1 @ ch, budget := b'\<rparr>)"
    by (meson converse_rtranclp_into_rtranclp)
  then show ?case by (intro exI [of _ b']) simp
qed

lemma serve_round_eof:
  "reciever_eof st \<Longrightarrow> serve_round (env\<lparr>sv_recv := f\<rparr>) fl st = serve_round (env\<lparr>sv_recv := g\<rparr>) fl st"
proof -
  assume "reciever_eof st"
  then have "receive_chunks (env\<lparr>sv_recv := f\<rparr>) st = receive_chunks (env\<lparr>sv_recv := g\<rparr>) st"
    by (simp add: receive_chunks_def)
  then show ?thesis
    by (simp add: serve_round_def pump_def Let_def cong: option.case_cong prod.case_cong poll_type.case_cong)
qed

lemma rounds_of_loop:
  assumes "serve_loop env fl fuel (serving t) = Inr st'" and "todo t = []" and "\<not> serve_ended t"
    and "reciever_eof (serving t) \<or> sv_recv env (recvs (serving t)) = (transit t, True)"
  shows "\<exists>t'. (threads_step env fl)\<^sup>*\<^sup>* t t' \<and> serving t' = st' \<and> serve_ended t'"
  using assms
proof (induction fuel arbitrary: t)
  case 0
  then show ?case by simp
next
  case (Suc fuel)
  from Suc.prems(1) obtain st1 fin where r: "serve_round env fl (serving t) = Inr (st1, fin)"
    and rest: "(if fin then Inr st1 else serve_loop env fl fuel st1) = Inr st'" by auto
  have env: "env = env\<lparr>sv_recv := sv_recv env\<rparr>" by simp
  have r': "serve_round (round_env env t) fl (serving t) = Inr (st1, fin)"
  proof (cases "reciever_eof (serving t)")
    case True
    with r serve_round_eof [OF True, where env = env and f = "sv_recv env"] show ?thesis
      unfolding round_env_def by simp
  next
    case False
    with Suc.prems(4) have "sv_recv env (recvs (serving t)) = (transit t, todo t = [])"
      using Suc.prems(2) by simp
    with r serve_round_recv [of "sv_recv env" "serving t" "\<lambda>_. (transit t, todo t = [])" env]
    show ?thesis unfolding round_env_def by simp
  qed
  let ?t = "after_round t st1 fin"
  have step: "threads_step env fl t ?t" by (rule threads_step.round [OF Suc.prems(3) r'])
  show ?case
  proof (cases fin)
    case True
    with step rest show ?thesis by (intro exI [of _ ?t]) (simp add: after_round_def)
  next
    case False
    have "reciever_eof st1"
      using serve_round_recvs [OF r'] Suc.prems(2) by (auto simp: receive_chunks_def round_env_def)
    with False rest Suc.IH [of ?t] Suc.prems(2) step show ?thesis
      by (auto simp: after_round_def intro: converse_rtranclp_into_rtranclp)
  qed
qed

text \<open>The run in which everything has arrived before the first round.\<close>

lemma sequential_interleaving:
  assumes loop: "serve_loop env fl fuel (serve_start store p key) = Inr st"
    and all: "sv_recv env 0 = (ch, True)" and room: "chan_size ch \<le> limit"
  shows "\<exists>t. (threads_step env fl)\<^sup>*\<^sup>* (threads_start ch limit (serve_start store p key)) t
      \<and> serving t = st \<and> serve_ended t"
proof -
  let ?t = "threads_start ch limit (serve_start store p key)"
  obtain b where b: "(threads_step env fl)\<^sup>*\<^sup>* ?t (?t\<lparr>todo := [], transit := transit ?t @ ch, budget := b\<rparr>)"
    using send_all_steps [of ch ?t env fl] room by (auto simp: threads_start_def sem_new_def)
  let ?t1 = "?t\<lparr>todo := [], transit := transit ?t @ ch, budget := b\<rparr>"
  have "\<exists>t'. (threads_step env fl)\<^sup>*\<^sup>* ?t1 t' \<and> serving t' = st \<and> serve_ended t'"
    by (rule rounds_of_loop [of _ _ fuel]) (use loop all in \<open>simp_all add: threads_start_def serve_start_def\<close>)
  then obtain t' where t': "(threads_step env fl)\<^sup>*\<^sup>* ?t1 t'" "serving t' = st" "serve_ended t'" by blast
  from rtranclp_trans [OF b t'(1)] t'(2,3) show ?thesis by blast
qed

section \<open>Properties\<close>



abbreviation demo_fs :: par_store where
  "demo_fs \<equiv> file_sender_new rx_ref (sem_new (int (20 * MB))) (\<lambda>_ _. False) (\<lambda>_. [int (20 * MB)]) (\<lambda>_. [])"

abbreviation demo_extracted :: "serializer \<Rightarrow> string list \<Rightarrow> (par_store overlay, par_file ov_file) deser \<Rightarrow> bool" where
  "demo_extracted s names d \<equiv> extract_image demo_denv (ov_ops par_ops) 100
      (fold (\<lambda>(n, p) o'. add_overlay o' n p) [] (overlay_new demo_fs (\<lambda>_ _. 3)))
      (pipe_of (small_shard s) # map pipe_of (shards s)) = Inr (names, d)"

lemma demo_rx: "regex_doc (regexes demo_cenv)"
  by (simp add: demo_cenv_def regex_doc_rx_ref)

lemmas demo_image = demo_shards_ok(3) demo_run_fits demo_image_fits [folded demo_shards_ok(4)]
  demo_wf_run demo_names_ok demo_codec demo_poll_ok demo_json regex_doc_rx_ref demo_rx

lemma demo_threads:
  assumes s: "capture_events demo_cenv demo_shards 64 demo_run = Inr s"
  shows "\<exists>d p key t. demo_extracted s (finished_names demo_run) d
    \<and> registered p = [key \<mapsto> Listener]
    \<and> (threads_step (demo_senv (large_chan (underlying (img_store d)))) (finished_names demo_run))\<^sup>*\<^sup>*
        (threads_start (large_chan (underlying (img_store d))) (chan_size (large_chan (underlying (img_store d))))
          (serve_start (foldl store_push [] (small_chan (underlying (img_store d)))) p key)) t
    \<and> serve_ended t \<and> map fst (closed_pipes (serving t)) = [''core-1.img'', ''pages-1.img'']"
proof -
  from demo_served [OF s] obtain fs st where
    run: "serve_cmd (\<lambda>_ :: unit file_entry. []) (\<lambda>_. None) demo_denv demo_serve_params
      (demo_senv (large_chan fs)) 100 10 (pipe_of (small_shard s) # map pipe_of (shards s)) [] [] (Some 20) = Inr (fs, st)"
    and names: "map fst (closed_pipes st) = [''core-1.img'', ''pages-1.img'']" by (elim exE conjE)
  have p: "sv_rx (demo_senv ch) = rx_ref" "sp_gone demo_serve_params = (\<lambda>_ _. False)"
    "sp_released demo_serve_params = (\<lambda>_. [int (20 * MB)])" "sp_wakeups demo_serve_params = (\<lambda>_. [])"
    "sp_splice demo_serve_params = (\<lambda>_ _. 3)" for ch
    by (simp_all add: demo_senv_def demo_serve_params_def)
  from run demo_memory(1) obtain names d where
    ex: "demo_extracted s names d"
    and fs: "fs = close_senders (underlying (img_store d))"
    and sv: "serve_img (\<lambda>_ :: unit file_entry. []) (\<lambda>_. None) (demo_senv (large_chan fs)) 10 (small_chan fs) names [] = Inr st"
    by (auto simp: serve_cmd_def Let_def p)
  have chans: "large_chan fs = large_chan (underlying (img_store d))" "small_chan fs = small_chan (underlying (img_store d))"
    by (simp_all add: fs close_senders_def)
  from extract_acts [OF s demo_image _ _ refl ex] have fn: "names = finished_names demo_run" by simp
  from sv obtain fd p key where
    add: "poller_add (sv_poll (demo_senv (large_chan fs))) poller_new fd Listener = Inr (p, key)"
    and loop: "serve_loop (demo_senv (large_chan fs)) names 10 (serve_start (foldl store_push [] (small_chan fs)) p key) = Inr st"
    by (auto simp: serve_img_def patch_store_def)
  have reg: "registered p = [key \<mapsto> Listener]"
    using poller_add_Inr [OF add] demo_slab_ok by (auto simp: demo_senv_def fun_eq_iff)
  have "sv_recv (demo_senv (large_chan fs)) 0 = (large_chan fs, True)" by (simp add: demo_senv_def)
  from sequential_interleaving [OF loop this order_refl] obtain t where
    t: "(threads_step (demo_senv (large_chan fs)) names)\<^sup>*\<^sup>* (threads_start (large_chan fs) (chan_size (large_chan fs))
       (serve_start (foldl store_push [] (small_chan fs)) p key)) t" "serving t = st" "serve_ended t" by blast
  have "map fst (closed_pipes (serving t)) = [''core-1.img'', ''pages-1.img'']" using names t(2) by simp
  with ex reg t(1,3) show ?thesis unfolding chans fn by (intro exI conjI)
qed



end
