(* ===== verification/Threads_Wait.thy ===== *)
theory Threads_Wait
  imports Threads_Image
begin

text \<open>
  How the two threads can wait for each other: the serving thread for a client that asks only for
  files that have not arrived, the deserializer for memory that such a client never frees.
\<close>

section \<open>Waiting for each other\<close>

definition only_asks :: "(string \<Rightarrow> byte list) \<Rightarrow> string set \<Rightarrow> sink connection \<Rightarrow> bool" where
  "only_asks renc W c \<longleftrightarrow>
     (\<exists>ns. set ns \<subseteq> W \<and> sock_in c = \<lparr>avail = concat (map (frame renc) ns), broken = False\<rparr>)"

definition starved :: "(string \<Rightarrow> byte list) \<Rightarrow> string set \<Rightarrow> serve_state \<Rightarrow> bool" where
  "starved renc W st \<longleftrightarrow>
     (\<forall>n \<in> W. map_of (sv_store st) n = None)
     \<and> (\<forall>x \<in> set (open_pipes st). map_of (sv_store st) (fst x) = None)
     \<and> (\<forall>k c. registered (sv_poller st) k = Some (Client c) \<longrightarrow> only_asks renc W c)"

abbreviation same_files :: "serve_state \<Rightarrow> serve_state \<Rightarrow> bool" where
  "same_files st st' \<equiv> same_store st st' \<and> open_pipes st' = open_pipes st \<and> closed_pipes st' = closed_pipes st"

lemma read_request_cases:
  assumes "msg_codec renc (req_dec ce) rok" and "\<forall>n \<in> W. rok n" and "only_asks renc W c"
    and "read_next_file_request ce c = Inr (req, c')"
  shows "only_asks renc W c' \<and> (\<forall>n. req = Some n \<longrightarrow> n \<in> W)"
proof -
  from assms(3) obtain ns where ns: "set ns \<subseteq> W"
    "sock_in c = \<lparr>avail = concat (map (frame renc) ns), broken = False\<rparr>" by (auto simp: only_asks_def)
  show ?thesis
  proof (cases ns)
    case Nil
    with ns assms(4) have "req = None" "c' = c"
      by (auto simp: read_next_file_request_def pb_read_next_def read_bytes_next_def take_read_to_end_def)
    with assms(3) show ?thesis by simp
  next
    case (Cons n rest)
    with ns have "n \<in> W" "set rest \<subseteq> W" by auto
    moreover from Cons ns assms(2) read_request_asks [OF assms(1), of n c "concat (map (frame renc) rest)"] assms(4)
    have "req = Some n" "sock_in c' = \<lparr>avail = concat (map (frame renc) rest), broken = False\<rparr>" by auto
    ultimately show ?thesis by (auto simp: only_asks_def)
  qed
qed

lemma reply_in: "send_file_reply ce c b s = Inr c' \<Longrightarrow> sock_in c' = sock_in c"
  by (auto simp: send_file_reply_def Let_def)

lemma request_starved:
  assumes "serve_file_request env fl key c n st = Inr st'" and "map_of (sv_store st) n = None"
  shows "same_files st st' \<and> (\<exists>c'. st' = set_client key c' st \<and> sock_in c' = sock_in c)"
  using assms
  by (auto simp: serve_file_request_def set_client_def split: if_splits dest: reply_in)

lemma registered_set_client:
  "registered (sv_poller (set_client key c st)) k = Some (Client d) \<Longrightarrow>
   d = c \<or> registered (sv_poller st) k = Some (Client d)"
  by (auto simp: set_client_def poller_set_registered split: if_splits)

lemma client_starved:
  assumes r: "serve_client env fl key c st = Inr (st', fin)" and s: "starved renc W st" "only_asks renc W c"
    and rc: "msg_codec renc (req_dec (sv_codec env)) rok" "\<forall>n \<in> W. rok n \<and> plain_request n"
  shows "starved renc W st' \<and> same_files st st'"
proof -
  from r obtain req c1 where q: "read_next_file_request (sv_codec env) c = Inr (req, c1)"
    by (auto simp: serve_client_def)
  from rc(2) have "\<forall>n \<in> W. rok n" by blast
  from read_request_cases [OF rc(1) this s(2) q]
  have c1: "only_asks renc W c1" and req: "\<And>n. req = Some n \<Longrightarrow> n \<in> W" by auto
  have set: "starved renc W (set_client key d u)" if "starved renc W u" "only_asks renc W d" for d u
  proof -
    have "open_pipes (set_client key d u) = open_pipes u" by (simp add: set_client_def)
    with that show ?thesis by (auto simp: starved_def dest: registered_set_client)
  qed
  have parts: "open_pipes (set_client key d st) = open_pipes st" "closed_pipes (set_client key d st) = closed_pipes st" for d
    by (simp_all add: set_client_def)
  show ?thesis
  proof (cases req)
    case None
    with r q set [OF s(1) c1] parts show ?thesis by (auto simp: serve_client_def)
  next
    case (Some n)
    with req rc(2) have n: "n \<in> W" "plain_request n" by auto
    from r q Some n(2) have "serve_file_request env fl key c1 n (set_client key c1 st) = Inr st'"
      by (simp add: serve_client_def Let_def plain_request_def split: if_split_asm)
    from request_starved [OF this] s(1) n(1) obtain d where
      d: "same_files (set_client key c1 st) st'" "st' = set_client key d (set_client key c1 st)" "sock_in d = sock_in c1"
      by (auto simp: starved_def)
    have "only_asks renc W d" using c1 d(3) by (simp add: only_asks_def)
    from set [OF set [OF s(1) c1] this] d(1,2) parts show ?thesis by simp
  qed
qed

lemma pump_starved:
  assumes "\<forall>x \<in> set (open_pipes st). map_of (sv_store st) (fst x) = None"
  shows "pump env st = Inr st"
proof -
  have "send_open_pipes env ps store rel i = Inr (ps, [], store, rel, i)"
    if "\<forall>x \<in> set ps. map_of store (fst x) = None" for ps store rel i
    using that by (induction ps) auto
  from this [OF assms] show ?thesis by (simp add: pump_def)
qed

lemma round_starved:
  assumes r: "serve_round env fl st = Inr (st', fin)" and s: "starved renc W st"
    and rc: "msg_codec renc (req_dec (sv_codec env)) rok" "\<forall>n \<in> W. rok n \<and> plain_request n"
    and acc: "\<forall>i fd c. sv_accept env i = Inr (fd, c) \<longrightarrow> only_asks renc W c" "slab_ok (sv_poll env)"
    and none: "fst (sv_recv env (recvs st)) = []"
  shows "starved renc W st' \<and> sv_store st' = sv_store st \<and> sv_released st' = sv_released st
    \<and> open_pipes st' = open_pipes st \<and> closed_pipes st' = closed_pipes st"
proof -
  let ?st = "receive_chunks env st"
  have same: "sv_store ?st = sv_store st" "sv_released ?st = sv_released st" "open_pipes ?st = open_pipes st"
    "closed_pipes ?st = closed_pipes st" "sv_poller ?st = sv_poller st"
    using none by (auto simp: receive_chunks_def split: prod.split)
  have p1: "pump env ?st = Inr ?st" using s by (intro pump_starved) (simp add: same starved_def)
  with r obtain obj p where pl: "poller_poll (sv_poll env) (sv_poller ?st) 16 = Inr (obj, p)"
    by (auto simp: serve_round_def)
  have reg: "registered p = registered (sv_poller st)"
    using poller_poll_None [of _ _ _ p] poller_poll_Inr [of _ _ _ _ _ p] pl
    by (cases obj) (auto simp: registered_def fun_eq_iff same)
  let ?st2 = "?st\<lparr>sv_poller := p\<rparr>"
  have s2: "starved renc W ?st2" using s by (simp add: starved_def same reg)
  show ?thesis
  proof (cases obj)
    case None
    with r p1 pl s2 same show ?thesis by (auto simp: serve_round_def)
  next
    case (Some ko)
    obtain key o' where ko: "ko = (key, o')" by force
    show ?thesis
    proof (cases o')
      case Listener
      with r p1 pl Some ko obtain fd c p' k where a: "sv_accept env (accepts ?st) = Inr (fd, c)"
        "poller_add (sv_poll env) p fd (Client c) = Inr (p', k)"
        and st': "st' = ?st\<lparr>sv_poller := p', accepts := Suc (accepts ?st)\<rparr>"
        by (auto simp: serve_round_def Let_def)
      have "registered p' = (registered p)(k \<mapsto> Client c)" "only_asks renc W c"
        using acc(1) a(1) poller_add_Inr [OF a(2) acc(2)] by auto
      with s2 same show ?thesis by (auto simp: st' starved_def split: if_splits)
    next
      case (Client c)
      have "registered (sv_poller st) key = Some (Client c)"
        using poller_poll_Inr [of _ _ _ key "Client c" p] pl Some ko Client same by simp
      then have "only_asks renc W c" using s by (auto simp: starved_def)
      from client_starved [OF _ s2 this rc] r p1 pl Some ko Client same show ?thesis
        by (auto simp: serve_round_def Let_def)
    qed
  qed
qed

definition waiting :: "(string \<Rightarrow> byte list) \<Rightarrow> string set \<Rightarrow> threads \<Rightarrow> bool" where
  "waiting renc W t \<longleftrightarrow>
     (\<exists>k acts. todo t = Acquire k # acts \<and> sem_count (budget t) < int k)
     \<and> transit t = [] \<and> starved renc W (serving t)"

lemma waiting_step:
  assumes st: "threads_step env fl t t'" and w: "waiting renc W t"
    and rc: "msg_codec renc (req_dec (sv_codec env)) rok" "\<forall>n \<in> W. rok n \<and> plain_request n"
    and acc: "\<forall>i fd c. sv_accept env i = Inr (fd, c) \<longrightarrow> only_asks renc W c" "slab_ok (sv_poll env)"
  shows "waiting renc W t' \<and> todo t' = todo t \<and> budget t' = budget t
    \<and> sv_store (serving t') = sv_store (serving t) \<and> open_pipes (serving t') = open_pipes (serving t)
    \<and> closed_pipes (serving t') = closed_pipes (serving t)"
  using st
proof (cases rule: threads_step.cases)
  case (round st fin)
  have "starved renc W st \<and> sv_store st = sv_store (serving t) \<and> sv_released st = sv_released (serving t)
    \<and> open_pipes st = open_pipes (serving t) \<and> closed_pipes st = closed_pipes (serving t)"
    by (rule round_starved [OF round(3) _ _ rc(2)])
       (use w acc in \<open>simp_all add: waiting_def round_env_def rc(1)\<close>)
  with w round(1) show ?thesis by (auto simp: waiting_def after_round_def)
qed (use w in \<open>auto simp: waiting_def\<close>)

section \<open>Properties\<close>

text \<open>C11: a client that asks too early waits forever. When the memory limit is used up by data that the
  client has not asked for yet and the deserializer waits to read on, and the clients ask, however
  often, only for files \<open>W\<close> of which nothing has arrived, then no step of any thread ever changes
  that: the deserializer never reads another byte, and no pipe ever gets one.\<close>

theorem early_request_deadlocks:
  assumes "waiting renc W t"
    and "msg_codec renc (req_dec (sv_codec env)) rok" and "\<forall>n \<in> W. rok n \<and> plain_request n"
    and "\<forall>i fd c. sv_accept env i = Inr (fd, c) \<longrightarrow> only_asks renc W c" and "slab_ok (sv_poll env)"
    and "(threads_step env fl)\<^sup>*\<^sup>* t t'"
  shows "todo t' = todo t \<and> open_pipes (serving t') = open_pipes (serving t)
    \<and> closed_pipes (serving t') = closed_pipes (serving t)"
proof -
  from assms(6) have "waiting renc W t' \<and> todo t' = todo t \<and> open_pipes (serving t') = open_pipes (serving t)
    \<and> closed_pipes (serving t') = closed_pipes (serving t)"
  proof (induction rule: rtranclp_induct)
    case base
    then show ?case using assms(1) by simp
  next
    case (step t1 t2)
    from waiting_step [OF step.hyps(2) _ assms(2-5)] step.IH show ?case by auto
  qed
  then show ?thesis by simp
qed

text \<open>The second chunk of one file does not fit; the client asks for the other, three times.\<close>

definition early_client :: "sink connection" where
  "early_client = demo_client\<lparr>sock_in := \<lparr>avail = concat (map (frame demo_req)
     [''pages-2.img'', ''pages-2.img'', ''pages-2.img'']), broken = False\<rparr>\<rparr>"

definition early_env :: serve_env where
  "early_env = (demo_senv [])\<lparr>sv_accept := \<lambda>_. Inl (Err Io_Error)\<rparr>"

definition early_threads :: threads where
  "early_threads = \<lparr>todo = Acquire 6 # Send (''pages-1.img'', demo_chunk) # Send (''pages-1.img'', Fc_Eof) #
        actions_of [(''pages-2.img'', demo_chunk), (''pages-2.img'', Fc_Eof)] @ [Close],
      budget = \<lparr>sem_count = 4, start_val = 10\<rparr>, transit = [],
      serving = serve_start [(''pages-1.img'', [demo_chunk])]
        \<lparr>slab = [(2, 8, Client early_client)], pending_events = [], ctls = 1, waits = 1\<rparr> 1,
      serve_ended = False\<rparr>"

lemma early_round:
  "\<exists>t'. threads_step early_env [''pages-1.img'', ''pages-2.img''] early_threads t' \<and> t' \<noteq> early_threads"
proof -
  let ?fl = "[''pages-1.img'', ''pages-2.img'']"
  let ?c1 = "early_client\<lparr>sock_in := \<lparr>avail = frame demo_req ''pages-2.img'' @ frame demo_req ''pages-2.img'', broken = False\<rparr>\<rparr>"
  have rd: "read_next_file_request demo_cenc early_client = Inr (Some ''pages-2.img'', ?c1)"
    using read_request_asks [OF demo_req_codec, of "''pages-2.img''" early_client]
    by (simp add: early_client_def)
  obtain out where "send_file_reply demo_cenc ?c1 True (Some NotReady) = Inr (?c1\<lparr>sock_out := out\<rparr>)"
    using send_file_reply_total [OF demo_kernel, of ?c1 "[]" True "Some NotReady"]
    by (auto simp: early_client_def demo_client_def demo_pipe_def demo_senv_def)
  with rd have "\<exists>st. serve_round (round_env early_env early_threads) ?fl (serving early_threads) = Inr (st, False)
      \<and> waits (sv_poller st) = 2"
    by (simp add: serve_round_def receive_chunks_def round_env_def early_threads_def early_env_def demo_senv_def
        serve_start_def pump_def poller_poll_def demo_penv_def Let_def serve_client_def serve_file_request_def
        set_client_def poller_set_def)
  then obtain st where st: "serve_round (round_env early_env early_threads) ?fl (serving early_threads) = Inr (st, False)"
    "waits (sv_poller st) = 2" by blast
  have "threads_step early_env ?fl early_threads (after_round early_threads st False)"
    by (rule threads_step.round [OF _ st(1)]) (simp add: early_threads_def)
  moreover have "waits (sv_poller (serving (after_round early_threads st False))) \<noteq> waits (sv_poller (serving early_threads))"
    using st(2) by (simp add: after_round_def early_threads_def serve_start_def)
  ultimately show ?thesis by metis
qed

theorem early_request_deadlocks_witness:
  "\<exists>t'. (threads_step early_env [''pages-1.img'', ''pages-2.img''])\<^sup>*\<^sup>* early_threads t' \<and> t' \<noteq> early_threads
     \<and> todo t' = todo early_threads \<and> open_pipes (serving t') = [] \<and> closed_pipes (serving t') = []"
proof -
  obtain t' where t': "threads_step early_env [''pages-1.img'', ''pages-2.img''] early_threads t'" "t' \<noteq> early_threads"
    using early_round by blast
  have w: "waiting demo_req {''pages-2.img''} early_threads"
    by (auto simp: waiting_def early_threads_def starved_def serve_start_def registered_def only_asks_def
        early_client_def intro!: exI [of _ "[''pages-2.img'', ''pages-2.img'', ''pages-2.img'']"] split: if_splits)
  have "msg_codec demo_req (req_dec (sv_codec early_env)) (\<lambda>n. length n < 100)"
    using demo_req_codec by (simp add: early_env_def demo_senv_def)
  moreover have "\<forall>i fd c. sv_accept early_env i = Inr (fd, c) \<longrightarrow> only_asks demo_req {''pages-2.img''} c"
    "slab_ok (sv_poll early_env)" "\<forall>n \<in> {''pages-2.img''}. length n < 100 \<and> plain_request n"
    using demo_slab_ok by (simp_all add: early_env_def demo_senv_def plain_request_def)
  ultimately have "todo t' = todo early_threads \<and> open_pipes (serving t') = [] \<and> closed_pipes (serving t') = []"
    using early_request_deadlocks [OF w _ _ _ _ r_into_rtranclp [of "threads_step early_env [''pages-1.img'', ''pages-2.img'']", OF t'(1)]]
    by (simp add: early_threads_def serve_start_def)
  with t' show ?thesis by (intro exI [of _ t'] conjI) auto
qed

end
