(* ===== verification/Threads_Blocked.thy ===== *)
theory Threads_Blocked
  imports Threads_Wait
begin

text \<open>
  The other side of \<open>early_request_deadlocks\<close>: what the deserializer of the serve command can wait
  for. A round of \<open>serve_img\<close> leaves no chunk behind that belongs to an open pipe, so the memory that is
  missing is in files that nobody is receiving, and asking for one of them gives it back.
\<close>

section \<open>A round sends everything that was asked for\<close>

definition all_asked_sent :: "serve_state \<Rightarrow> bool" where
  "all_asked_sent st \<longleftrightarrow> (\<forall>n \<in> fst ` set (open_pipes st). map_of (sv_store st) n = None)"

lemma send_open_pipes_takes:
  "send_open_pipes env ps store rel i = Inr (still, done, store', rel', i') \<Longrightarrow>
   (\<forall>n \<in> fst ` set still. map_of store' n = None)
   \<and> (\<forall>n. map_of store n = None \<longrightarrow> map_of store' n = None)"
proof (induction ps arbitrary: store rel i still "done" store' rel' i')
  case (Cons x ps)
  obtain n p where x: "x = (n, p)" by force
  show ?case
  proof (cases "map_of store n")
    case None
    with Cons.prems x obtain still1 where r: "send_open_pipes env ps store rel i = Inr (still1, done, store', rel', i')"
      and "still = (n, p) # still1" by auto
    with Cons.IH [OF r] None show ?thesis by simp
  next
    case (Some cs)
    with Cons.prems x obtain all p1 rel1 i1 still1 done1 where
      r: "send_open_pipes env ps (AList.delete n store) rel1 i1 = Inr (still1, done1, store', rel', i')"
      and still: "still = (if all then still1 else (n, p1) # still1)"
      by (auto split: if_splits) metis+
    from Cons.IH [OF r] have ih: "\<forall>m \<in> fst ` set still1. map_of store' m = None"
      "\<forall>m. map_of (AList.delete n store) m = None \<longrightarrow> map_of store' m = None" by auto
    from ih(2) have "map_of store' n = None" "\<forall>m. map_of store m = None \<longrightarrow> map_of store' m = None"
      by (simp_all add: delete_conv)
    with ih(1) still show ?thesis by auto
  qed
qed simp

lemma pump_takes: "pump env st = Inr st' \<Longrightarrow> all_asked_sent st'"
proof -
  assume "pump env st = Inr st'"
  then obtain still dn store rel i where
    s: "send_open_pipes env (open_pipes st) (sv_store st) (sv_released st) (sends st) = Inr (still, dn, store, rel, i)"
    and st': "open_pipes st' = still" "sv_store st' = store" by (auto simp: pump_def)
  from send_open_pipes_takes [OF s] st' show ?thesis by (simp add: all_asked_sent_def)
qed

lemma all_asked_cong:
  "open_pipes st' = open_pipes st \<Longrightarrow> sv_store st' = sv_store st \<Longrightarrow> all_asked_sent st' = all_asked_sent st"
  by (simp add: all_asked_sent_def)

lemma set_client_open [simp]: "open_pipes (set_client key c st) = open_pipes st"
  by (simp add: set_client_def)

lemma file_request_takes:
  assumes r: "serve_file_request env fl key c n st = Inr st'" and a: "all_asked_sent st"
  shows "all_asked_sent st'"
proof (cases "n \<in> set fl \<and> map_of (sv_store st) n \<noteq> None")
  case False
  with r have "open_pipes st' = open_pipes st \<and> sv_store st' = sv_store st"
    by (auto simp: serve_file_request_def split: option.splits if_splits)
  with a show ?thesis by (simp cong: all_asked_cong)
next
  case True
  then obtain cs where cs: "map_of (sv_store st) n = Some cs" by auto
  with r True obtain p' where "sv_store st' = AList.delete n (sv_store st)"
    "open_pipes st' = open_pipes st \<or> open_pipes st' = open_pipes st @ [(n, p')]"
    by (auto simp: serve_file_request_def Let_def set_client_def split: if_splits)
  with a show ?thesis by (auto simp: all_asked_sent_def delete_conv)
qed

lemma serve_round_takes:
  assumes r: "serve_round env fl st = Inr (st', fin)"
  shows "all_asked_sent st'"
proof -
  from r obtain st1 obj p where p1: "pump env (receive_chunks env st) = Inr st1"
    and pl: "poller_poll (sv_poll env) (sv_poller st1) 16 = Inr (obj, p)"
    by (auto simp: serve_round_def)
  let ?st2 = "st1\<lparr>sv_poller := p\<rparr>"
  have a: "all_asked_sent ?st2" using pump_takes [OF p1] by (simp cong: all_asked_cong)
  show ?thesis
  proof (cases obj)
    case None
    with r p1 pl a show ?thesis by (auto simp: serve_round_def)
  next
    case (Some ko)
    obtain key o' where ko: "ko = (key, o')" by force
    show ?thesis
    proof (cases o')
      case Listener
      with r p1 pl Some ko have "open_pipes st' = open_pipes ?st2 \<and> sv_store st' = sv_store ?st2"
        by (auto simp: serve_round_def Let_def)
      with a show ?thesis by (simp cong: all_asked_cong)
    next
      case (Client c)
      with r p1 pl Some ko have c: "serve_client env fl key c ?st2 = Inr (st', fin)"
        by (auto simp: serve_round_def Let_def)
      then obtain req c1 where q: "read_next_file_request (sv_codec env) c = Inr (req, c1)"
        by (auto simp: serve_client_def)
      have a1: "all_asked_sent (set_client key d ?st2)" for d using a by (simp add: all_asked_sent_def)
      show ?thesis
      proof (cases req)
        case None
        with c q a1 show ?thesis by (auto simp: serve_client_def)
      next
        case (Some n)
        consider "n = ''stop-listener''" | "n \<noteq> ''stop-listener''" "CHR ''*'' \<in> set n \<or> n = []"
          | "n \<noteq> ''stop-listener''" "\<not> (CHR ''*'' \<in> set n \<or> n = [])" by blast
        then show ?thesis
        proof cases
          case 1
          with c q Some have "open_pipes st' = open_pipes ?st2 \<and> sv_store st' = sv_store ?st2"
            by (auto simp: serve_client_def Let_def)
          with a show ?thesis by (simp cong: all_asked_cong)
        next
          case 2
          with c q Some have "open_pipes st' = open_pipes ?st2 \<and> sv_store st' = sv_store ?st2"
            by (auto simp: serve_client_def Let_def)
          with a show ?thesis by (simp cong: all_asked_cong)
        next
          case 3
          with c q Some have "serve_file_request env fl key c1 n (set_client key c1 ?st2) = Inr st'"
            by (simp add: serve_client_def Let_def split: if_split_asm)
          from file_request_takes [OF this a1] show ?thesis .
        qed
      qed
    qed
  qed
qed

lemma threads_takes:
  assumes "(threads_step env fl)\<^sup>*\<^sup>* t0 t" and "all_asked_sent (serving t0)"
  shows "all_asked_sent (serving t)"
  using assms(1)
proof (induction rule: rtranclp_induct)
  case base
  then show ?case using assms(2) .
next
  case (step t1 t2)
  from step.hyps(2) step.IH show ?case
  proof (cases rule: threads_step.cases)
    case (round st fin)
    from serve_round_takes [OF round(3)] round(1) show ?thesis by (simp add: after_round_def)
  qed simp_all
qed

section \<open>Where the missing memory is\<close>

lemma held_nonempty:
  assumes "distinct (map fst store)" and "0 < held store"
  shows "\<exists>n cs. map_of store n = Some cs \<and> \<not> small_spec n \<and> bytes_of cs \<noteq> []"
proof (rule ccontr)
  assume no: "\<nexists>n cs. map_of store n = Some cs \<and> \<not> small_spec n \<and> bytes_of cs \<noteq> []"
  have "(\<lambda>(n, cs). if small_spec n then 0 else int (length (bytes_of cs))) x = 0" if "x \<in> set store" for x
  proof -
    obtain n cs where x: "x = (n, cs)" by force
    with that assms(1) have "map_of store n = Some cs" by simp
    with no x show ?thesis by auto
  qed
  then have "map (\<lambda>(n, cs). if small_spec n then 0 else int (length (bytes_of cs))) store = map (\<lambda>_. 0) store"
    by (intro map_cong) auto
  then have "held store = 0" unfolding held_def by (simp only: sum_list_triv mult_zero_right)
  with assms(2) show False by simp
qed

lemma request_frees:
  assumes r: "serve_file_request env fl key c n st = Inr st'" and n: "n \<in> set fl" "map_of (sv_store st) n = Some cs"
    and rx: "regex_doc (sv_rx env)" and t: "tidy (sv_store st)" "\<not> small_spec n"
  shows "\<exists>rs. sv_released st' = sv_released st @ rs \<and> sum_list rs = int (length (bytes_of cs))"
proof -
  from r n obtain c1 p c2 all p' rel i where
    s: "send_over_chunks env n cs p (sv_released st) (sends st) = Inr (all, p', rel, i)"
    and st': "sv_released st' = rel"
    by (auto simp: serve_file_request_def Let_def split: if_splits)
  have "eof_last cs" using t n(2) by (auto simp: tidy_def chunks_of_def)
  with send_over_chunks_released [OF s rx] t(2) st' show ?thesis by (auto simp: eof_last_bytes)
qed

text \<open>C10: a wait for memory has a way out. Whenever the deserializer waits for a chunk that is within
  the memory limit and the serving thread has taken everything off the channel, there is a file with
  data in memory whose pipe is not open, and any request for it that is answered without an error
  releases all of that data. So the two threads are stuck only as long as the clients ask for
  nothing that has arrived.\<close>

theorem waits_only_for_unasked:
  assumes run: "(threads_step env fl)\<^sup>*\<^sup>* (threads_start ch limit (serve_start store p key)) t"
    and ch: "large_messages ch" and st: "small_store store" "0 \<le> limit"
    and rx: "regex_doc (sv_rx env)" and on: "\<not> serve_ended t"
    and wait: "todo t = Acquire k # rest" "sem_count (budget t) < int k" "int k \<le> limit" "transit t = []"
  shows "\<exists>n cs. map_of (sv_store (serving t)) n = Some cs \<and> bytes_of cs \<noteq> []
    \<and> n \<notin> fst ` set (open_pipes (serving t))
    \<and> (\<forall>key c st'. n \<in> set fl \<longrightarrow> serve_file_request env fl key c n (serving t) = Inr st' \<longrightarrow>
         (\<exists>rs. sv_released st' = sv_released (serving t) @ rs \<and> sum_list rs = int (length (bytes_of cs))))"
proof -
  have s0: "sv_store (serve_start store p key) = store" "open_pipes (serve_start store p key) = []"
    by (simp_all add: serve_start_def)
  have inv: "threads_inv limit t"
    using threads_inv_reach [OF run threads_inv_start [OF ch] rx] st on by (simp add: s0)
  have tidy: "tidy (sv_store (serving t))"
    using inv by (auto simp: threads_inv_def intro: in_order_tidy)
  have "all_asked_sent (serving t)"
    by (rule threads_takes [OF run]) (simp add: all_asked_sent_def threads_start_def s0)
  moreover have "0 < held (sv_store (serving t))"
    using inv wait by (auto simp: threads_inv_def accounted_def chan_size_def)
  then obtain n cs where n: "map_of (sv_store (serving t)) n = Some cs" "\<not> small_spec n" "bytes_of cs \<noteq> []"
    using held_nonempty [of "sv_store (serving t)"] tidy unfolding tidy_def by blast
  ultimately have "n \<notin> fst ` set (open_pipes (serving t))" by (auto simp: all_asked_sent_def)
  with n request_frees [OF _ _ n(1) rx tidy n(2)] show ?thesis by blast
qed


theorem waits_only_for_unasked_witness:
  "\<exists>t. (threads_step (demo_senv []) [''pages-1.img''])\<^sup>*\<^sup>* (threads_start demo_ch 10 (serve_start [] poller_new 0)) t
     \<and> sem_acquire (budget t) 6 [] = Inl Diverge
     \<and> (\<exists>n cs. map_of (sv_store (serving t)) n = Some cs \<and> bytes_of cs \<noteq> []
          \<and> n \<notin> fst ` set (open_pipes (serving t)))"
proof -
  let ?rest = "[Send (''pages-1.img'', demo_chunk), Send (''pages-1.img'', Fc_Eof), Close]"
  let ?t0 = "threads_start demo_ch 10 (serve_start [] poller_new 0)"
  let ?t1 = "?t0\<lparr>todo := Send (''pages-1.img'', demo_chunk) # Acquire 6 # ?rest, budget := \<lparr>sem_count = 4, start_val = 10\<rparr>\<rparr>"
  let ?t2 = "?t1\<lparr>todo := Acquire 6 # ?rest, transit := [(''pages-1.img'', demo_chunk)]\<rparr>"
  let ?e = "demo_senv []" and ?fl = "[''pages-1.img'']"
  have "todo ?t0 = Acquire 6 # Send (''pages-1.img'', demo_chunk) # Acquire 6 # ?rest"
    by (simp add: threads_start_def demo_ch_def demo_chunk_def mm_deref_def)
  then have s1: "threads_step ?e ?fl ?t0 ?t1"
    by (rule threads_step.acquire) (simp add: threads_start_def sem_new_def)
  have s2: "threads_step ?e ?fl ?t1 ?t2"
    using threads_step.send [of ?t1 "(''pages-1.img'', demo_chunk)"] by (simp add: threads_start_def)
  obtain st where st: "serve_round (round_env ?e ?t2) ?fl (serving ?t2) = Inr (st, False)"
    "sv_released st = []"
    by (auto simp: serve_round_def receive_chunks_def round_env_def threads_start_def
        serve_start_def pump_def poller_poll_def poller_new_def Let_def)
  let ?t3 = "after_round ?t2 st False"
  have s3: "threads_step ?e ?fl ?t2 ?t3"
    by (rule threads_step.round [OF _ st(1)]) (simp add: threads_start_def)
  have "(threads_step ?e ?fl)\<^sup>*\<^sup>* ?t0 ?t2"
    using s1 s2 by (rule converse_rtranclp_into_rtranclp [OF _ r_into_rtranclp])
  then have run: "(threads_step ?e ?fl)\<^sup>*\<^sup>* ?t0 ?t3" using s3 by (rule rtranclp.rtrancl_into_rtrancl)
  have t3: "todo ?t3 = Acquire 6 # ?rest" "budget ?t3 = \<lparr>sem_count = 4, start_val = 10\<rparr>" "transit ?t3 = []"
    "\<not> serve_ended ?t3"
    using st(2) by (simp_all add: after_round_def threads_start_def serve_start_def)
  have rx: "regex_doc (sv_rx ?e)" by (simp add: demo_senv_def regex_doc_rx_ref)
  have "\<exists>n cs. map_of (sv_store (serving ?t3)) n = Some cs \<and> bytes_of cs \<noteq> []
      \<and> n \<notin> fst ` set (open_pipes (serving ?t3))"
    using waits_only_for_unasked [OF run demo_messages _ _ rx t3(4,1) _ _ t3(3)] t3(2)
    by (simp add: small_store_def) blast
  with run t3(2) show ?thesis by (intro exI [of _ ?t3]) simp
qed

end
