(* ===== verification/Threads_Fail.thy ===== *)
theory Threads_Fail
  imports Threads_Blocked
begin

text \<open>
  Rounds that fail. When a round of \<open>serve_img\<close> returns an error (a client has closed its pipe, asks
  for a file twice, passes no descriptor) the serving thread ends with it, and so do the receivers of the
  channels; the other thread learns of it only when it inserts a file. What the failed round has sent
  until then has been given back to the semaphore: \<open>round_releases\<close> follows the calls of a round up
  to the one that fails.
\<close>

section \<open>What a round releases\<close>

fun chunk_releases :: "serve_env \<Rightarrow> string \<Rightarrow> file_content list \<Rightarrow> sink \<Rightarrow> nat \<Rightarrow> int list" where
  "chunk_releases env filename [] pipe i = []"
| "chunk_releases env filename (Fc_Eof # chunks) pipe i = []"
| "chunk_releases env filename (Content chunk # chunks) pipe i =
     (case vmsplice_all (sv_splice env i) pipe (mm_deref chunk) of
        Inl _ \<Rightarrow> []
      | Inr pipe' \<Rightarrow>
          (case is_small_file (sv_rx env) filename of
             Inl _ \<Rightarrow> []
           | Inr small \<Rightarrow> (if small then [] else [int (length (mm_deref chunk))])
                             @ chunk_releases env filename chunks pipe' (Suc i)))"

fun open_pipe_releases :: "serve_env \<Rightarrow> (string \<times> sink) list \<Rightarrow> chunk_store \<Rightarrow> nat \<Rightarrow> int list" where
  "open_pipe_releases env [] store i = []"
| "open_pipe_releases env ((filename, pipe) # ps) store i =
     (case map_of store filename of
        None \<Rightarrow> open_pipe_releases env ps store i
      | Some chunks \<Rightarrow>
          chunk_releases env filename chunks pipe i
          @ (case send_over_chunks env filename chunks pipe [] i of
               Inl _ \<Rightarrow> []
             | Inr (_, _, _, i') \<Rightarrow> open_pipe_releases env ps (AList.delete filename store) i'))"

definition request_releases :: "serve_env \<Rightarrow> string list \<Rightarrow> sink connection \<Rightarrow> string \<Rightarrow> serve_state \<Rightarrow> int list" where
  "request_releases env file_list client filename st =
     (if filename \<notin> set file_list then []
      else case map_of (sv_store st) filename of
             None \<Rightarrow> []
           | Some chunks \<Rightarrow>
               (case rbind (send_file_reply (sv_codec env) client True (Some Ready)) recv_pipe of
                  Inl _ \<Rightarrow> []
                | Inr (pipe, _) \<Rightarrow> chunk_releases env filename chunks pipe (sends st)))"

definition client_releases :: "serve_env \<Rightarrow> string list \<Rightarrow> sink connection \<Rightarrow> serve_state \<Rightarrow> int list" where
  "client_releases env file_list client st =
     (case read_next_file_request (sv_codec env) client of
        Inr (Some filename, c) \<Rightarrow>
          if filename = ''stop-listener'' \<or> CHR ''*'' \<in> set filename \<or> filename = [] then []
          else request_releases env file_list c filename st
      | _ \<Rightarrow> [])"

definition round_releases :: "serve_env \<Rightarrow> string list \<Rightarrow> serve_state \<Rightarrow> int list" where
  "round_releases env file_list st =
     (let st0 = receive_chunks env st in
      open_pipe_releases env (open_pipes st0) (sv_store st0) (sends st0)
      @ (case pump env st0 of
           Inl _ \<Rightarrow> []
         | Inr st1 \<Rightarrow>
             (case poller_poll (sv_poll env) (sv_poller st1) 16 of
                Inr (Some (key, Client client), _) \<Rightarrow> client_releases env file_list client st1
              | _ \<Rightarrow> [])))"

text \<open>On a round that succeeds it is what the round reports.\<close>

lemma send_over_chunks_log:
  "send_over_chunks env n cs p rel i = Inr (all, p', rel', i') \<Longrightarrow>
   rel' = rel @ chunk_releases env n cs p i
   \<and> (\<forall>r. send_over_chunks env n cs p r i = Inr (all, p', r @ chunk_releases env n cs p i, i'))"
proof (induction env n cs p rel i arbitrary: rel' rule: send_over_chunks.induct)
  case (3 env n chunk cs p rel i)
  from "3.prems" obtain q small where v: "vmsplice_all (sv_splice env i) p (mm_deref chunk) = Inr q"
    and s: "is_small_file (sv_rx env) n = Inr small"
    and r: "send_over_chunks env n cs q (if small then rel else rel @ [int (length (mm_deref chunk))]) (Suc i)
      = Inr (all, p', rel', i')" by auto
  from "3.IH" [OF v s r] v s show ?case by auto
qed simp_all

lemma send_open_pipes_log:
  "send_open_pipes env ps store rel i = Inr (still, closed, store', rel', i') \<Longrightarrow>
   rel' = rel @ open_pipe_releases env ps store i"
proof (induction ps arbitrary: store rel i still closed store' rel')
  case (Cons x ps)
  obtain n p where x: "x = (n, p)" by force
  show ?case
  proof (cases "map_of store n")
    case None
    with Cons.prems x obtain still1 where
      "send_open_pipes env ps store rel i = Inr (still1, closed, store', rel', i')" by auto
    from Cons.IH [OF this] None x show ?thesis by simp
  next
    case (Some cs)
    with Cons.prems x obtain all p' rel1 i1 still1 closed1 where
      s: "send_over_chunks env n cs p rel i = Inr (all, p', rel1, i1)" and
      r: "send_open_pipes env ps (AList.delete n store) rel1 i1 = Inr (still1, closed1, store', rel', i')"
      by (auto split: if_splits)
    from send_over_chunks_log [OF s] Cons.IH [OF r] Some x show ?thesis by simp
  qed
qed simp

lemma request_log:
  assumes "serve_file_request env fl key c n st = Inr st'"
  shows "sv_released st' = sv_released st @ request_releases env fl c n st"
proof (cases "n \<in> set fl \<and> map_of (sv_store st) n \<noteq> None")
  case True
  then obtain cs where cs: "map_of (sv_store st) n = Some cs" by auto
  with assms True obtain c1 p c2 all p' rel i where
    "send_file_reply (sv_codec env) c True (Some Ready) = Inr c1" "recv_pipe c1 = Inr (p, c2)"
    and s: "send_over_chunks env n cs p (sv_released st) (sends st) = Inr (all, p', rel, i)"
    and st': "sv_released st' = rel"
    by (auto simp: serve_file_request_def Let_def split: if_splits)
  with True cs send_over_chunks_log [OF s] show ?thesis by (simp add: request_releases_def)
next
  case False
  with assms show ?thesis
    by (auto simp: serve_file_request_def request_releases_def set_client_def split: if_splits option.splits)
qed

lemma request_releases_cong:
  "sv_store st' = sv_store st \<Longrightarrow> sends st' = sends st \<Longrightarrow>
   request_releases env fl c n st' = request_releases env fl c n st"
  by (simp only: request_releases_def)

lemma client_releases_cong:
  assumes "sv_store st' = sv_store st" "sends st' = sends st"
  shows "client_releases env fl c st' = client_releases env fl c st"
  by (simp only: client_releases_def request_releases_cong [OF assms])

lemma sends_set_client [simp]: "sends (set_client key c st) = sends st"
  by (simp add: set_client_def)

lemma client_log:
  assumes r: "serve_client env fl key c st = Inr (st', fin)"
  shows "sv_released st' = sv_released st @ client_releases env fl c st"
proof -
  from r obtain req c1 where q: "read_next_file_request (sv_codec env) c = Inr (req, c1)"
    by (auto simp: serve_client_def)
  show ?thesis
  proof (cases "\<exists>n. req = Some n \<and> \<not> (n = ''stop-listener'' \<or> CHR ''*'' \<in> set n \<or> n = [])")
    case True
    then obtain n where n: "req = Some n" "\<not> (n = ''stop-listener'' \<or> CHR ''*'' \<in> set n \<or> n = [])" by blast
    with r q have f: "serve_file_request env fl key c1 n (set_client key c1 st) = Inr st'"
      by (simp add: serve_client_def Let_def split: if_split_asm)
    have "request_releases env fl c1 n (set_client key c1 st) = request_releases env fl c1 n st"
      by (rule request_releases_cong) simp_all
    with request_log [OF f] n q show ?thesis by (simp add: client_releases_def)
  next
    case False
    then have "client_releases env fl c st = []" using q by (auto simp: client_releases_def split: option.split)
    moreover have "sv_released st' = sv_released st"
      using False r q by (auto simp: serve_client_def Let_def split: option.splits if_splits)
    ultimately show ?thesis by simp
  qed
qed

lemma round_releases_exact:
  assumes r: "serve_round env fl st = Inr (st', fin)"
  shows "sv_released st' = sv_released st @ round_releases env fl st"
proof -
  let ?st0 = "receive_chunks env st"
  from r obtain st1 obj p where p1: "pump env ?st0 = Inr st1"
    and pl: "poller_poll (sv_poll env) (sv_poller st1) 16 = Inr (obj, p)"
    by (auto simp: serve_round_def)
  have st0: "sv_released ?st0 = sv_released st" by (simp add: receive_chunks_def split: prod.split)
  from p1 obtain still closed store rel i where
    "send_open_pipes env (open_pipes ?st0) (sv_store ?st0) (sv_released ?st0) (sends ?st0) = Inr (still, closed, store, rel, i)"
    and rel: "sv_released st1 = rel" by (auto simp: pump_def)
  from send_open_pipes_log [OF this(1)] st0
  have st1: "sv_released st1 = sv_released st @ open_pipe_releases env (open_pipes ?st0) (sv_store ?st0) (sends ?st0)"
    by (simp add: rel)
  show ?thesis
  proof (cases "\<exists>key c. obj = Some (key, Client c)")
    case True
    then obtain key c where o: "obj = Some (key, Client c)" by blast
    with r p1 pl have c: "serve_client env fl key c (st1\<lparr>sv_poller := p\<rparr>) = Inr (st', fin)"
      by (simp add: serve_round_def)
    have "client_releases env fl c (st1\<lparr>sv_poller := p\<rparr>) = client_releases env fl c st1"
      by (rule client_releases_cong) simp_all
    with client_log [OF c] st1 p1 pl o show ?thesis by (simp add: round_releases_def Let_def)
  next
    case False
    then have "round_releases env fl st = open_pipe_releases env (open_pipes ?st0) (sv_store ?st0) (sends ?st0)"
      using p1 pl by (auto simp: round_releases_def Let_def split: option.split poll_type.split)
    moreover have "sv_released st' = sv_released st1"
      using False r p1 pl by (auto simp: serve_round_def Let_def split: option.splits poll_type.splits)
    ultimately show ?thesis using st1 by simp
  qed
qed

lemma round_releases_nonneg: "r \<in> set (round_releases env fl st) \<Longrightarrow> 0 \<le> r"
proof -
  have c: "r \<in> set (chunk_releases env n cs p i) \<Longrightarrow> 0 \<le> r" for r n cs p i
  proof (induction env n cs p i rule: chunk_releases.induct)
    case (3 env n chunk cs p i)
    obtain q small where h: "vmsplice_all (sv_splice env i) p (mm_deref chunk) = Inr q"
      "is_small_file (sv_rx env) n = Inr small"
      using "3.prems" by (cases "vmsplice_all (sv_splice env i) p (mm_deref chunk)";
          cases "is_small_file (sv_rx env) n") simp_all
    with "3.IH" [OF h] "3.prems" show ?case by (auto simp del: is_small_file_def split: if_split_asm)
  qed simp_all
  have o: "r \<in> set (open_pipe_releases env ps store i) \<Longrightarrow> 0 \<le> r" for r ps store i
  proof (induction ps arbitrary: store i)
    case (Cons x ps)
    obtain n p where x: "x = (n, p)" by force
    with Cons show ?case
      by (cases "map_of store n"; cases "send_over_chunks env n (the (map_of store n)) p [] i") (auto dest: c)
  qed simp
  show "r \<in> set (round_releases env fl st) \<Longrightarrow> 0 \<le> r"
    by (auto simp: round_releases_def client_releases_def request_releases_def Let_def dest: c o
        split: sum.splits option.splits poll_type.splits if_splits)
qed

lemma round_releases_all: "\<forall>r \<in> set (round_releases env fl st). 0 \<le> r"
  using round_releases_nonneg by blast

section \<open>Runs with rounds that fail\<close>

text \<open>The two threads, and the error the serving thread has ended with.\<close>

inductive command_step :: "serve_env \<Rightarrow> string list \<Rightarrow> threads \<times> failure option \<Rightarrow> threads \<times> failure option \<Rightarrow> bool"
  for env fl where
  works: "threads_step env fl t t' \<Longrightarrow> command_step env fl (t, e) (t', e)"
| fails: "\<not> serve_ended t \<Longrightarrow> serve_round (round_env env t) fl (serving t) = Inl x \<Longrightarrow> x \<noteq> Diverge \<Longrightarrow>
    command_step env fl (t, e)
      (t\<lparr>transit := [], serve_ended := True,
         budget := fold (\<lambda>r s. sem_release s r) (round_releases (round_env env t) fl (serving t)) (budget t)\<rparr>, Some x)"

inductive_cases command_stepE: "command_step env fl s s'"

lemma threads_command:
  "(threads_step env fl)\<^sup>*\<^sup>* t t' \<Longrightarrow> (command_step env fl)\<^sup>*\<^sup>* (t, e) (t', e)"
  by (induction rule: rtranclp_induct) (auto intro: rtranclp.rtrancl_into_rtrancl command_step.works)

text \<open>The budget is never overdrawn, whatever fails.\<close>

lemma sem_releases_nonneg:
  "0 \<le> sem_count s \<Longrightarrow> 0 \<le> start_val s \<Longrightarrow> \<forall>r \<in> set rs. 0 \<le> r \<Longrightarrow>
   0 \<le> sem_count (fold (\<lambda>r s. sem_release s r) rs s)"
  by (induction rs arbitrary: s) (simp_all add: sem_release_def)

definition in_credit :: "threads \<Rightarrow> bool" where
  "in_credit t \<longleftrightarrow> 0 \<le> sem_count (budget t) \<and> 0 \<le> start_val (budget t)"

lemma in_credit_released:
  "in_credit t \<Longrightarrow> \<forall>r \<in> set rs. 0 \<le> r \<Longrightarrow>
   budget t' = fold (\<lambda>r s. sem_release s r) rs (budget t) \<Longrightarrow> in_credit t'"
  using sem_releases_nonneg [of "budget t" rs] sem_releases_budget [of rs "budget t"]
  by (simp add: in_credit_def)

lemma in_credit_threads_step:
  assumes t: "threads_step env fl t t'" and c: "in_credit t"
  shows "in_credit t'"
  using t
proof (cases rule: threads_step.cases)
  case (acquire k acts s)
  from acquire(3) c show ?thesis unfolding acquire(1) in_credit_def
    by (simp split: if_split_asm) auto
next
  case (round st fin)
  let ?rs = "round_releases (round_env env t) fl (serving t)"
  have "drop (length (sv_released (serving t))) (sv_released st) = ?rs"
    using round_releases_exact [OF round(3)] by simp
  then have "budget t' = fold (\<lambda>r s. sem_release s r) ?rs (budget t)"
    unfolding round(1) after_round_def by simp
  from in_credit_released [OF c round_releases_all this] show ?thesis .
qed (use c in \<open>simp_all add: in_credit_def\<close>)

lemma in_credit_step: "command_step env fl s s' \<Longrightarrow> in_credit (fst s) \<Longrightarrow> in_credit (fst s')"
proof (erule command_step.cases)
  fix t e x
  let ?rs = "round_releases (round_env env t) fl (serving t)"
  let ?t = "t\<lparr>transit := [], serve_ended := True, budget := fold (\<lambda>r s. sem_release s r) ?rs (budget t)\<rparr>"
  assume "in_credit (fst s)" and s: "s = (t, e)" "s' = (?t, Some x)"
  then have "in_credit ?t" by (intro in_credit_released [of t ?rs ?t] round_releases_all) simp_all
  then show "in_credit (fst s')" by (simp add: s)
qed (auto dest: in_credit_threads_step)

lemma in_credit_reach:
  "(command_step env fl)\<^sup>*\<^sup>* s s' \<Longrightarrow> in_credit (fst s) \<Longrightarrow> in_credit (fst s')"
  by (induction rule: rtranclp_induct) (auto intro: in_credit_step)

section \<open>The deserializer without a server\<close>

text \<open>What the deserializer still wants before the end of a file tells it that nobody receives.\<close>

fun wanted :: "action list \<Rightarrow> int" where
  "wanted [] = 0"
| "wanted (Acquire k # acts) = int k + wanted acts"
| "wanted (Send (n, Content b) # acts) = wanted acts"
| "wanted (Send (n, Fc_Eof) # acts) = 0"
| "wanted (Close # acts) = wanted acts"

definition short_of_memory :: "threads \<Rightarrow> bool" where
  "short_of_memory t \<longleftrightarrow> serve_ended t \<and> 0 \<le> sem_count (budget t) \<and> sem_count (budget t) < wanted (todo t)"

lemma short_step:
  "command_step env fl s s' \<Longrightarrow> short_of_memory (fst s) \<Longrightarrow> short_of_memory (fst s') \<and> snd s' = snd s"
proof (erule command_step.cases)
  fix t t' e assume s: "s = (t, e)" "s' = (t', e)" and t: "threads_step env fl t t'" and "short_of_memory (fst s)"
  from t this(4) show ?thesis
    by (cases rule: threads_step.cases) (auto simp: s short_of_memory_def split: if_splits)
qed (simp_all add: short_of_memory_def)

lemma short_reach:
  "(command_step env fl)\<^sup>*\<^sup>* s s' \<Longrightarrow> short_of_memory (fst s) \<Longrightarrow> short_of_memory (fst s') \<and> snd s' = snd s"
  by (induction rule: rtranclp_induct) (auto dest: short_step)

lemma short_stuck:
  "short_of_memory t \<Longrightarrow> \<exists>t'. (command_step env fl)\<^sup>*\<^sup>* (t, f) (t', f) \<and> (\<nexists>s. command_step env fl (t', f) s)"
proof (induction "todo t" arbitrary: t)
  case Nil
  then have "todo t = []" "short_of_memory t" by simp_all
  then have False by (auto simp: short_of_memory_def)
  then show ?case ..
next
  case (Cons a acts)
  have go: ?case if "command_step env fl (t, f) (u, f)" "todo u = acts" for u
  proof -
    from short_step [OF that(1)] Cons.prems have "short_of_memory u" by simp
    from Cons.hyps(1) [OF that(2)[symmetric] this] that(1) show ?thesis
      by (blast intro: converse_rtranclp_into_rtranclp)
  qed
  note todo = Cons.hyps(2)[symmetric] and ended = Cons.prems [unfolded short_of_memory_def]
  show ?case
  proof (cases a)
    case (Acquire k)
    show ?thesis
    proof (cases "sem_count (budget t) < int k")
      case True
      have "\<nexists>s. command_step env fl (t, f) s"
        using todo Acquire True ended by (auto elim!: command_stepE threads_step.cases)
      then show ?thesis by blast
    next
      case False
      with todo Acquire show ?thesis
        by (intro go [OF command_step.works [OF threads_step.acquire]]) auto
    qed
  next
    case (Send msg)
    obtain n c where "msg = (n, c)" by force
    with todo Send ended obtain b where "todo t = Send (n, Content b) # acts" by (cases c) auto
    with ended show ?thesis by (intro go [OF command_step.works [OF threads_step.send_ignored]]) auto
  next
    case Close
    with todo show ?thesis by (intro go [OF command_step.works [OF threads_step.close]]) auto
  qed
qed

text \<open>C13: a server that is gone leaves the deserializer waiting. When \<open>serve_img\<close> has returned or
  failed, nothing gives memory back any more, and the chunks the deserializer writes are dropped without
  an error; only the end of a file tells it that the channel is closed. So when the chunks before the
  next end of a file need more memory than is left, the deserializer never finishes: it comes to an
  \<open>acquire\<close> that waits for ever, and the command neither ends nor reports the error of the thread.\<close>

theorem failed_server_hangs:
  assumes run: "(command_step env fl)\<^sup>*\<^sup>* (threads_start ch limit (serve_start store p key), None) (t, f)"
    and ended: "serve_ended t" and limit: "0 \<le> limit"
    and short: "sem_count (budget t) < wanted (todo t)"
  shows "(\<nexists>t' f'. (command_step env fl)\<^sup>*\<^sup>* (t, f) (t', f') \<and> todo t' = [])
    \<and> (\<exists>t'. (command_step env fl)\<^sup>*\<^sup>* (t, f) (t', f) \<and> (\<nexists>s. command_step env fl (t', f) s))"
proof -
  have "in_credit t" using in_credit_reach [OF run] limit
    by (simp add: in_credit_def threads_start_def sem_new_def)
  with ended short have t: "short_of_memory t" by (simp add: short_of_memory_def in_credit_def)
  have "todo t' \<noteq> []" if "(command_step env fl)\<^sup>*\<^sup>* (t, f) (t', f')" for t' f'
    using short_reach [OF that] t by (auto simp: short_of_memory_def)
  with short_stuck [OF t] show ?thesis by blast
qed

definition demo_deaf :: serve_env where
  "demo_deaf = (demo_senv [])\<lparr>sv_poll := demo_penv\<lparr>wait_ready := \<lambda>_. Inl (Err Io_Error)\<rparr>\<rparr>"

definition demo_listening :: "poll_type poller" where
  "demo_listening = \<lparr>slab = [(0, 7, Listener)], pending_events = [], ctls = 1, waits = 0\<rparr>"

theorem failed_server_hangs_witness:
  "\<exists>t. (command_step demo_deaf [''pages-1.img''])\<^sup>*\<^sup>*
        (threads_start demo_ch 10 (serve_start [] demo_listening 0), None) (t, Some (Err Io_Error))
     \<and> (\<nexists>t' f'. (command_step demo_deaf [''pages-1.img''])\<^sup>*\<^sup>* (t, Some (Err Io_Error)) (t', f') \<and> todo t' = [])"
proof -
  let ?e = demo_deaf and ?fl = "[''pages-1.img'']"
  let ?start = "threads_start demo_ch 10 (serve_start [] demo_listening 0)"
  let ?t = "?start\<lparr>transit := [], serve_ended := True,
    budget := fold (\<lambda>r s. sem_release s r) (round_releases (round_env ?e ?start) ?fl (serving ?start)) (budget ?start)\<rparr>"
  have fail: "serve_round (round_env ?e ?start) ?fl (serving ?start) = Inl (Err Io_Error)"
    and none: "round_releases (round_env ?e ?start) ?fl (serving ?start) = []"
    by (simp_all add: serve_round_def round_releases_def receive_chunks_def round_env_def threads_start_def
        serve_start_def pump_def poller_poll_def demo_listening_def demo_deaf_def Let_def)
  have "command_step ?e ?fl (?start, None) (?t, Some (Err Io_Error))"
    by (rule command_step.fails [OF _ fail]) (simp_all add: threads_start_def)
  then have run: "(command_step ?e ?fl)\<^sup>*\<^sup>* (?start, None) (?t, Some (Err Io_Error))" by blast
  have "wanted (todo ?t) = 12" "sem_count (budget ?t) = 10"
    unfolding none by (simp_all add: threads_start_def demo_ch_def demo_chunk_def mm_deref_def sem_new_def)
  with failed_server_hangs [OF run] run show ?thesis by (intro exI [of _ ?t]) simp
qed

end
