(* ===== verification/Progress.thy ===== *)
theory Progress
  imports Demo "HOL-Library.Multiset"
begin

text \<open>
  What the commands tell their controller: the messages of \<open>emit_progress\<close> and the statistics
  (\<open>Stats\<close>, \<open>ShardStat\<close> of \<open>src/util.rs\<close>) that \<open>capture\<close> and \<open>extract\<close> send at their end.
  The JSON encoder and the clock are parameters.
\<close>

section \<open>Messages\<close>

record shard_stat =
  st_size :: nat
  transfer_duration_millis :: nat

text \<open>\<open>writeln!\<close> writes the message and then the newline; a failed write is ignored.\<close>

definition emit_progress :: "sink \<Rightarrow> byte list \<Rightarrow> sink" where
  "emit_progress progress_pipe msg =
     (case write_all progress_pipe msg of
        Inl _ \<Rightarrow> progress_pipe
      | Inr p \<Rightarrow> (case write_all p [10] of Inl _ \<Rightarrow> p | Inr p' \<Rightarrow> p'))"

text \<open>
  The statistics of a capture, in the order in which the shard pipes were given. The serializer
  keeps the other shards in a heap, so the shard of each pipe is found by its descriptor.
\<close>

definition capture_stats :: "serializer \<Rightarrow> int list \<Rightarrow> nat \<Rightarrow> shard_stat list" where
  "capture_stats s fds millis =
     concat (map (\<lambda>fd. map (\<lambda>sh. \<lparr>st_size = bytes_written sh, transfer_duration_millis = millis\<rparr>)
       (filter (\<lambda>sh. sh_fd sh = fd) (small_shard s # shards s))) fds)"

text \<open>Everything a capture that returns has sent to the progress pipe.\<close>

definition capture_progress ::
  "(shard_stat list \<Rightarrow> byte list) \<Rightarrow> capture_state \<Rightarrow> serializer \<Rightarrow> int list \<Rightarrow> nat \<Rightarrow> sink \<Rightarrow> sink" where
  "capture_progress stats_json st s fds millis progress_pipe =
     (let p1 = emit_progress progress_pipe (map byte_of_char ''socket-init'');
          p2 = (if cs_started st then emit_progress p1 (map byte_of_char ''checkpoint-start'') else p1) in
      emit_progress p2 (stats_json (capture_stats s fds millis)))"

text \<open>\<open>serve\<close> reports only that its socket is there.\<close>

definition serve_progress :: "sink \<Rightarrow> sink" where
  "serve_progress progress_pipe = emit_progress progress_pipe (map byte_of_char ''socket-init'')"

section \<open>The sizes are those of the streams\<close>

definition counted :: "shard \<Rightarrow> bool" where
  "counted sh \<longleftrightarrow> bytes_written sh = length (written (sh_pipe sh)) mod 2 ^ 64"

definition tallied :: "int \<Rightarrow> int multiset \<Rightarrow> serializer \<Rightarrow> bool" where
  "tallied fd fds s \<longleftrightarrow>
     counted (small_shard s) \<and> sh_fd (small_shard s) = fd
     \<and> (\<forall>sh \<in> set (shards s). counted sh) \<and> mset (map sh_fd (shards s)) = fds"

lemma tallied_cong:
  "small_shard s' = small_shard s \<Longrightarrow> shards s' = shards s \<Longrightarrow> tallied fd fds s' = tallied fd fds s"
  by (simp add: tallied_def)

lemma gen_marker_tallied: "gen_marker s b sm = (m, s') \<Longrightarrow> tallied fd fds s' = tallied fd fds s"
  by (auto simp: gen_marker_def tallied_def split: if_splits)

lemma u64_add_mod: "u64_add (a mod 2 ^ 64) (u64_add b c) = (a + (b + c)) mod 2 ^ 64"
  unfolding u64_add_def by (simp only: mod_add_left_eq mod_add_right_eq)

lemma counted_add:
  "counted sh \<Longrightarrow> length (written p) = length (written (sh_pipe sh)) + (b + c) \<Longrightarrow>
   counted (sh\<lparr>sh_pipe := p, bytes_written := u64_add (bytes_written sh) (u64_add b c)\<rparr>)"
proof -
  assume a: "counted sh" "length (written p) = length (written (sh_pipe sh)) + (b + c)"
  have "u64_add (bytes_written sh) (u64_add b c) = length (written p) mod 2 ^ 64"
    using a unfolding counted_def by (simp only: u64_add_mod)
  then show ?thesis by (simp add: counted_def)
qed

lemma put_chunk_counted:
  assumes "put_chunk k sm m data req sh = Inr (sh', n, r)" and "counted sh"
  shows "counted sh' \<and> sh_fd sh' = sh_fd sh"
proof (cases data)
  case None
  with assms(1) obtain p1 where w: "write_all (sh_pipe sh) (frame (pb_enc k) m) = Inr p1"
    and sh': "sh' = sh\<lparr>sh_pipe := p1, bytes_written := u64_add (bytes_written sh)
        (u64_add (4 + length (pb_enc k m)) 0), remaining_space := i32 (remaining_space sh - req)\<rparr>"
    by (auto simp: put_chunk_def Let_def pb_write_Inr)
  have "counted (sh\<lparr>sh_pipe := p1, bytes_written := u64_add (bytes_written sh) (u64_add (4 + length (pb_enc k m)) 0)\<rparr>)"
    by (rule counted_add [OF assms(2)]) (simp add: write_all_written [OF w])
  then show ?thesis by (simp add: sh' counted_def)
next
  case (Some a)
  obtain src sz where a: "a = (src, sz)" by (cases a)
  from assms(1) Some a obtain p1 ms src' p2 where
    w: "write_all (sh_pipe sh) (frame (pb_enc k) m) = Inr p1" "ms = 4 + length (pb_enc k m)"
    and sp: "splice_all (splice_n k sm (mseq m)) src p1 (nat sz) = Inr (src', p2)"
    and sh': "sh' = sh\<lparr>sh_pipe := p2, bytes_written := u64_add (bytes_written sh) (u64_add ms (nat sz)),
                remaining_space := i32 (remaining_space sh - req)\<rparr>"
    by (auto simp: put_chunk_def Let_def pb_write_Inr)
  have "counted (sh\<lparr>sh_pipe := p2, bytes_written := u64_add (bytes_written sh) (u64_add ms (nat sz))\<rparr>)"
    by (rule counted_add [OF assms(2)]) (use splice_all_Inr [OF sp] write_all_written [OF w(1)] w(2) in auto)
  then show ?thesis by (simp add: sh' counted_def)
qed

lemma refresh_tallied:
  assumes "refresh_all_shard_remaining_space k t s = Inr s'" and "tallied fd fds s"
  shows "tallied fd fds s'"
proof -
  let ?f = "refresh_remaining_space k t (pipe_capacity s)"
  from assms(1) obtain shs where r: "rmap ?f (shards s) = Inr shs" and s': "s' = s\<lparr>shards := shs\<rparr>"
    by (auto simp: refresh_all_shard_remaining_space_def)
  have one: "?f sh = Inr sh' \<Longrightarrow> counted sh' = counted sh \<and> sh_fd sh' = sh_fd sh" for sh sh'
    by (auto simp: refresh_remaining_space_def counted_def)
  have "rmap ?f xs = Inr ys \<Longrightarrow>
      (\<forall>sh \<in> set ys. counted sh) = (\<forall>sh \<in> set xs. counted sh) \<and> map sh_fd ys = map sh_fd xs" for xs ys
    by (induction xs arbitrary: ys) (auto dest!: one)
  from this [OF r] assms(2) show ?thesis by (simp add: s' tallied_def)
qed

lemma write_chunk_tallied:
  assumes w: "write_chunk k s m data sm = Inr (s', r)" and t: "tallied fd fds s"
  shows "tallied fd fds s'"
proof (cases sm)
  case True
  with w obtain sh n req where "put_chunk k True m data req (small_shard s) = Inr (sh, n, r)"
    and "small_shard s' = sh" "shards s' = shards s"
    by (auto simp: write_chunk_def Let_def)
  with put_chunk_counted [of k True m data req "small_shard s" sh n r] t show ?thesis by (simp add: tallied_def)
next
  case False
  define req where "req = i32 (int (page_size k) + (case data of None \<Rightarrow> 0 | Some (_, sz) \<Rightarrow> sz))"
  from w False obtain top :: shard and s1 sh0 sh n where
    s1: "(if remaining_space top < req then refresh_all_shard_remaining_space k (mseq m) s else Inr s) = Inr s1"
    and pk: "heap_peek shard_cmp (shards s1) = Some sh0"
    and pc: "put_chunk k False m data req sh0 = Inr (sh, n, r)"
    and s': "s' = s1\<lparr>shards := heap_set_top shard_cmp sh (shards s1),
                current_file_size := u64_add (current_file_size s1) n\<rparr>"
    unfolding write_chunk_def Let_def req_def [symmetric]
    by (simp add: split_paired_Ex) blast
  have t1: "tallied fd fds s1" using s1 t refresh_tallied by (auto split: if_splits)
  let ?i = "top_index shard_cmp (shards s1)"
  have i: "?i < length (shards s1)" "sh0 = shards s1 ! ?i"
    using pk by (auto simp: heap_peek_Some top_index_less)
  have "counted sh0" using t1 i by (simp add: tallied_def)
  from put_chunk_counted [OF pc this] have sh: "counted sh" "sh_fd sh = sh_fd (shards s1 ! ?i)" using i by auto
  have "map sh_fd (shards s') = map sh_fd (shards s1)"
    using i sh(2) by (simp add: s' heap_set_top_def map_update) (metis list_update_id nth_map length_map)
  moreover have "\<forall>x \<in> set (shards s'). counted x"
    using t1 sh(1) set_update_subset_insert [of "shards s1" ?i sh] by (auto simp: s' heap_set_top_def tallied_def)
  ultimately show ?thesis using t1 by (simp add: tallied_def s')
qed

lemma emit_tallied: "emit k s b data sm = Inr (s', r) \<Longrightarrow> tallied fd fds s \<Longrightarrow> tallied fd fds s'"
  by (auto simp: emit_def dest: gen_marker_tallied write_chunk_tallied split: prod.splits)

lemma filename_tallied:
  "maybe_write_filename_marker k s f sm = Inr s' \<Longrightarrow> tallied fd fds s \<Longrightarrow> tallied fd fds s'"
  by (auto simp: maybe_write_filename_marker_def tallied_def [of _ _ "s\<lparr>current_filename := _\<rparr>"]
      dest!: emit_tallied [where fd = fd and fds = fds] split: if_splits) (simp_all add: tallied_def)

lemma drain_loop_tallied:
  "drain_loop k fuel sm n s src = Inr (s', src') \<Longrightarrow> tallied fd fds s \<Longrightarrow> tallied fd fds s'"
proof (induction fuel arbitrary: n s src)
  case 0
  then show ?case by (simp add: drain_loop.simps split: if_splits)
next
  case (Suc fuel)
  show ?case
  proof (cases "n > 0")
    case False
    with Suc.prems show ?thesis by (simp add: drain_loop.simps)
  next
    case True
    with Suc.prems(1) obtain s1 x src1 b d where e: "emit k s b d sm = Inr (s1, x)"
      and r: "drain_loop k fuel sm (i32 (n - min n (chunk_max_data_size k s))) s1 src1 = Inr (s', src')"
      by (auto simp: drain_loop.simps Let_def)
    from Suc.IH [OF r emit_tallied [OF e Suc.prems(2)]] show ?thesis .
  qed
qed

lemma drain_img_file_tallied:
  assumes r: "drain_img_file k s f = Inr (b, s', f')" and t: "tallied fd fds s"
  shows "tallied fd fds s'"
proof -
  from r obtain n sm s1 s2 src where
    m: "maybe_write_filename_marker k s (if_name f) sm = Inr s1"
    and d: "drain_loop k (nat n) sm n s1 (if_pipe f) = Inr (s2, src)"
    and "(if n = 0 then rbind (emit k (s2\<lparr>metadata := metadata s2 @ [if_name f]\<rparr>) (FileEof True) None sm)
            (\<lambda>(s3, _). Inr s3) else Inr s2) = Inr s'"
    by (simp add: drain_img_file_def Let_def split_paired_Ex) blast
  then have e: "s' = s2 \<or> (\<exists>x. emit k (s2\<lparr>metadata := metadata s2 @ [if_name f]\<rparr>) (FileEof True) None sm = Inr (s', x))"
    by (auto split: if_splits)
  have t2: "tallied fd fds s2" by (rule drain_loop_tallied [OF d filename_tallied [OF m t]])
  then have "tallied fd fds (s2\<lparr>metadata := metadata s2 @ [if_name f]\<rparr>)" by (simp add: tallied_def)
  with e t2 emit_tallied show ?thesis by blast
qed

lemma drain_events_tallied:
  "drain_events k s es = Inr s' \<Longrightarrow> tallied fd fds s \<Longrightarrow> tallied fd fds s'"
proof (induction es arbitrary: s)
  case (Cons e es)
  then obtain b s1 f where "drain_img_file k s (event_file e) = Inr (b, s1, f)" "drain_events k s1 es = Inr s'"
    by auto
  with Cons.IH Cons.prems(2) drain_img_file_tallied show ?case by blast
qed simp

lemma write_image_eof_tallied:
  assumes w: "write_image_eof k s = Inr s'" and t: "tallied fd fds s"
  shows "tallied fd fds s'"
proof -
  from w obtain s1 x where e1: "emit k s (Filename METADATA_FILE) None True = Inr (s1, x)"
    by (auto simp: write_image_eof_def write_metadata_to_small_shard_def)
  obtain m s2 where g: "gen_marker s1 (FileData (as_u32 (int (length (to_json k (metadata s1)))))) True = (m, s2)"
    by force
  from w e1 g obtain p1 ms p2 s4 y z where
    pw: "pb_write (pb_enc k) (sh_pipe (small_shard s2)) m = Inr (p1, ms)"
    and wa: "write_all p1 (to_json k (metadata s1)) = Inr p2"
    and e2: "emit k (s2\<lparr>small_shard := (small_shard s2)\<lparr>sh_pipe := p2, bytes_written :=
               u64_add (bytes_written (small_shard s2)) (u64_add (length (to_json k (metadata s1))) ms)\<rparr>\<rparr>)
             (FileEof True) None True = Inr (s4, y)"
    and e3: "emit k s4 (ImageEof True) None False = Inr (s', z)"
    by (auto simp: write_image_eof_def write_metadata_to_small_shard_def Let_def split: prod.splits)
  have t2: "tallied fd fds s2" using gen_marker_tallied [OF g] emit_tallied [OF e1 t] by simp
  have "length (written p2) = length (written (sh_pipe (small_shard s2))) + (length (to_json k (metadata s1)) + ms)"
    using write_all_written [OF wa] pw by (auto simp: pb_write_Inr dest!: write_all_written)
  from t2 counted_add [OF _ this] have "tallied fd fds (s2\<lparr>small_shard := (small_shard s2)\<lparr>sh_pipe := p2, bytes_written :=
       u64_add (bytes_written (small_shard s2)) (u64_add (length (to_json k (metadata s1))) ms)\<rparr>\<rparr>)"
    by (simp add: tallied_def)
  from emit_tallied [OF e3 emit_tallied [OF e2 this]] show ?thesis .
qed

lemma capture_events_tallied:
  assumes c: "capture_events k shs cap es = Inr s" and shs: "\<forall>sh \<in> set shs. counted sh"
  shows "(\<forall>sh \<in> set (small_shard s # shards s). counted sh)
    \<and> mset (map sh_fd (small_shard s # shards s)) = mset (map sh_fd shs)"
proof -
  from c obtain s0 s1 where n: "serializer_new shs cap = Inr s0" and d: "drain_events k s0 es = Inr s1"
    and w: "write_image_eof k s1 = Inr s" by (auto simp: capture_events_def)
  have ne: "shs \<noteq> []" using n by (auto simp: serializer_new_def)
  have "tallied (sh_fd (hd shs)) (mset (map sh_fd (tl shs))) s0"
    using n ne shs by (auto simp: serializer_new_def tallied_def dest: list.set_sel)
  from write_image_eof_tallied [OF w drain_events_tallied [OF d this]] ne show ?thesis
    by (cases shs) (auto simp: tallied_def)
qed

lemma capture_stats_nth:
  assumes "\<forall>sh \<in> set (small_shard s # shards s). counted sh"
    and "mset (map sh_fd (small_shard s # shards s)) = mset fds" and "distinct fds"
  shows "length (capture_stats s fds t) = length fds
    \<and> (\<forall>i < length fds. \<exists>sh \<in> set (small_shard s # shards s). sh_fd sh = fds ! i
         \<and> capture_stats s fds t ! i
           = \<lparr>st_size = length (written (sh_pipe sh)) mod 2 ^ 64, transfer_duration_millis = t\<rparr>)"
proof -
  let ?all = "small_shard s # shards s"
  have dist: "distinct (map sh_fd ?all)" using assms(2,3) mset_eq_imp_distinct_iff by blast
  define the_shard where "the_shard fd = hd (filter (\<lambda>sh. sh_fd sh = fd) ?all)" for fd
  have one: "filter (\<lambda>sh. sh_fd sh = fd) ?all = [the_shard fd] \<and> the_shard fd \<in> set ?all \<and> sh_fd (the_shard fd) = fd"
    if "fd \<in> set fds" for fd
  proof -
    have "fd \<in> set (map sh_fd ?all)" using that mset_eq_setD [OF assms(2)] by simp
    then obtain sh where sh: "sh \<in> set ?all" "sh_fd sh = fd" by auto
    have "filter (\<lambda>x. sh_fd x = fd) xs = [sh]" if "sh \<in> set xs" "distinct (map sh_fd xs)" for xs
      using that sh(2)
    proof (induction xs)
      case (Cons x xs)
      show ?case
      proof (cases "x = sh")
        case True
        with Cons.prems have "fd \<notin> sh_fd ` set xs" by simp
        then have "\<forall>y \<in> set xs. sh_fd y \<noteq> fd" by blast
        then have "filter (\<lambda>y. sh_fd y = fd) xs = []" by (simp add: filter_empty_conv)
        with True Cons.prems(3) show ?thesis by simp
      next
        case False
        with Cons.prems have "sh_fd x \<noteq> fd" by auto
        with False Cons show ?thesis by simp
      qed
    qed simp
    from this [OF sh(1) dist] sh show ?thesis by (simp add: the_shard_def)
  qed
  have eq: "capture_stats s fds t
      = map (\<lambda>fd. \<lparr>st_size = bytes_written (the_shard fd), transfer_duration_millis = t\<rparr>) fds"
    unfolding capture_stats_def using one by (induction fds) (simp_all del: filter.simps)
  then have nth: "capture_stats s fds t ! i
      = \<lparr>st_size = bytes_written (the_shard (fds ! i)), transfer_duration_millis = t\<rparr>" if "i < length fds" for i
    using that by simp
  have "\<exists>sh \<in> set ?all. sh_fd sh = fds ! i
         \<and> capture_stats s fds t ! i
           = \<lparr>st_size = length (written (sh_pipe sh)) mod 2 ^ 64, transfer_duration_millis = t\<rparr>"
    if i: "i < length fds" for i
  proof -
    from one [OF nth_mem [OF i]] have o: "the_shard (fds ! i) \<in> set ?all" "sh_fd (the_shard (fds ! i)) = fds ! i"
      by blast+
    with assms(1) have "bytes_written (the_shard (fds ! i)) = length (written (sh_pipe (the_shard (fds ! i)))) mod 2 ^ 64"
      unfolding counted_def by blast
    with o nth [OF i] show ?thesis by metis
  qed
  moreover have "length (capture_stats s fds t) = length fds" by (simp add: eq)
  ultimately show ?thesis by blast
qed

section \<open>When the checkpoint has started\<close>

definition start_told :: "nat \<Rightarrow> capture_state \<Rightarrow> bool" where
  "start_told n st \<longleftrightarrow>
     n \<le> length (cs_files st) \<and> (cs_started st \<longleftrightarrow> (\<exists>f \<in> set (drop n (cs_files st)). f \<noteq> ''cpuinfo.img''))"

lemma start_told_same:
  "cs_files st' = cs_files st \<Longrightarrow> cs_started st' = cs_started st \<Longrightarrow> start_told n st' = start_told n st"
  by (simp add: start_told_def)

lemma capture_client_told:
  assumes r: "capture_client cp key c st = Inr st'" and t: "start_told n st"
  shows "start_told n st'"
proof -
  from r obtain req c1 where q: "read_next_file_request (cp_codec cp) c = Inr (req, c1)"
    by (auto simp: capture_client_def)
  consider "req = None \<or> req = Some ''stop-listener''" | f where "req = Some f" "f \<noteq> ''stop-listener''"
    by (cases req) auto
  then show ?thesis
  proof cases
    case 1
    with r q have "cs_files st' = cs_files st \<and> cs_started st' = cs_started st"
      by (auto simp: capture_client_def Let_def)
    with t show ?thesis by (simp cong: start_told_same)
  next
    case 2
    with r q have "cs_files st' = cs_files st @ [f] \<and> cs_started st' = (cs_started st \<or> f \<noteq> ''cpuinfo.img'')"
      by (auto simp: capture_client_def Let_def cap_add_file_def)
    with t show ?thesis by (auto simp: start_told_def)
  qed
qed

lemma capture_loop_told:
  "capture_loop k cp fuel st = Inr st' \<Longrightarrow> start_told n st \<Longrightarrow> start_told n st'"
proof (induction fuel arbitrary: st)
  case (Suc fuel)
  from Suc.prems(1) obtain obj p where pl: "poller_poll (cp_poll cp) (cs_poller st) 16 = Inr (obj, p)" by auto
  have t: "start_told n (st\<lparr>cs_poller := p\<rparr>)" using Suc.prems(2) by (simp add: start_told_def)
  show ?case
  proof (cases obj)
    case None
    with Suc.prems(1) pl t show ?thesis by auto
  next
    case (Some ko)
    obtain key o' where ko: "ko = (key, o')" by force
    show ?thesis
    proof (cases o')
      case Cap_Listener
      with Suc.prems(1) pl Some ko obtain p' m where
        "capture_loop k cp fuel (st\<lparr>cs_poller := p', cs_accepts := m\<rparr>) = Inr st'" by (auto simp: Let_def)
      from Suc.IH [OF this] Suc.prems(2) show ?thesis by (simp add: start_told_def)
    next
      case (Cap_Client c)
      with Suc.prems(1) pl Some ko obtain st2 where
        c: "capture_client cp key c (st\<lparr>cs_poller := p\<rparr>) = Inr st2" and rest: "capture_loop k cp fuel st2 = Inr st'"
        by (auto simp: Let_def)
      from Suc.IH [OF rest capture_client_told [OF c t]] show ?thesis .
    next
      case (Cap_File f)
      with Suc.prems(1) pl Some ko obtain st2 where
        c: "capture_file k cp key f (st\<lparr>cs_poller := p\<rparr>) = Inr st2" and rest: "capture_loop k cp fuel st2 = Inr st'"
        by (auto simp: Let_def)
      from c have "cs_files st2 = cs_files st \<and> cs_started st2 = cs_started st"
        by (auto simp: capture_file_def Let_def split: if_splits)
      with Suc.IH [OF rest] Suc.prems(2) show ?thesis by (simp cong: start_told_same)
    qed
  qed
qed simp

lemma add_ext_told:
  "add_ext_files cp ext st = Inr st' \<Longrightarrow>
   cs_files st' = cs_files st @ map fst ext \<and> cs_started st' = cs_started st"
proof (induction ext arbitrary: st)
  case (Cons x ext)
  then obtain f fd st1 where "x = (f, fd)" "cap_add_file cp f fd st = Inr st1" "add_ext_files cp ext st1 = Inr st'"
    by (cases x) auto
  with Cons.IH [of st1] show ?case by (auto simp: cap_add_file_def)
qed simp

lemma emit_progress_unlimited:
  "room p = None \<Longrightarrow> emit_progress p msg = p\<lparr>written := written p @ msg @ [10]\<rparr>"
  by (simp add: emit_progress_def write_all_unlimited)



end
