(* ===== verification/Extract_Stats.thy ===== *)
theory Extract_Stats
  imports Extract_Cmd Progress
begin

text \<open>
  The statistics of \<open>extract\<close>. Each shard counts the bytes of its markers and the sizes of its
  payloads; over a store that copies exactly the bytes it is asked to (on disk, to a pipe, over a
  channel) these are the bytes of the stream.
\<close>

section \<open>The statistics\<close>

text \<open>
  The shards in no particular order: the deserializer gives them back as they end, while the
  command lists them in the order of its arguments.
\<close>

definition extract_stats :: "('s, 'f) deser \<Rightarrow> shard_stat multiset" where
  "extract_stats d =
     mset (map (\<lambda>sh. \<lparr>st_size = bytes_read sh, transfer_duration_millis = transfer_millis sh\<rparr>)
             (small_file_shard d # finished_shards d))"

definition extract_progress ::
  "(shard_stat multiset \<Rightarrow> byte list) \<Rightarrow> ('s, 'f) deser \<Rightarrow> sink \<Rightarrow> sink" where
  "extract_progress stats_json d progress_pipe = emit_progress progress_pipe (stats_json (extract_stats d))"

section \<open>The small shard\<close>

text \<open>The small shard is read before the others and leaves them alone.\<close>

abbreviation same_shards :: "('s, 'f) deser \<Rightarrow> ('s, 'f) deser \<Rightarrow> bool" where
  "same_shards d d' \<equiv> de_shards d' = de_shards d \<and> readable_shards d' = readable_shards d
     \<and> pending_markers d' = pending_markers d \<and> finished_shards d' = finished_shards d \<and> image_eof d' = image_eof d
     \<and> de_seq d' = de_seq d"

lemma small_marker_keeps: "process_small_file_marker e ops d m = Inr d' \<Longrightarrow> same_shards d d'"
  by (auto simp: process_small_file_marker_def Let_def dest: select_img_file_keeps
      split: option.splits body.splits bool.splits if_splits)

lemma drain_small_loop_keeps: "drain_small_loop e ops fuel d = Inr d' \<Longrightarrow> same_shards d d'"
proof (induction fuel arbitrary: d)
  case (Suc fuel)
  then obtain x rd where pb: "pb_read_next (pb_dec e) (dsh_pipe (small_file_shard d)) = Inr (x, rd)" by auto
  show ?case
  proof (cases x)
    case None
    with Suc.prems pb show ?thesis by (auto simp: Let_def)
  next
    case (Some mn)
    obtain m n where "mn = (m, n)" by force
    with Suc.prems pb Some obtain d1 where
      p: "process_small_file_marker e ops (d\<lparr>small_file_shard := (small_file_shard d)
            \<lparr>dsh_pipe := rd, bytes_read := u64_add (bytes_read (small_file_shard d)) n\<rparr>\<rparr>) m = Inr d1"
      and rest: "drain_small_loop e ops fuel (d1\<lparr>small_file_seq := u64_add (small_file_seq d1) 1\<rparr>) = Inr d'"
      by (auto simp: Let_def)
    from small_marker_keeps [OF p] Suc.IH [OF rest] show ?thesis by simp
  qed
qed simp

section \<open>Stores that copy exactly\<close>

locale exact_writes =
  fixes ops :: "('s, 'f) store_ops"
  assumes write_exact: "so_write ops st f r n = Inr (st', f', r') \<Longrightarrow> n \<le> length (avail r) \<and> avail r' = drop n (avail r)"

definition stream_size :: "dshard \<Rightarrow> nat" where
  "stream_size sh = (bytes_read sh + length (avail (dsh_pipe sh))) mod 2 ^ 64"

definition all_shards :: "('s, 'f) deser \<Rightarrow> dshard multiset" where
  "all_shards d = mset (pool d) + mset (map pm_shard (pending_markers d)) + mset (finished_shards d)"

definition sizes :: "('s, 'f) deser \<Rightarrow> nat multiset" where
  "sizes d = image_mset stream_size (all_shards d)"

lemma stream_size_read:
  "length (avail (dsh_pipe sh)) = n + length (avail rd) \<Longrightarrow>
   stream_size (sh\<lparr>dsh_pipe := rd, bytes_read := u64_add (bytes_read sh) n\<rparr>) = stream_size sh"
proof -
  assume "length (avail (dsh_pipe sh)) = n + length (avail rd)"
  then have "((bytes_read sh + n) mod 2 ^ 64 + length (avail rd)) mod 2 ^ 64
      = (bytes_read sh + length (avail (dsh_pipe sh))) mod 2 ^ 64"
    by (simp only: mod_add_left_eq add.assoc)
  then show ?thesis by (simp add: stream_size_def u64_add_def)
qed

lemma stream_size_ended: "avail (dsh_pipe sh) = [] \<Longrightarrow> bytes_read sh < 2 ^ 64 \<Longrightarrow> stream_size sh = bytes_read sh"
  by (simp add: stream_size_def)

context exact_writes
begin

lemma write_length: "so_write ops st f r n = Inr (st', f', r') \<Longrightarrow> length (avail r) = n + length (avail r')"
  by (auto dest: write_exact)

lemma process_marker_size:
  assumes p: "process_marker ops d m sh = Inr (d', sh')"
  shows "stream_size sh' = stream_size sh \<and> (bytes_read sh < 2 ^ 64 \<longrightarrow> bytes_read sh' < 2 ^ 64)
    \<and> (image_eof d' \<longrightarrow> image_eof d \<or> pending_markers d = [])"
proof (cases "\<exists>sz. mbody m = Some (FileData sz)")
  case True
  then obtain sz where m: "mbody m = Some (FileData sz)" by blast
  with p obtain st f f' rd where w: "so_write ops (img_store d) f (dsh_pipe sh) sz = Inr (st, f', rd)"
    and sh': "sh' = sh\<lparr>dsh_pipe := rd, bytes_read := u64_add (bytes_read sh) sz\<rparr>" and "image_eof d' = image_eof d"
    by (auto simp: process_marker_def)
  with stream_size_read [OF write_length [OF w]] show ?thesis by (simp add: u64_add_lt)
next
  case False
  with p have "sh' = sh" "image_eof d' \<longrightarrow> image_eof d \<or> pending_markers d = []"
    by (auto simp: process_marker_def mark_image_eof_def dest: select_img_file_keeps
        split: option.splits body.splits bool.splits)
  then show ?thesis by simp
qed

definition fair :: "('s, 'f) deser \<Rightarrow> bool" where
  "fair d \<longleftrightarrow> (\<forall>sh \<in># all_shards d. bytes_read sh < 2 ^ 64) \<and> (image_eof d \<longrightarrow> pending_markers d = [])
     \<and> (\<forall>sh \<in> set (finished_shards d). avail (dsh_pipe sh) = [])"

lemma process_pending_sizes:
  "process_pending_markers ops d = Inr d' \<Longrightarrow> fair d \<Longrightarrow> fair d' \<and> sizes d' = sizes d"
proof (induction "length (pending_markers d)" arbitrary: d rule: less_induct)
  case less
  show ?case
  proof (cases "get_next_in_order_marker d")
    case None
    with less.prems show ?thesis by (subst (asm) process_pending_markers.simps) simp
  next
    case (Some x)
    obtain pm d1 where x: "x = (pm, d1)" by force
    with Some less.prems(1) obtain d2 sh where
      p: "process_marker ops d1 (pm_marker pm) (pm_shard pm) = Inr (d2, sh)" and
      r: "process_pending_markers ops (d2\<lparr>de_seq := u64_add (de_seq d2) 1, de_shards := de_shards d2 @ [sh]\<rparr>) = Inr d'"
      (is "process_pending_markers ops ?d2 = _")
      by (subst (asm) process_pending_markers.simps) auto
    from get_next_in_order_marker_Some Some x obtain l q where
      pend: "pending_markers d = l @ pm # q" and d1: "d1 = d\<lparr>pending_markers := l @ q\<rparr>" by blast
    from process_marker_keeps [OF p] d1 have k: "pending_markers d2 = l @ q" "de_shards d2 = de_shards d"
      "readable_shards d2 = readable_shards d" "finished_shards d2 = finished_shards d" by simp_all
    from process_marker_size [OF p] have s: "stream_size sh = stream_size (pm_shard pm)"
      "bytes_read (pm_shard pm) < 2 ^ 64 \<longrightarrow> bytes_read sh < 2 ^ 64"
      "image_eof d2 \<longrightarrow> image_eof d \<or> l @ q = []" by (simp_all add: d1)
    have sz: "sizes ?d2 = sizes d" by (simp add: sizes_def all_shards_def pool_def k pend s(1))
    have "fair ?d2" using less.prems(2) s k pend by (auto simp: fair_def all_shards_def pool_def)
    moreover have "length (pending_markers ?d2) < length (pending_markers d)" by (simp add: k pend)
    ultimately show ?thesis using less.hyps [OF _ r] sz by simp
  qed
qed

lemma get_next_keeps:
  "get_next_readable_shard e d = Inr (x, d') \<Longrightarrow> finished_shards d' = finished_shards d"
  by (auto simp: get_next_readable_shard_def Let_def case_prod_unfold split: if_splits)

lemma get_next_sizes:
  assumes g: "get_next_readable_shard e d = Inr (next, d')" and f: "fair d" and po: "poll_ok fail e"
  shows "case next of None \<Rightarrow> fair d' \<and> sizes d' = sizes d \<and> pool d' = [] \<and> image_eof d' = image_eof d
    | Some sh \<Rightarrow> fair d' \<and> bytes_read sh < 2 ^ 64 \<and> sizes d = add_mset (stream_size sh) (sizes d')"
proof -
  have p: "Drain_Order.same_files d d'" "case next of None \<Rightarrow> pool d = [] \<and> pool d' = []
      | Some sh \<Rightarrow> mset (pool d) = add_mset sh (mset (pool d'))"
    using get_next_readable_shard_pool [OF po, of d] g by auto
  have fin: "finished_shards d' = finished_shards d" by (rule get_next_keeps [OF g])
  show ?thesis
    using p fin f
    by (cases "next") (auto simp: fair_def sizes_def all_shards_def Drain_Order.same_files_def)
qed

lemma drain_shard_sizes:
  assumes r: "drain_shard e ops d sh = Inr d'" and f: "fair d" and b: "bytes_read sh < 2 ^ 64"
  shows "fair d' \<and> sizes d' = add_mset (stream_size sh) (sizes d)"
proof -
  from r obtain x rd where pb: "pb_read_next (pb_dec e) (dsh_pipe sh) = Inr (x, rd)" by (auto simp: drain_shard_def)
  note c = pb_read_next_consumes [OF pb]
  show ?thesis
  proof (cases x)
    case None
    with r pb have d': "d' = d\<lparr>finished_shards := finished_shards d @ [mark_shard_eof e d (sh\<lparr>dsh_pipe := rd\<rparr>)]\<rparr>"
      by (simp add: drain_shard_def Let_def)
    with c None f b show ?thesis
      by (auto simp: fair_def sizes_def all_shards_def pool_def mark_shard_eof_def stream_size_def)
  next
    case (Some mn)
    obtain m n where mn: "mn = (m, n)" by force
    let ?sh = "sh\<lparr>dsh_pipe := rd, bytes_read := u64_add (bytes_read sh) n\<rparr>"
    let ?d = "d\<lparr>pending_markers := heap_push \<lparr>pm_marker = m, pm_shard = ?sh\<rparr> (pending_markers d)\<rparr>"
    from r pb Some mn have ne: "\<not> image_eof d" and p: "process_pending_markers ops ?d = Inr d'"
      by (auto simp: drain_shard_def Let_def)
    have "stream_size ?sh = stream_size sh" using c Some mn by (intro stream_size_read) simp
    moreover have "fair ?d" using f ne by (auto simp: fair_def all_shards_def pool_def heap_push_def u64_add_lt)
    moreover have "sizes ?d = add_mset (stream_size ?sh) (sizes d)"
      by (simp add: sizes_def all_shards_def pool_def heap_push_def)
    ultimately show ?thesis using process_pending_sizes [OF p] by simp
  qed
qed

lemma drain_all_loop_sizes:
  "drain_all_loop e ops fuel d = Inr d' \<Longrightarrow> fair d \<Longrightarrow> poll_ok fail e \<Longrightarrow>
   fair d' \<and> sizes d' = sizes d \<and> pool d' = []"
proof (induction fuel arbitrary: d)
  case (Suc fuel)
  from Suc.prems(1) obtain x d1 where g: "get_next_readable_shard e d = Inr (x, d1)" by auto
  note s = get_next_sizes [OF g Suc.prems(2,3)]
  show ?case
  proof (cases x)
    case None
    with Suc.prems(1) g s show ?thesis by auto
  next
    case (Some sh)
    with Suc.prems(1) g obtain d2 where d: "drain_shard e ops d1 sh = Inr d2" and rest: "drain_all_loop e ops fuel d2 = Inr d'"
      by auto
    from drain_shard_sizes [OF d] s Some Suc.IH [OF rest _ Suc.prems(3)] show ?thesis by simp
  qed
qed simp

lemma extract_image_sizes:
  assumes r: "extract_image e ops fuel st pipes = Inr (names, d)" and po: "poll_ok fail e"
  shows "image_mset bytes_read (mset (finished_shards d))
       = image_mset (\<lambda>p. length (avail p) mod 2 ^ 64) (mset (tl pipes))"
proof -
  from r obtain d0 d1 where n: "deserializer_new st (map dshard_new pipes) = Inr d0"
    and s: "drain_small_file_shard e ops fuel d0 = Inr (names, d1)" and a: "drain_all e ops fuel d1 = Inr d"
    by (auto simp: extract_image_def)
  from s obtain d' where "drain_small_loop e ops fuel d0 = Inr d'" "d1 = d'\<lparr>de_metadata := None\<rparr>"
    by (auto simp: drain_small_file_shard_def)
  then have same: "same_shards d0 d1" using drain_small_loop_keeps by fastforce
  from n have d0: "de_shards d0 = map dshard_new (tl pipes)" "readable_shards d0 = []" "pending_markers d0 = []"
    "finished_shards d0 = []" "\<not> image_eof d0" by (auto simp: deserializer_new_def map_tl)
  have "fair d1" using same d0 by (auto simp: fair_def all_shards_def pool_def dshard_new_def)
  moreover have "drain_all_loop e ops fuel d1 = Inr d" "image_eof d" using a by (auto simp: drain_all_def)
  ultimately have f: "fair d" "sizes d = sizes d1" "pool d = []" and "image_eof d"
    using drain_all_loop_sizes [OF _ _ po] by blast+
  then have "pending_markers d = []" by (simp add: fair_def)
  with f(3) have all: "all_shards d = mset (finished_shards d)" by (simp add: all_shards_def)
  have "image_mset bytes_read (mset (finished_shards d)) = sizes d"
    unfolding sizes_def all using f(1) by (intro image_mset_cong) (auto simp: fair_def all stream_size_ended)
  also have "\<dots> = image_mset (\<lambda>p. length (avail p) mod 2 ^ 64) (mset (tl pipes))"
    unfolding f(2) using same d0
    by (simp add: sizes_def all_shards_def pool_def image_mset.compositionality comp_def stream_size_def dshard_new_def flip: mset_map)
  finally show ?thesis .
qed

end

section \<open>The stores of the program\<close>

lemma fs_write_exact: "fs_write st f r n = Inr (st', f', r') \<Longrightarrow> n \<le> length (avail r) \<and> avail r' = drop n (avail r)"
  by (auto simp: fs_write_def Let_def dest!: splice_all_Inr)

interpretation fs_exact: exact_writes fs_ops
  by unfold_locales (auto simp: fs_ops_def dest: fs_write_exact)

lemma par_write_loop_exact:
  "par_write_loop st f r n = Inr (st', r') \<Longrightarrow> n \<le> length (avail r) \<and> avail r' = drop n (avail r)"
proof (induction st f r n arbitrary: rule: par_write_loop.induct)
  case (1 st f r n)
  show ?case
  proof (cases "n > 0")
    case False
    with "1.prems" show ?thesis by (subst (asm) par_write_loop.simps) simp
  next
    case True
    let ?n = "min n CHUNK_SIZE"
    from "1.prems" True obtain st1 c0 c1 bs rd c where
      e: "(if pf_is_small f then Inr st else par_acquire st ?n) = Inr st1" "mm_with_capacity ?n = Inr c0"
        "mm_resize c0 ?n = Inr c1" "read_exact r ?n = Inr (bs, rd)" "mm_fill c1 0 bs = Inr c"
      and rest: "par_write_loop (fst (chan_send st1 (pf_to_small f) (pf_name f, Content c))) f rd (n - ?n) = Inr (st', r')"
      by (subst (asm) par_write_loop.simps) (simp add: Let_def split_paired_Ex, blast)
    have "?n \<le> length (avail r)" "rd = r\<lparr>avail := drop ?n (avail r)\<rparr>"
      using e(4) by (auto simp: read_exact_def split: if_splits)
    with "1.IH" [OF True refl e(1-4) refl e(5) rest] show ?thesis by auto
  qed
qed

interpretation par_exact: exact_writes par_ops
  by unfold_locales (auto simp: par_ops_def par_write_def dest: par_write_loop_exact)

lemma ov_exact: "exact_writes ops \<Longrightarrow> exact_writes (ov_ops ops)"
proof unfold_locales
  fix st :: "'a overlay" and f :: "'b ov_file" and r n st' f' r'
  assume x: "exact_writes ops" and w: "so_write (ov_ops ops) st f r n = Inr (st', f', r')"
  show "n \<le> length (avail r) \<and> avail r' = drop n (avail r)"
  proof (cases f)
    case (Overlayed p)
    with w show ?thesis by (auto simp: ov_ops_def ov_write_def dest!: splice_all_Inr)
  next
    case (Underlying g)
    with w show ?thesis by (auto simp: ov_ops_def ov_write_def dest!: exact_writes.write_exact [OF x])
  qed
qed

interpretation fs_over_exact: exact_writes "ov_ops fs_ops"
  by (rule ov_exact) unfold_locales

section \<open>The time of the small shard\<close>

lemma process_pending_small:
  "process_pending_markers ops d = Inr d' \<Longrightarrow> small_file_shard d' = small_file_shard d"
proof (induction ops d rule: process_pending_markers.induct)
  case (1 ops d)
  show ?case
  proof (cases "get_next_in_order_marker d")
    case None
    with "1.prems" show ?thesis by (subst (asm) process_pending_markers.simps) simp
  next
    case (Some x)
    obtain pm d1 where x: "x = (pm, d1)" by force
    with "1.prems" Some obtain d2 sh where
      p: "process_marker ops d1 (pm_marker pm) (pm_shard pm) = Inr (d2, sh)" and
      r: "process_pending_markers ops (d2\<lparr>de_seq := u64_add (de_seq d2) 1, de_shards := de_shards d2 @ [sh]\<rparr>) = Inr d'"
      by (subst (asm) process_pending_markers.simps) auto
    have "small_file_shard d2 = small_file_shard d1"
      using p by (auto simp: process_marker_def mark_image_eof_def dest: select_img_file_keeps
          split: option.splits body.splits bool.splits)
    moreover have "small_file_shard d1 = small_file_shard d"
      using Some x get_next_in_order_marker_Some [of d pm d1] by auto
    ultimately show ?thesis using "1.IH" [OF Some x [symmetric] p refl r] by simp
  qed
qed

lemma drain_shard_small: "drain_shard e ops d sh = Inr d' \<Longrightarrow> small_file_shard d' = small_file_shard d"
  by (auto simp: drain_shard_def Let_def dest!: process_pending_small split: option.splits)

lemma get_next_small: "get_next_readable_shard e d = Inr (x, d') \<Longrightarrow> small_file_shard d' = small_file_shard d"
  by (auto simp: get_next_readable_shard_def Let_def case_prod_unfold split: if_splits)

lemma drain_all_loop_small: "drain_all_loop e ops fuel d = Inr d' \<Longrightarrow> small_file_shard d' = small_file_shard d"
proof (induction fuel arbitrary: d)
  case (Suc fuel)
  then obtain x d1 where g: "get_next_readable_shard e d = Inr (x, d1)" by auto
  show ?case
  proof (cases x)
    case None
    with Suc.prems g get_next_small [OF g] show ?thesis by auto
  next
    case (Some sh)
    with Suc.prems g obtain d2 where d: "drain_shard e ops d1 sh = Inr d2" "drain_all_loop e ops fuel d2 = Inr d'"
      by auto
    from Suc.IH [OF d(2)] drain_shard_small [OF d(1)] get_next_small [OF g] show ?thesis by simp
  qed
qed simp

lemma drain_small_loop_time:
  "drain_small_loop e ops fuel d = Inr d' \<Longrightarrow>
   transfer_millis (small_file_shard d') = transfer_millis (small_file_shard d)"
proof (induction fuel arbitrary: d)
  case (Suc fuel)
  then obtain x rd where pb: "pb_read_next (pb_dec e) (dsh_pipe (small_file_shard d)) = Inr (x, rd)" by auto
  show ?case
  proof (cases x)
    case None
    with Suc.prems pb show ?thesis by (auto simp: Let_def)
  next
    case (Some mn)
    obtain m n where "mn = (m, n)" by force
    with Suc.prems pb Some obtain d1 where
      p: "process_small_file_marker e ops (d\<lparr>small_file_shard := (small_file_shard d)
            \<lparr>dsh_pipe := rd, bytes_read := u64_add (bytes_read (small_file_shard d)) n\<rparr>\<rparr>) m = Inr d1"
      and rest: "drain_small_loop e ops fuel (d1\<lparr>small_file_seq := u64_add (small_file_seq d1) 1\<rparr>) = Inr d'"
      by (auto simp: Let_def)
    have "transfer_millis (small_file_shard d1) = transfer_millis (small_file_shard d)"
      using p by (auto simp: process_small_file_marker_def Let_def dest: select_img_file_keeps
          split: option.splits body.splits bool.splits if_splits)
    with Suc.IH [OF rest] show ?thesis by simp
  qed
qed simp

text \<open>Only \<open>mark_shard_eof\<close> sets the time of a shard, and it is not called for the small one.\<close>

lemma small_shard_untimed:
  assumes "extract_image e ops fuel st pipes = Inr (names, d)"
  shows "transfer_millis (small_file_shard d) = 0"
proof -
  from assms obtain d0 d1 d2 where n: "deserializer_new st (map dshard_new pipes) = Inr d0"
    and s: "drain_small_loop e ops fuel d0 = Inr d1" and a: "drain_all_loop e ops fuel d2 = Inr d"
    and d2: "d2 = d1\<lparr>de_metadata := None\<rparr>"
    by (auto simp: extract_image_def drain_small_file_shard_def drain_all_def)
  from n have "transfer_millis (small_file_shard d0) = 0"
    by (cases pipes) (auto simp: deserializer_new_def dshard_new_def)
  with drain_small_loop_time [OF s] drain_all_loop_small [OF a] d2 show ?thesis by simp
qed

section \<open>Both ends agree\<close>

text \<open>C22: the statistics of the two ends agree. When the capture of an image and its extraction to disk both
  return, the sizes that the extraction reports for the shards of large files are, shard by shard,
  the sizes that the capture has reported for them, and both are the lengths of the streams
  (modulo 2^64), however the kernel schedules the shards and however it splits the copies. The small
  shard is always reported with a duration of 0: its end is not timed.\<close>

theorem statistics_agree:
  assumes cap: "capture_events k (map (\<lambda>(fd, p). shard_new fd p) shard_pipes) c es = Inr s"
    and fresh: "\<forall>x \<in> set shard_pipes. written (snd x) = []"
    and ext: "extract_image e (ov_ops fs_ops) fuel st (small # pipes) = Inr (names, d)" and poll: "poll_ok fail e"
    and pipes: "mset pipes = mset (map pipe_of (shards s))"
  shows "image_mset st_size (extract_stats d)
       = add_mset (bytes_read (small_file_shard d)) (image_mset bytes_written (mset (shards s)))
    \<and> (\<forall>sh \<in> set (small_shard s # shards s). bytes_written sh = length (written (sh_pipe sh)) mod 2 ^ 64)
    \<and> \<lparr>st_size = bytes_read (small_file_shard d), transfer_duration_millis = 0\<rparr> \<in># extract_stats d"
proof (intro conjI)
  have "\<forall>sh \<in> set (map (\<lambda>(fd, p). shard_new fd p) shard_pipes). counted sh"
    using fresh by (auto simp: counted_def shard_new_def)
  from capture_events_tallied [OF cap this]
  show c: "\<forall>sh \<in> set (small_shard s # shards s). bytes_written sh = length (written (sh_pipe sh)) mod 2 ^ 64"
    unfolding counted_def by blast
  have "image_mset (\<lambda>p. length (avail p) mod 2 ^ 64) (mset pipes) = image_mset bytes_written (mset (shards s))"
    unfolding pipes using c
    by (simp add: image_mset.compositionality comp_def pipe_of_def flip: mset_map) (intro arg_cong [of _ _ mset] map_cong, simp_all)
  with fs_over_exact.extract_image_sizes [OF ext poll]
  show "image_mset st_size (extract_stats d)
       = add_mset (bytes_read (small_file_shard d)) (image_mset bytes_written (mset (shards s)))"
    by (simp add: extract_stats_def image_mset.compositionality comp_def)
  show "\<lparr>st_size = bytes_read (small_file_shard d), transfer_duration_millis = 0\<rparr> \<in># extract_stats d"
    using small_shard_untimed [OF ext] by (simp add: extract_stats_def)
qed

theorem statistics_agree_witness:
  "\<exists>s names (d :: (fs_store overlay, fs_file ov_file) deser). capture_events demo_cenv demo_shards 64 demo_run = Inr s
    \<and> extract_image demo_denv (ov_ops fs_ops) 100 (overlay_new demo_disk (\<lambda>_ _. 3))
        (pipe_of (small_shard s) # map pipe_of (shards s)) = Inr (names, d)
    \<and> image_mset st_size (extract_stats d)
       = add_mset (bytes_read (small_file_shard d)) (image_mset bytes_written (mset (shards s)))"
proof -
  obtain s where s: "capture_events demo_cenv demo_shards 64 demo_run = Inr s" using demo_captured by blast
  have "\<exists>st. drain_shards_into_img_store demo_denv fs_ops 100 (\<lambda>_ _. 3) demo_disk
      (pipe_of (small_shard s) # map pipe_of (shards s)) [] = Inr st
    \<and> (\<forall>f \<in> fst ` set demo_run.
         files (underlying st) (path_join (images_dir demo_disk) f) = Some (file_content f demo_run))"
    by (rule drain_shards_returns [OF s demo_shards_ok(3) demo_run_fits demo_wf_run demo_names_ok
          demo_image_fits [folded demo_shards_ok(4)] demo_codec demo_poll_ok demo_json])
       (simp_all add: demo_run_def plain_name_def disk_works_def demo_disk_def)
  then obtain names and d :: "(fs_store overlay, fs_file ov_file) deser" where
    d: "extract_image demo_denv (ov_ops fs_ops) 100 (overlay_new demo_disk (\<lambda>_ _. 3))
      (pipe_of (small_shard s) # map pipe_of (shards s)) = Inr (names, d)"
    by (auto simp: drain_shards_into_img_store_def)
  have shs: "demo_shards = map (\<lambda>(fd, p). shard_new fd p) (map (\<lambda>fd. (fd, demo_pipe)) [3, 4, 5])"
    by (simp add: demo_shards_def demo_pipe_def)
  have "\<forall>x \<in> set (map (\<lambda>fd. (fd :: int, demo_pipe)) [3, 4, 5]). written (snd x) = []" by (simp add: demo_pipe_def)
  from statistics_agree [OF s [unfolded shs] this d demo_poll_ok refl]
  have "image_mset st_size (extract_stats d)
       = add_mset (bytes_read (small_file_shard d)) (image_mset bytes_written (mset (shards s)))" by (rule conjunct1)
  from conjI [OF s conjI [OF d this]] show ?thesis by (intro exI)
qed

end
