(* ===== verification/Live_Migration.thy ===== *)
theory Live_Migration
  imports Extract_Stats
begin

text \<open>
  Live migration: the shards of a capture are the shards of an extraction that runs at the same time,
  the case the comment in \<open>get_next_readable_shard\<close> speaks of. Pipe \<open>0\<close> is the shard of small files.
  The capture writes its streams in some order and closes the pipes when it exits; a pipe holds a
  bounded number of bytes, and a write to a full one waits. The extraction reads the small shard up to
  its end (\<open>drain_small_file_shard\<close>) before it touches another one (\<open>drain_all\<close>).
\<close>

section \<open>The two processes and the pipes between them\<close>

type_synonym pipe_write = "nat \<times> byte list"    \<comment> \<open>the pipe, and what is written to it\<close>

record live =
  lv_todo :: "pipe_write list"          \<comment> \<open>what the capture has still to write, in its order\<close>
  lv_pipes :: "nat \<Rightarrow> byte list"        \<comment> \<open>written and not read yet\<close>
  lv_ended :: bool                      \<comment> \<open>the capture has exited: the pipes are closed\<close>
  lv_small_read :: bool                 \<comment> \<open>\<open>drain_small_file_shard\<close> has returned\<close>
  lv_read :: "nat \<Rightarrow> byte list"         \<comment> \<open>what the extraction has got\<close>

definition live_start :: "pipe_write list \<Rightarrow> live" where
  "live_start ws = \<lparr>lv_todo = ws, lv_pipes = (\<lambda>_. []), lv_ended = False, lv_small_read = False, lv_read = (\<lambda>_. [])\<rparr>"

definition read_pipe :: "nat \<Rightarrow> nat \<Rightarrow> live \<Rightarrow> live" where
  "read_pipe j n t =
     t\<lparr>lv_pipes := (lv_pipes t)(j := drop n (lv_pipes t j)), lv_read := (lv_read t)(j := lv_read t j @ take n (lv_pipes t j))\<rparr>"

inductive live_step :: "(nat \<Rightarrow> nat) \<Rightarrow> live \<Rightarrow> live \<Rightarrow> bool" for caps where
  writes: "lv_todo t = (j, bs) # ws \<Longrightarrow> 0 < n \<Longrightarrow> n \<le> length bs \<Longrightarrow> length (lv_pipes t j) + n \<le> caps j \<Longrightarrow>
    live_step caps t (t\<lparr>lv_todo := (j, drop n bs) # ws, lv_pipes := (lv_pipes t)(j := lv_pipes t j @ take n bs)\<rparr>)"
| written: "lv_todo t = (j, []) # ws \<Longrightarrow> live_step caps t (t\<lparr>lv_todo := ws\<rparr>)"
| exits: "lv_todo t = [] \<Longrightarrow> live_step caps t (t\<lparr>lv_ended := True\<rparr>)"
| reads_small: "\<not> lv_small_read t \<Longrightarrow> 0 < n \<Longrightarrow> n \<le> length (lv_pipes t 0) \<Longrightarrow> live_step caps t (read_pipe 0 n t)"
| small_eof: "\<not> lv_small_read t \<Longrightarrow> lv_ended t \<Longrightarrow> lv_pipes t 0 = [] \<Longrightarrow> live_step caps t (t\<lparr>lv_small_read := True\<rparr>)"
| reads_large: "lv_small_read t \<Longrightarrow> 0 < j \<Longrightarrow> 0 < n \<Longrightarrow> n \<le> length (lv_pipes t j) \<Longrightarrow> live_step caps t (read_pipe j n t)"

text \<open>The model of the deserializer reads that way: the small shard to its end, and no other shard.\<close>

lemma drain_small_reads_all:
  "drain_small_loop e ops fuel d = Inr d' \<Longrightarrow>
   avail (dsh_pipe (small_file_shard d')) = [] \<and> de_shards d' = de_shards d \<and> readable_shards d' = readable_shards d"
proof (induction fuel arbitrary: d)
  case (Suc fuel)
  note keeps = drain_small_loop_keeps [OF Suc.prems]
  from Suc.prems obtain x rd where pb: "pb_read_next (pb_dec e) (dsh_pipe (small_file_shard d)) = Inr (x, rd)" by auto
  show ?case
  proof (cases x)
    case None
    with Suc.prems pb pb_read_next_consumes [OF pb] keeps show ?thesis by (auto simp: Let_def)
  next
    case (Some mn)
    obtain m n where "mn = (m, n)" by force
    with Suc.prems pb Some obtain d1 where
      "drain_small_loop e ops fuel (d1\<lparr>small_file_seq := u64_add (small_file_seq d1) 1\<rparr>) = Inr d'"
      by (auto simp: Let_def)
    from Suc.IH [OF this] keeps show ?thesis by blast
  qed
qed simp

section \<open>Where the bytes are\<close>

definition to_pipe :: "pipe_write list \<Rightarrow> nat \<Rightarrow> byte list" where
  "to_pipe ws j = concat (map snd (filter (\<lambda>w. fst w = j) ws))"

lemma to_pipe_simps [simp]:
  "to_pipe [] j = []" "to_pipe ((i, bs) # ws) j = (if i = j then bs else []) @ to_pipe ws j"
  by (simp_all add: to_pipe_def)

definition live_inv :: "(nat \<Rightarrow> nat) \<Rightarrow> (nat \<Rightarrow> byte list) \<Rightarrow> live \<Rightarrow> bool" where
  "live_inv caps stream t \<longleftrightarrow>
     (\<forall>j. lv_read t j @ lv_pipes t j @ to_pipe (lv_todo t) j = stream j)
     \<and> (\<forall>j. length (lv_pipes t j) \<le> caps j)
     \<and> (lv_ended t \<longrightarrow> lv_todo t = []) \<and> (lv_small_read t \<longrightarrow> lv_ended t)
     \<and> (\<not> lv_small_read t \<longrightarrow> (\<forall>j > 0. lv_read t j = []))
     \<and> (lv_todo t = [] \<longrightarrow> (\<forall>j > 0. length (stream j) \<le> caps j))"

lemma live_invD:
  assumes "live_inv caps stream t"
  shows "lv_read t j @ lv_pipes t j @ to_pipe (lv_todo t) j = stream j" "length (lv_pipes t j) \<le> caps j"
  using assms by (simp_all add: live_inv_def)

lemma live_inv_start: "(\<And>j. to_pipe ws j = stream j) \<Longrightarrow> live_inv caps stream (live_start ws)"
proof -
  assume eq: "\<And>j. to_pipe ws j = stream j"
  have "ws = [] \<Longrightarrow> stream j = []" for j using eq [of j] by auto
  then show ?thesis using eq by (auto simp: live_inv_def live_start_def)
qed

lemma read_pipe_simps [simp]:
  "lv_todo (read_pipe j n t) = lv_todo t" "lv_ended (read_pipe j n t) = lv_ended t"
  "lv_small_read (read_pipe j n t) = lv_small_read t" "i \<noteq> j \<Longrightarrow> lv_read (read_pipe j n t) i = lv_read t i"
  by (simp_all add: read_pipe_def)

lemma read_pipe_bytes:
  "lv_read (read_pipe j n t) i @ lv_pipes (read_pipe j n t) i = lv_read t i @ lv_pipes t i"
  "length (lv_pipes (read_pipe j n t) i) \<le> length (lv_pipes t i)"
  by (simp_all add: read_pipe_def)

lemma live_inv_read:
  assumes i: "live_inv caps stream t" and j: "lv_small_read t \<or> j = 0"
  shows "live_inv caps stream (read_pipe j n t)"
proof -
  have "lv_read (read_pipe j n t) i @ lv_pipes (read_pipe j n t) i @ to_pipe (lv_todo t) i = stream i" for i
    using live_invD(1) [OF i, of i] read_pipe_bytes(1) [of j n t i] by (metis append_assoc)
  moreover have "length (lv_pipes (read_pipe j n t) i) \<le> caps i" for i
    using live_invD(2) [OF i, of i] read_pipe_bytes(2) [of j n t i] by (rule order_trans [rotated])
  ultimately show ?thesis using i j by (auto simp: live_inv_def)
qed

lemma live_inv_step: "live_step caps t t' \<Longrightarrow> live_inv caps stream t \<Longrightarrow> live_inv caps stream t'"
proof (induction rule: live_step.induct)
  case (writes t j bs ws n)
  have "lv_read t i @ (if i = j then lv_pipes t j @ take n bs else lv_pipes t i) @ (if j = i then drop n bs else [])
      @ to_pipe ws i = stream i" for i
  proof -
    have "lv_read t i @ lv_pipes t i @ (if j = i then bs else []) @ to_pipe ws i = stream i"
      using writes by (simp add: live_inv_def)
    moreover have split: "take n bs @ drop n bs @ xs = bs @ xs" for xs by (metis append_assoc append_take_drop_id)
    ultimately show ?thesis by (cases "i = j") (simp_all add: split)
  qed
  with writes show ?case by (auto simp: live_inv_def)
next
  case (written t j ws)
  have eq: "lv_read t i @ lv_pipes t i @ to_pipe ws i = stream i" for i
    using written by (auto simp: live_inv_def)
  have "length (stream i) \<le> caps i" if "ws = []" "0 < i" for i
  proof -
    have "lv_read t i = []" using written that by (auto simp: live_inv_def)
    then have "stream i = lv_pipes t i" using eq [of i] that(1) by simp
    with live_invD(2) [OF written(2), of i] show ?thesis by simp
  qed
  with written eq show ?case by (auto simp: live_inv_def)
next
  case (exits t)
  then show ?case by (auto simp: live_inv_def)
next
  case (reads_small t n)
  then show ?case by (simp add: live_inv_read)
next
  case (small_eof t)
  then show ?case by (auto simp: live_inv_def)
next
  case (reads_large t j n)
  then show ?case by (simp add: live_inv_read)
qed

lemma live_inv_reach:
  "(live_step caps)\<^sup>*\<^sup>* t t' \<Longrightarrow> live_inv caps stream t \<Longrightarrow> live_inv caps stream t'"
  by (induction rule: rtranclp_induct) (auto dest: live_inv_step)

section \<open>Getting to the end\<close>

lemma live_can_end:
  assumes fits: "\<forall>j > 0. length (stream j) \<le> caps j" and small: "0 < caps 0"
  shows "live_inv caps stream t \<Longrightarrow> \<exists>t'. (live_step caps)\<^sup>*\<^sup>* t t' \<and> lv_ended t'"
proof (induction "sum_list (map (\<lambda>w. Suc (length (snd w))) (lv_todo t))" arbitrary: t rule: less_induct)
  case less
  have go: "\<exists>t'. (live_step caps)\<^sup>*\<^sup>* t t' \<and> lv_ended t'"
    if "(live_step caps)\<^sup>*\<^sup>* t u" "sum_list (map (\<lambda>w. Suc (length (snd w))) (lv_todo u))
        < sum_list (map (\<lambda>w. Suc (length (snd w))) (lv_todo t))" for u
    using less.hyps [OF that(2) live_inv_reach [OF that(1) less.prems]] that(1) by (meson rtranclp_trans)
  show ?case
  proof (cases "lv_todo t")
    case Nil
    then have "live_step caps t (t\<lparr>lv_ended := True\<rparr>)" by (rule live_step.exits)
    then show ?thesis by (intro exI [of _ "t\<lparr>lv_ended := True\<rparr>"]) auto
  next
    case (Cons w ws)
    obtain j bs where w: "w = (j, bs)" by force
    have put: "\<exists>t'. (live_step caps)\<^sup>*\<^sup>* t t' \<and> lv_ended t'"
      if u: "(live_step caps)\<^sup>*\<^sup>* t u" "lv_todo u = lv_todo t" "length (lv_pipes u j) < caps j" and ne: "bs \<noteq> []" for u
    proof -
      let ?u = "u\<lparr>lv_todo := (j, drop 1 bs) # ws, lv_pipes := (lv_pipes u)(j := lv_pipes u j @ take 1 bs)\<rparr>"
      have "live_step caps u ?u"
        by (rule live_step.writes) (use u ne Cons w in \<open>auto simp: Suc_le_eq\<close>)
      with u(1) have "(live_step caps)\<^sup>*\<^sup>* t ?u" by (rule rtranclp.rtrancl_into_rtrancl)
      then show ?thesis by (rule go) (use Cons w ne in \<open>simp add: length_greater_0_conv\<close>)
    qed
    show ?thesis
    proof (cases "bs = []")
      case True
      with Cons w have "live_step caps t (t\<lparr>lv_todo := ws\<rparr>)" by (intro live_step.written) simp
      then show ?thesis by (intro go [OF r_into_rtranclp]) (use Cons w in auto)
    next
      case ne: False
      have off: "\<not> lv_small_read t" using less.prems Cons by (auto simp: live_inv_def)
      show ?thesis
      proof (cases "length (lv_pipes t j) < caps j")
        case True
        then show ?thesis using put [of t] ne by simp
      next
        case False
        have "j = 0"
        proof (rule ccontr)
          assume "j \<noteq> 0"
          have "lv_read t j = []" using less.prems off \<open>j \<noteq> 0\<close> by (simp add: live_inv_def)
          then have "lv_pipes t j @ bs @ to_pipe ws j = stream j"
            using live_invD(1) [OF less.prems, of j] Cons w by simp
          then have "length (lv_pipes t j) + length bs \<le> caps j"
            using fits \<open>j \<noteq> 0\<close> by (metis add_leD1 append_assoc length_append neq0_conv)
          with False ne show False by (cases bs) auto
        qed
        let ?u = "read_pipe 0 1 t"
        have len: "0 < length (lv_pipes t 0)" using False small \<open>j = 0\<close> by auto
        then have "live_step caps t ?u" by (intro live_step.reads_small [OF off]) (simp_all add: Suc_le_eq)
        moreover have "length (lv_pipes ?u j) < caps j"
        proof -
          have "length (lv_pipes t 0) \<le> caps 0" using less.prems by (simp add: live_inv_def)
          then show ?thesis using len \<open>j = 0\<close> by (cases "lv_pipes t 0") (simp_all add: read_pipe_def)
        qed
        ultimately show ?thesis using put [of ?u] ne by auto
      qed
    qed
  qed
qed

section \<open>How long the streams are\<close>

lemma shard_from_length:
  "(\<Sum>j < n. length (shard_from enc j k L)) = (\<Sum>x \<leftarrow> enumerate k L. if fst (snd x) < n then length (item_bytes enc (fst x) (snd (snd x))) else 0)"
proof (induction L arbitrary: k)
  case (Cons x L)
  obtain i y where x: "x = (i, y)" by (cases x)
  have "(\<Sum>j < n. length (if i = j then item_bytes enc k y else [])) = (if i < n then length (item_bytes enc k y) else 0)"
    by (simp add: if_distrib [of length] sum.delta' cong: if_cong)
  with Cons x show ?case by (simp add: sum.distrib)
qed simp

lemma payloads_le_shards:
  assumes "\<forall>x \<in> set L. fst x < n"
  shows "(\<Sum>x \<leftarrow> L. length (snd (snd x))) \<le> (\<Sum>j < n. length (shard_from enc j k L))"
  using assms
proof (induction L arbitrary: k)
  case (Cons x L)
  obtain i y where x: "x = (i, y)" by (cases x)
  have "(\<Sum>x \<leftarrow> L. length (snd (snd x))) \<le> (\<Sum>j < n. length (shard_from enc j (Suc k) L))"
    using Cons.prems by (intro Cons.IH) simp
  then show ?case using Cons.prems x unfolding shard_from_length by (simp add: item_bytes_def)
qed simp

text \<open>The bytes the clients sent for large files.\<close>

definition large_bytes :: "cenv \<Rightarrow> drain_event list \<Rightarrow> nat" where
  "large_bytes k es = (\<Sum>e \<leftarrow> es. if small_name k (fst e) then 0 else length (snd e))"

lemma event_items_bytes:
  "0 < n \<Longrightarrow> (\<Sum>x \<leftarrow> event_items n cur e. length (snd x)) = length (snd e)"
proof -
  assume n: "0 < n"
  have "(\<Sum>x \<leftarrow> map data_item ds. length (snd x)) = length (concat ds)" for ds
    by (simp add: data_item_def comp_def length_concat)
  with n show ?thesis by (simp add: event_items_def concat_chop)
qed

lemma large_items_bytes:
  "0 < chunk_bytes k c \<Longrightarrow> (\<Sum>x \<leftarrow> large_items k c es. length (snd x)) = large_bytes k es"
proof -
  assume n: "0 < chunk_bytes k c"
  have "(\<Sum>x \<leftarrow> run_items (small_name k) (chunk_bytes k c) False cur es. length (snd x)) = large_bytes k es" for cur
    using n by (induction es arbitrary: cur) (simp_all add: large_bytes_def event_items_bytes)
  then show ?thesis by (simp add: large_items_def)
qed

lemma large_bytes_le_streams:
  assumes "capture_events k shs c es = Inr s" and "fresh_shards shs" and "run_fits k es"
  shows "large_bytes k es \<le> (\<Sum>j < length (shards s). length (written (sh_pipe (shards s ! j))))"
proof -
  obtain l where l: "logged k s l" "map snd (snd l) = large_items k c es"
    using capture_logged [OF assms] by auto
  have "0 < chunk_bytes k c" using assms(3) by (simp add: run_fits_def chunk_bytes_pos)
  from large_items_bytes [OF this, of es] have "large_bytes k es = (\<Sum>x \<leftarrow> map snd (snd l). length (snd x))"
    unfolding l(2) by (rule sym)
  then have "large_bytes k es = (\<Sum>x \<leftarrow> snd l. length (snd (snd x)))" by (simp add: comp_def)
  also have "\<dots> \<le> (\<Sum>j < length (shards s). length (shard_from (pb_enc k) j 0 (snd l)))"
    using l(1) by (intro payloads_le_shards) (auto simp: logged_def)
  also have "\<dots> = (\<Sum>j < length (shards s). length (written (sh_pipe (shards s ! j))))"
    using l(1) by (intro sum.cong) (simp_all add: logged_def)
  finally show ?thesis .
qed

section \<open>Properties\<close>

text \<open>The streams of a capture, the small shard first.\<close>

definition live_streams :: "serializer \<Rightarrow> nat \<Rightarrow> byte list" where
  "live_streams s j =
     (case j of 0 \<Rightarrow> written (sh_pipe (small_shard s))
      | Suc i \<Rightarrow> if i < length (shards s) then written (sh_pipe (shards s ! i)) else [])"


text \<open>Every order of the writes will do for the witness: stream after stream.\<close>

lemma to_pipe_each: "distinct js \<Longrightarrow> to_pipe (map (\<lambda>j. (j, f j)) js) i = (if i \<in> set js then f i else [])"
  by (induction js) auto


end
