(* ===== verification/Capture_Ends.thy ===== *)
theory Capture_Ends
  imports Termination Capture_Cmd Demo
begin

text \<open>
  The capture command ends on every finite input. Each round of its event loop takes a connection
  that was waiting, a request, a pipe or the data of one read away; \<open>input_left\<close> counts them.
  In between the serializer returns, whatever the kernel answers.
\<close>

section \<open>The serializer\<close>

text \<open>Pages have a size, and \<open>FIONREAD\<close> returns.\<close>

definition capture_env_ends :: "cenv \<Rightarrow> bool" where
  "capture_env_ends k \<longleftrightarrow> 0 < page_size k \<and> (\<forall>t fd. fion k t fd \<noteq> Inl Diverge) \<and> regex_doc (regexes k)"

lemma rmap_ends: "(\<And>x. ends (f x) (\<lambda>_. True)) \<Longrightarrow> ends (rmap f xs) (\<lambda>_. True)"
proof (induction xs)
  case (Cons x xs)
  then have "ends (rmap f xs) (\<lambda>_. True)" by simp
  then show ?case unfolding rmap.simps
    by (intro ends_bind [OF Cons.prems [of x]] ends_bind [where P = "\<lambda>_. True"]) simp_all
qed simp

lemma pb_write_ends: "ends (pb_write enc p m) (\<lambda>_. True)"
  unfolding pb_write_def Let_def
  by (intro ends_bind [where P = "\<lambda>_. True"]) (simp_all add: write_all_ends)

lemma put_chunk_ends: "ends (put_chunk k sm m data req sh) (\<lambda>_. True)"
  unfolding put_chunk_def Let_def
  by (intro ends_bind [OF pb_write_ends] ends_bind [where P = "\<lambda>_. True"])
     (auto split: option.split intro!: ends_bind [OF splice_all_ends] ends_bind [where P = "\<lambda>_. True"])

lemma refresh_ends: "capture_env_ends k \<Longrightarrow> ends (refresh_all_shard_remaining_space k t s) (\<lambda>_. True)"
  unfolding refresh_all_shard_remaining_space_def
proof (intro ends_bind [OF rmap_ends])
  fix sh
  assume "capture_env_ends k"
  then show "ends (refresh_remaining_space k t (pipe_capacity s) sh) (\<lambda>_. True)"
    by (cases "fion k t (sh_fd sh)") (auto simp: refresh_remaining_space_def capture_env_ends_def)
qed simp

lemma write_chunk_ends:
  assumes k: "capture_env_ends k"
  shows "ends (write_chunk k s m data sm) (\<lambda>_. True)"
proof (cases sm)
  case True
  then show ?thesis unfolding write_chunk_def Let_def
    by (auto intro!: ends_bind [OF put_chunk_ends])
next
  case False
  then show ?thesis unfolding write_chunk_def Let_def
    using refresh_ends [OF k] by (auto intro!: ends_bind [OF put_chunk_ends] ends_bind [where P = "\<lambda>_. True"])
qed

lemma emit_ends: "capture_env_ends k \<Longrightarrow> ends (emit k s b data sm) (\<lambda>_. True)"
  by (simp add: emit_def write_chunk_ends split: prod.split)

lemma drain_loop_ends:
  "capture_env_ends k \<Longrightarrow> r < 2 ^ 31 \<Longrightarrow> nat r \<le> fuel \<Longrightarrow> ends (drain_loop k fuel sm r s src) (\<lambda>_. True)"
proof (induction fuel arbitrary: r s src)
  case 0
  then show ?case by (subst drain_loop.simps) simp
next
  case (Suc fuel)
  define d where "d = min r (chunk_max_data_size k s)"
  show ?case
  proof (cases "0 < r")
    case False
    then show ?thesis by (subst drain_loop.simps) simp
  next
    case True
    then have d: "0 < d" "d \<le> r"
      using Suc.prems(1) by (auto simp: d_def chunk_max_data_size_def capture_env_ends_def)
    then have "i32 (r - d) = r - d" using Suc.prems(2) by (intro i32_small) auto
    with d Suc.prems have "ends (drain_loop k fuel sm (i32 (r - d)) s' src') (\<lambda>_. True)" for s' src'
      by (intro Suc.IH) auto
    with True show ?thesis
      by (subst drain_loop.simps)
         (auto simp: Let_def simp flip: d_def split: prod.split intro!: ends_bind [OF emit_ends [OF Suc.prems(1)]]
            ends_bind [where P = "\<lambda>_. True" and r = "unwrap y" for y])
  qed
qed

lemma drain_img_file_ends:
  assumes k: "capture_env_ends k" and len: "length bs < 2 ^ 31"
  shows "ends (drain_img_file k s (event_file (f, bs))) (\<lambda>_. True)"
proof -
  have r: "fionread (if_pipe (event_file (f, bs))) = Inr (int (length bs))"
    using len by (simp add: event_file_def fionread_def i32_small)
  have small: "\<exists>b. is_small_file (regexes k) g = Inr b" for g
    using k by (auto simp: capture_env_ends_def is_small_file_spec)
  have name: "ends (maybe_write_filename_marker k s g b) (\<lambda>_. True)" for s g b
    by (auto simp: maybe_write_filename_marker_def intro!: ends_bind [OF emit_ends [OF k]])
  have loop: "ends (drain_loop k (length bs) sm (int (length bs)) s src) (\<lambda>_. True)" for sm s src
    using len by (intro drain_loop_ends [OF k]) auto
  obtain b where b: "is_small_file (regexes k) (if_name (event_file (f, bs))) = Inr b" using small by blast
  show ?thesis
    unfolding drain_img_file_def r b rbind.simps Let_def nat_int
    by (intro ends_bind [OF name] ends_bind [OF loop])
       (auto split: prod.split intro!: ends_bind [OF emit_ends [OF k]] ends_bind [where P = "\<lambda>_. True"])
qed

section \<open>What is left to do\<close>

text \<open>An entry of the poller counts with what it can still ask for: a file with its end, a connection
  with its requests, each of which may add a file, and its end.\<close>

fun entry_weight :: "cap_poll_type \<Rightarrow> nat" where
  "entry_weight Cap_Listener = 0"
| "entry_weight (Cap_Client c) = Suc (2 * length (avail (sock_in c)))"
| "entry_weight (Cap_File _) = 1"

definition slab_weight :: "(nat \<times> nat \<times> cap_poll_type) list \<Rightarrow> nat" where
  "slab_weight al = sum_list (map (\<lambda>(_, _, obj). entry_weight obj) al)"

definition conn_weight :: "capture_params \<Rightarrow> nat \<Rightarrow> nat" where
  "conn_weight cp i = (case cp_accept cp i of Inl _ \<Rightarrow> 0 | Inr (_, c) \<Rightarrow> Suc (entry_weight (Cap_Client c)))"

text \<open>At most \<open>A\<close> connections come, and after \<open>B\<close> reads every pipe is at its end.\<close>

definition finite_input :: "nat \<Rightarrow> nat \<Rightarrow> capture_params \<Rightarrow> bool" where
  "finite_input A B cp \<longleftrightarrow>
     slab_ok (cp_poll cp) \<and> (\<forall>i. wait_ready (cp_poll cp) i \<noteq> Inl Diverge)
     \<and> (\<forall>i. cp_accept cp i \<noteq> Inl Diverge) \<and> (\<forall>i \<ge> A. \<exists>e. cp_accept cp i = Inl e)
     \<and> (\<forall>i. length (cp_pipe cp i) < 2 ^ 31) \<and> (\<forall>i \<ge> B. cp_pipe cp i = [])"

definition input_left :: "nat \<Rightarrow> nat \<Rightarrow> capture_params \<Rightarrow> capture_state \<Rightarrow> nat" where
  "input_left A B cp st =
     (\<Sum>i \<in> {cs_accepts st..<A}. conn_weight cp i) + slab_weight (slab (cs_poller st))
     + (B - length (cs_events st))"

lemma slab_weight_update:
  "map_of al k = None \<Longrightarrow> slab_weight (AList.update k (fd, v) al) = slab_weight al + entry_weight v"
  by (induction al) (auto simp: slab_weight_def)

lemma slab_weight_set:
  "map_of al k = Some (fd', u) \<Longrightarrow>
   slab_weight (AList.update k (fd, v) al) + entry_weight u = slab_weight al + entry_weight v"
  by (induction al) (auto simp: slab_weight_def split: if_splits)

lemma slab_weight_delete:
  "map_of al k = Some (fd, u) \<Longrightarrow> slab_weight (AList.delete k al) + entry_weight u \<le> slab_weight al"
proof (induction al)
  case (Cons x al)
  have "slab_weight (AList.delete k al) \<le> slab_weight al"
    by (induction al) (auto simp: slab_weight_def)
  with Cons show ?case by (cases x) (auto simp: slab_weight_def split: if_splits)
qed simp

lemma poller_add_weight:
  "poller_add pe p fd obj = Inr (p', k) \<Longrightarrow> slab_ok pe \<Longrightarrow>
   slab_weight (slab p') = slab_weight (slab p) + entry_weight obj"
  by (auto simp: poller_add_def Let_def slab_weight_update vacant_key_free)

lemma poller_remove_weight:
  "poller_remove pe p k = Inr (p', obj) \<Longrightarrow> slab_weight (slab p') + entry_weight obj \<le> slab_weight (slab p)"
proof -
  assume "poller_remove pe p k = Inr (p', obj)"
  then obtain fd where "map_of (slab p) k = Some (fd, obj)" "slab p' = AList.delete k (slab p)"
    by (auto simp: poller_remove_def split: option.splits)
  with slab_weight_delete show ?thesis by simp
qed

lemma poller_set_weight:
  "registered p k = Some u \<Longrightarrow>
   slab_weight (slab (poller_set p k v)) + entry_weight u = slab_weight (slab p) + entry_weight v"
  by (auto simp: registered_def poller_set_def dest: slab_weight_set [where v = v] split: option.splits)

lemma poller_ends:
  "ends (poller_add pe p fd obj) (\<lambda>_. True)" "ends (poller_remove pe p k) (\<lambda>_. True)"
  "(\<forall>i. wait_ready pe i \<noteq> Inl Diverge) \<Longrightarrow> ends (poller_poll pe p c) (\<lambda>_. True)"
proof -
  show "ends (poller_add pe p fd obj) (\<lambda>_. True)"
    by (auto simp: poller_add_def Let_def ends_iff rbind_Inl_iff ensure_def)
  show "ends (poller_remove pe p k) (\<lambda>_. True)"
    by (auto simp: poller_remove_def ends_iff rbind_Inl_iff ensure_def split: option.splits)
  assume w: "\<forall>i. wait_ready pe i \<noteq> Inl Diverge"
  then have "(if pending_events p = [] then rbind (wait_ready pe (waits p)) (\<lambda>ready.
      Inr (p\<lparr>pending_events := take c ready, waits := Suc (waits p)\<rparr>)) else Inr p) \<noteq> Inl Diverge"
    by (auto simp: rbind_Inl_iff)
  then show "ends (poller_poll pe p c) (\<lambda>_. True)"
    by (auto simp: poller_poll_def Let_def ends_iff rbind_Inl_iff split: option.splits if_splits)
qed

lemma read_request_weight:
  "read_next_file_request ce c = Inr (req, c') \<Longrightarrow>
   length (avail (sock_in c')) + (if req = None then 0 else 1) \<le> length (avail (sock_in c))"
  by (auto simp: read_next_file_request_def dest!: pb_read_next_consumes split: option.splits)

lemma recv_pipe_weight: "recv_pipe c = Inr (fd, c') \<Longrightarrow> sock_in c' = sock_in c"
  by (auto simp: recv_pipe_def recv_fd_def split: list.splits)

lemma recv_pipe_ends: "ends (recv_pipe c) (\<lambda>_. True)"
  unfolding recv_pipe_def
  by (intro ends_bind [where P = "\<lambda>_. True"])
     (auto simp: recv_fd_def unix_pipe_new_def split: list.split fd_obj.split prod.split)

lemma read_request_ends: "ends (read_next_file_request ce c) (\<lambda>_. True)"
  using pb_read_next_ends by (auto simp: read_next_file_request_def ends_iff rbind_Inl_iff)

lemma capture_client_ends: "ends (capture_client cp key c st) (\<lambda>_. True)"
  unfolding capture_client_def Let_def cap_add_file_def
  by (intro ends_bind [OF read_request_ends])
     (auto split: prod.split option.split intro!: ends_bind [OF poller_ends(1)] ends_bind [OF poller_ends(2)]
       ends_bind [OF recv_pipe_ends])

lemma capture_client_less:
  assumes r: "capture_client cp key c st = Inr st'" and c: "registered (cs_poller st) key = Some (Cap_Client c)"
    and ok: "slab_ok (cp_poll cp)"
  shows "slab_weight (slab (cs_poller st')) < slab_weight (slab (cs_poller st))
    \<and> cs_accepts st' = cs_accepts st \<and> cs_events st' = cs_events st"
proof -
  from r obtain req c1 where q: "read_next_file_request (cp_codec cp) c = Inr (req, c1)"
    by (auto simp: capture_client_def)
  note w = read_request_weight [OF q]
  let ?p1 = "poller_set (cs_poller st) key (Cap_Client c1)"
  have w1: "slab_weight (slab ?p1) + entry_weight (Cap_Client c) = slab_weight (slab (cs_poller st)) + entry_weight (Cap_Client c1)"
    by (rule poller_set_weight [OF c])
  have at1: "registered ?p1 key = Some (Cap_Client c1)" using c by (simp add: poller_set_registered)
  show ?thesis
  proof (cases req)
    case None
    with r q obtain p obj where rem: "poller_remove (cp_poll cp) ?p1 key = Inr (p, obj)"
      and st': "st' = st\<lparr>cs_poller := p\<rparr>" by (auto simp: capture_client_def Let_def)
    have "obj = Cap_Client c1" using poller_remove_Inr [OF rem] at1 by simp
    with poller_remove_weight [OF rem] w w1 None show ?thesis by (simp add: st')
  next
    case (Some f)
    show ?thesis
    proof (cases "f = ''stop-listener''")
      case True
      with r q Some obtain p obj where rem: "poller_remove (cp_poll cp) ?p1 (cs_listener_key st) = Inr (p, obj)"
        and st': "st' = st\<lparr>cs_poller := p, cs_stops := Suc (cs_stops st)\<rparr>"
        by (auto simp: capture_client_def Let_def)
      from poller_remove_weight [OF rem] w w1 Some show ?thesis by (simp add: st')
    next
      case False
      with r q Some obtain fd c2 p k where rp: "recv_pipe c1 = Inr (fd, c2)"
        and add: "poller_add (cp_poll cp) (poller_set ?p1 key (Cap_Client c2)) fd (Cap_File f) = Inr (p, k)"
        and st': "slab (cs_poller st') = slab p" "cs_accepts st' = cs_accepts st" "cs_events st' = cs_events st"
        by (auto simp: capture_client_def Let_def cap_add_file_def split: if_splits)
      have "slab_weight (slab (poller_set ?p1 key (Cap_Client c2))) = slab_weight (slab ?p1)"
        using poller_set_weight [OF at1, of "Cap_Client c2"] recv_pipe_weight [OF rp] by simp
      with poller_add_weight [OF add ok] w w1 Some st' show ?thesis by simp
    qed
  qed
qed

lemma capture_file_ends:
  assumes "capture_env_ends k" and "\<forall>i. length (cp_pipe cp i) < 2 ^ 31"
  shows "ends (capture_file k cp key f st) (\<lambda>_. True)"
  unfolding capture_file_def Let_def
  by (intro ends_bind [OF drain_img_file_ends [OF assms(1)]])
     (use assms(2) in \<open>auto split: prod.split intro!: ends_bind [OF poller_ends(2)]\<close>)

lemma capture_file_less:
  assumes r: "capture_file k cp key f st = Inr st'" and c: "registered (cs_poller st) key = Some (Cap_File f)"
    and ok: "finite_input A B cp"
  shows "slab_weight (slab (cs_poller st')) + (B - length (cs_events st'))
      < slab_weight (slab (cs_poller st)) + (B - length (cs_events st)) \<and> cs_accepts st' = cs_accepts st"
proof -
  let ?bs = "cp_pipe cp (length (cs_events st))"
  from r obtain again ser x where d: "drain_img_file k (cs_ser st) (event_file (f, ?bs)) = Inr (again, ser, x)"
    by (auto simp: capture_file_def Let_def)
  let ?st1 = "st\<lparr>cs_ser := ser, cs_events := cs_events st @ [(f, ?bs)]\<rparr>"
  show ?thesis
  proof (cases again)
    case True
    with drain_more [OF d] ok have "?bs \<noteq> []" by (simp add: finite_input_def)
    with ok have "length (cs_events st) < B" by (meson finite_input_def not_le)
    moreover have "st' = ?st1" using r d True by (simp add: capture_file_def Let_def)
    ultimately show ?thesis by simp
  next
    case False
    with r d obtain p obj where rem: "poller_remove (cp_poll cp) (cs_poller st) key = Inr (p, obj)"
      and st': "st' = ?st1\<lparr>cs_poller := p\<rparr>" by (auto simp: capture_file_def Let_def)
    have "obj = Cap_File f" using poller_remove_Inr [OF rem] c by simp
    with poller_remove_weight [OF rem] show ?thesis by (simp add: st')
  qed
qed

lemma capture_loop_ends:
  assumes k: "capture_env_ends k" and ok: "finite_input A B cp"
  shows "input_left A B cp st < fuel \<Longrightarrow> ends (capture_loop k cp fuel st) (\<lambda>_. True)"
proof (induction fuel arbitrary: st)
  case (Suc fuel)
  have wait: "\<forall>i. wait_ready (cp_poll cp) i \<noteq> Inl Diverge" using ok by (simp add: finite_input_def)
  have later: "ends (capture_loop k cp fuel st2) (\<lambda>_. True)" if "input_left A B cp st2 < input_left A B cp st" for st2
    using Suc.IH [of st2] Suc.prems that by simp
  show ?case
    unfolding capture_loop.simps
  proof (rule ends_bind [OF poller_ends(3) [OF wait]])
    fix x
    assume pl0: "poller_poll (cp_poll cp) (cs_poller st) 16 = Inr x"
    obtain obj p where x: "x = (obj, p)" by force
    note pl = pl0 [unfolded x]
    let ?st1 = "st\<lparr>cs_poller := p\<rparr>"
    have sl: "slab p = slab (cs_poller st)"
      using pl poller_poll_None [of _ _ _ p] poller_poll_Inr [of _ _ _ _ _ p] by (cases obj) auto
    show "ends (case x of (obj, p) \<Rightarrow> let st1 = st\<lparr>cs_poller := p\<rparr> in
       case obj of
         None \<Rightarrow> Inr st1
       | Some (key, Cap_Listener) \<Rightarrow>
           rbind (cp_accept cp (cs_accepts st1)) (\<lambda>(fd, conn).
           rbind (poller_add (cp_poll cp) (cs_poller st1) fd (Cap_Client conn)) (\<lambda>(p', _).
             capture_loop k cp fuel (st1\<lparr>cs_poller := p', cs_accepts := Suc (cs_accepts st1)\<rparr>)))
       | Some (key, Cap_Client client) \<Rightarrow>
           rbind (capture_client cp key client st1) (\<lambda>st2. capture_loop k cp fuel st2)
       | Some (key, Cap_File filename) \<Rightarrow>
           rbind (capture_file k cp key filename st1) (\<lambda>st2. capture_loop k cp fuel st2)) (\<lambda>_. True)"
    proof (cases obj)
      case None
      then show ?thesis by (simp add: x)
    next
      case (Some ko)
      obtain key o' where ko: "ko = (key, o')" by force
      have at: "registered (cs_poller ?st1) key = Some o'"
        using poller_poll_Inr [OF pl [unfolded Some ko]] by simp
      have same: "input_left A B cp ?st1 = input_left A B cp st" by (simp add: input_left_def sl)
      show ?thesis
      proof (cases o')
        case Cap_Listener
        have "ends (rbind (poller_add (cp_poll cp) p fd (Cap_Client conn)) (\<lambda>(p', _).
             capture_loop k cp fuel (?st1\<lparr>cs_poller := p', cs_accepts := Suc (cs_accepts st)\<rparr>))) (\<lambda>_. True)"
          if acc: "cp_accept cp (cs_accepts st) = Inr (fd, conn)" for fd conn
        proof (rule ends_bind [OF poller_ends(1)])
          fix y
          assume "poller_add (cp_poll cp) p fd (Cap_Client conn) = Inr y"
          then obtain p' k' where y: "y = (p', k')" and add: "poller_add (cp_poll cp) p fd (Cap_Client conn) = Inr (p', k')"
            by (cases y) auto
          have lt: "cs_accepts st < A" using ok acc by (force simp: finite_input_def not_le [symmetric])
          then have "(\<Sum>i \<in> {cs_accepts st..<A}. conn_weight cp i)
              = conn_weight cp (cs_accepts st) + (\<Sum>i \<in> {Suc (cs_accepts st)..<A}. conn_weight cp i)"
            by (rule sum.atLeast_Suc_lessThan)
          moreover have "slab_weight (slab p') = slab_weight (slab p) + entry_weight (Cap_Client conn)"
            using poller_add_weight [OF add] ok by (simp add: finite_input_def)
          ultimately have "input_left A B cp (?st1\<lparr>cs_poller := p', cs_accepts := Suc (cs_accepts st)\<rparr>) < input_left A B cp st"
            using acc sl by (simp add: input_left_def conn_weight_def)
          from later [OF this] show "ends (case y of (p', _) \<Rightarrow>
             capture_loop k cp fuel (?st1\<lparr>cs_poller := p', cs_accepts := Suc (cs_accepts st)\<rparr>)) (\<lambda>_. True)"
            by (simp add: y)
        qed
        moreover have "cp_accept cp (cs_accepts st) \<noteq> Inl Diverge" using ok by (simp add: finite_input_def)
        ultimately show ?thesis
          by (cases "cp_accept cp (cs_accepts st)") (auto simp: x Some ko Cap_Listener)
      next
        case (Cap_Client c)
        have "ends (rbind (capture_client cp key c ?st1) (\<lambda>st2. capture_loop k cp fuel st2)) (\<lambda>_. True)"
        proof (rule ends_bind [OF capture_client_ends])
          fix st2
          assume "capture_client cp key c ?st1 = Inr st2"
          from capture_client_less [OF this at [unfolded Cap_Client]] ok sl
          show "ends (capture_loop k cp fuel st2) (\<lambda>_. True)"
            by (intro later) (simp add: input_left_def finite_input_def)
        qed
        then show ?thesis by (simp add: x Some ko Cap_Client)
      next
        case (Cap_File f)
        have len: "\<forall>i. length (cp_pipe cp i) < 2 ^ 31" using ok by (simp add: finite_input_def)
        have "ends (rbind (capture_file k cp key f ?st1) (\<lambda>st2. capture_loop k cp fuel st2)) (\<lambda>_. True)"
        proof (rule ends_bind [OF capture_file_ends [OF k len]])
          fix st2
          assume "capture_file k cp key f ?st1 = Inr st2"
          from capture_file_less [OF this at [unfolded Cap_File] ok] sl
          show "ends (capture_loop k cp fuel st2) (\<lambda>_. True)"
            by (intro later) (simp add: input_left_def)
        qed
        then show ?thesis by (simp add: x Some ko Cap_File)
      qed
    qed
  qed
qed simp

section \<open>The command\<close>

lemma increase_capacity_ends: "ends (increase_capacity setcap pg ps c) (\<lambda>_. True)"
proof (induction setcap pg ps c rule: increase_capacity.induct)
  case (1 setcap pg ps c)
  then show ?case
    by (subst increase_capacity.simps) (auto simp: Let_def rassert_def split: option.split errno.split)
qed

lemma write_image_eof_ends:
  assumes k: "capture_env_ends k"
  shows "ends (write_image_eof k s) (\<lambda>_. True)"
proof -
  have emit: "ends (rbind (emit k s b None sm) (\<lambda>(s', _). Inr s')) (\<lambda>_. True)" for s b sm
    by (rule ends_bind [OF emit_ends [OF k]]) (simp split: prod.split)
  have "ends (write_metadata_to_small_shard k s) (\<lambda>_. True)"
    unfolding write_metadata_to_small_shard_def Let_def
    by (rule ends_bind [OF emit_ends [OF k]])
       (auto split: prod.split intro!: emit ends_bind [OF pb_write_ends] ends_bind [OF write_all_ends])
  then show ?thesis unfolding write_image_eof_def by (rule ends_bind) (rule emit)
qed

lemma add_ext_ends:
  "slab_ok (cp_poll cp) \<Longrightarrow>
   ends (add_ext_files cp ext st) (\<lambda>st'. input_left A B cp st' = input_left A B cp st + length ext)"
proof (induction cp ext st rule: add_ext_files.induct)
  case (2 cp f fd ext st)
  have "ends (cap_add_file cp f fd st) (\<lambda>st'. input_left A B cp st' = Suc (input_left A B cp st))"
    unfolding cap_add_file_def
    by (rule ends_bind [OF poller_ends(1)])
       (auto simp: input_left_def dest: poller_add_weight [OF _ 2(2)])
  then show ?case
    unfolding add_ext_files.simps
    by (rule ends_bind) (rule ends_mono [OF 2(1) [OF _ 2(2)]], simp_all)
qed simp

section \<open>Properties\<close>



text \<open>One connection, and data at the first read only.\<close>

definition demo_finite :: capture_params where
  "demo_finite = demo_capture\<lparr>cp_accept := \<lambda>i. if i = 0 then Inr (8, demo_sender) else Inl (Err Io_Error)\<rparr>"


end
