(* ===== verification/Commands.thy ===== *)
theory Commands
  imports Capture_Ends Extract_Cmd
begin

text \<open>
  The two commands in sequence: an image taken by the event loop of capture() (capture.rs) and
  unpacked by extract() (extract.rs).  Capture_Cmd relates a run of the loop to the events it
  gave to the serializer, Extract_Cmd starts from such events; here the two meet.  The log of the
  loop also records which pipe was read in each event, so that the bytes on the disk are those the
  commands of CRIU wrote into the pipes the clients passed.
\<close>

section \<open>What the capture command reads\<close>

lemma capture_client_log:
  assumes r: "capture_client cp key c st = Inr st'"
  shows "cs_events st' = cs_events st"
proof -
  from r obtain req c1 where q: "read_next_file_request (cp_codec cp) c = Inr (req, c1)"
    by (auto simp: capture_client_def)
  show ?thesis
  proof (cases req)
    case None
    with r q show ?thesis by (auto simp: capture_client_def Let_def)
  next
    case (Some f)
    with r q show ?thesis
      by (cases "f = ''stop-listener''") (auto simp: capture_client_def cap_add_file_def Let_def split: if_splits)
  qed
qed

lemma capture_loop_log:
  "capture_loop k cp fuel st = Inr st' \<Longrightarrow> map snd (cs_events st) = map (cp_pipe cp) [0..<length (cs_events st)] \<Longrightarrow>
   map snd (cs_events st') = map (cp_pipe cp) [0..<length (cs_events st')]"
proof (induction fuel arbitrary: st)
  case (Suc fuel)
  from Suc.prems(1) obtain obj p where pl: "poller_poll (cp_poll cp) (cs_poller st) 16 = Inr (obj, p)" by auto
  show ?case
  proof (cases obj)
    case None
    with Suc.prems pl show ?thesis by auto
  next
    case (Some ko)
    obtain key o' where ko: "ko = (key, o')" by force
    show ?thesis
    proof (cases o')
      case Cap_Listener
      with Suc.prems pl Some ko Suc.IH show ?thesis by (auto simp: Let_def)
    next
      case (Cap_Client c)
      with Suc.prems(1) pl Some ko obtain st2 where
        c: "capture_client cp key c (st\<lparr>cs_poller := p\<rparr>) = Inr st2" and rest: "capture_loop k cp fuel st2 = Inr st'"
        by (auto simp: Let_def)
      from capture_client_log [OF c] Suc.IH [OF rest] Suc.prems(2) show ?thesis by simp
    next
      case (Cap_File f)
      with Suc.prems(1) pl Some ko obtain st2 where
        c: "capture_file k cp key f (st\<lparr>cs_poller := p\<rparr>) = Inr st2" and rest: "capture_loop k cp fuel st2 = Inr st'"
        by (auto simp: Let_def)
      from c have "cs_events st2 = cs_events st @ [(f, cp_pipe cp (length (cs_events st)))]"
        by (auto simp: capture_file_def Let_def split: if_splits)
      with Suc.IH [OF rest] Suc.prems(2) show ?thesis by simp
    qed
  qed
qed simp

lemma add_ext_log: "add_ext_files cp ext st = Inr st' \<Longrightarrow> cs_events st' = cs_events st"
  by (induction cp ext st rule: add_ext_files.induct) (auto simp: cap_add_file_def)

lemma capture_cmd_log:
  assumes "capture_cmd k cp fuel shard_pipes ext = Inr (st, ser)"
  shows "map snd (cs_events st) = map (cp_pipe cp) [0..<length (cs_events st)]"
proof -
  from assms obtain p key ser0 st1 where ext: "add_ext_files cp ext \<lparr>cs_poller = p, cs_listener_key = key, cs_ser = ser0,
        cs_started = False, cs_accepts = 0, cs_events = [], cs_files = [], cs_stops = 0\<rparr> = Inr st1"
    and loop: "capture_loop k cp fuel st1 = Inr st"
    by (auto simp: capture_cmd_def Let_def)
  from capture_loop_log [OF loop] add_ext_log [OF ext] show ?thesis by simp
qed

section \<open>Capture and then extract\<close>


lemma demo_sent_small: "small_items demo_cenv (int MB) demo_sent
    = [(Filename ''core-1.img'', []), (FileData 3, [1, 2, 3]), (FileEof True, [])]
      @ metadata_items demo_cenv [''core-1.img'']"
  "large_items demo_cenv (int MB) demo_sent = [(ImageEof True, [])]"
proof -
  have c: "int (MB :: nat) sdiv 4 = 262144" by (simp add: MB_def signed_divide_int_def)
  have "i32 262140 = 262140" by (rule i32_small) simp_all
  then have b: "chunk_bytes demo_cenv (int MB) = 262140" by (simp add: chunk_bytes_def demo_cenv_def c)
  have "finished_names demo_sent = [''core-1.img'']" by (simp add: finished_names_def demo_sent_def)
  with demo_names show "small_items demo_cenv (int MB) demo_sent
    = [(Filename ''core-1.img'', []), (FileData 3, [1, 2, 3]), (FileEof True, [])]
      @ metadata_items demo_cenv [''core-1.img'']" "large_items demo_cenv (int MB) demo_sent = [(ImageEof True, [])]"
    by (simp_all add: small_items_def large_items_def b demo_sent_def event_items_def chop_step data_item_def)
qed


end
