(* ===== verification/Mem_File.thy ===== *)
theory Mem_File
  imports Mem_Store
begin

text \<open>
  The files of \<open>src/image_store/mem.rs\<close> as an abstract type: \<open>File::new_small\<close>, the two ways to
  append (\<open>write_all_from_pipe\<close> and the instance of \<open>Write\<close>), and what every file that they make
  looks like. A file that fits in a page is one buffer; a larger one is a queue of chunks of 10 MB,
  all full but the last.
\<close>

section \<open>The operations\<close>

text \<open>\<open>Write::write\<close> reads from the slice it is given; its \<open>unwrap()\<close> panics on any error.\<close>

definition mem_file_write :: "nat \<Rightarrow> memfile \<Rightarrow> byte list \<Rightarrow> (memfile \<times> nat) res" where
  "mem_file_write page f buf =
     (case copy_from_reader page f \<lparr>avail = buf, broken = False\<rparr> (length buf) of
        Inr (f', _, n) \<Rightarrow> Inr (f', n)
      | Inl (Err _) \<Rightarrow> Inl (Panic Unwrap_None)
      | Inl e \<Rightarrow> Inl e)"

text \<open>A file that was made with these operations; calls that fail give no file.\<close>

inductive made :: "nat \<Rightarrow> memfile \<Rightarrow> bool" for page where
  new: "made page new_small"
| copied: "made page f \<Longrightarrow> copy_from_reader page f rd n = Inr (f', rd', k) \<Longrightarrow> made page f'"
| written: "made page f \<Longrightarrow> mem_write_all_from_pipe page f rd n = Inr (f', rd') \<Longrightarrow> made page f'"
| appended: "made page f \<Longrightarrow> mem_file_write page f buf = Inr (f', k) \<Longrightarrow> made page f'"

section \<open>Their type\<close>

definition full_but_last :: "mmap_buf list \<Rightarrow> bool" where
  "full_but_last cs \<longleftrightarrow> (\<forall>c \<in> set (butlast cs). mm_len c = MAX_LARGE_CHUNK_SIZE)"

definition memfile_type :: "nat \<Rightarrow> memfile \<Rightarrow> bool" where
  "memfile_type page f \<longleftrightarrow>
     memfile_wf page f \<and> (case f of Small c \<Rightarrow> True | Large cs \<Rightarrow> full_but_last cs)"

lemma reserve_chunk_type:
  assumes r: "reserve_chunk page f n = Inr f1" and t: "memfile_type page f"
  shows "memfile_type page f1"
proof -
  have wf: "memfile_wf page f1" using reserve_chunk_Inr [OF r] t by (simp add: memfile_type_def)
  show ?thesis
  proof (cases f)
    case (Small c)
    with r have "f1 = Small c \<or> (\<exists>b. f1 = Large [b])"
      by (auto simp: reserve_chunk_def split: if_splits dest: large_from_slice_Inr)
    with wf show ?thesis by (auto simp: memfile_type_def full_but_last_def)
  next
    case (Large cs)
    have wf0: "cs \<noteq> []" "mm_wf (last cs)" "mm_capacity (last cs) = MAX_LARGE_CHUNK_SIZE"
      "full_but_last cs" using t Large by (auto simp: memfile_type_def)
    show ?thesis
    proof (cases "mm_len (last cs) < mm_capacity (last cs)")
      case True
      with r Large wf0(1) t show ?thesis by (simp add: reserve_chunk_def)
    next
      case False
      with wf0 have full: "mm_len (last cs) = MAX_LARGE_CHUNK_SIZE" by (simp add: mm_wf_def)
      from False r Large wf0(1) obtain b where "f1 = Large (cs @ [b])" by (auto simp: reserve_chunk_def)
      moreover have "mm_len c = MAX_LARGE_CHUNK_SIZE" if "c \<in> set cs" for c
        using that wf0(1,4) full append_butlast_last_id [OF wf0(1)]
        by (metis full_but_last_def in_set_conv_decomp_last last_snoc butlast_append
            UnE set_append set_ConsD empty_set empty_iff insert_iff list.simps(15))
      ultimately show ?thesis using wf by (simp add: memfile_type_def full_but_last_def)
    qed
  qed
qed

lemma copy_from_reader_type:
  assumes run: "copy_from_reader page f rd sz = Inr (f', rd', n)"
    and t: "memfile_type page f" and pg: "page < MAX_LARGE_CHUNK_SIZE"
  shows "memfile_type page f' \<and> n \<le> sz \<and> (0 < sz \<longrightarrow> 0 < n)"
proof -
  from run obtain f1 where r: "reserve_chunk page f sz = Inr f1" by (auto simp: copy_from_reader_def)
  have f1: "memfile_type page f1" by (rule reserve_chunk_type [OF r t])
  have room: "case f1 of Small c \<Rightarrow> length c + sz \<le> page | Large cs \<Rightarrow> cs \<noteq> [] \<and> mm_len (last cs) < mm_capacity (last cs)"
    using reserve_chunk_Inr [OF r] t pg by (auto simp: memfile_type_def split: memfile.splits)
  show ?thesis
  proof (cases f1)
    case (Small c)
    with run r room show ?thesis
      by (auto simp: copy_from_reader_def memfile_type_def dest!: take_read_to_end_shrinks)
  next
    case (Large cs)
    define b where "b = last cs"
    define k where "k = min sz (mm_capacity b - mm_len b)"
    have cs: "cs \<noteq> []" "mm_len b < mm_capacity b" "mm_capacity b = MAX_LARGE_CHUNK_SIZE" "full_but_last cs"
      "\<forall>c \<in> set (butlast cs). mm_wf c \<and> mm_capacity c = MAX_LARGE_CHUNK_SIZE"
      using Large f1 room by (auto simp: b_def memfile_type_def dest: in_set_butlastD)
    from run r Large cs(1) obtain b1 bs b2 where
      b1: "mm_resize b (mm_len b + k) = Inr b1" and b2: "mm_fill b1 (mm_len b) bs = Inr b2"
      and out: "f' = Large (butlast cs @ [b2])" "n = k"
      by (auto simp: copy_from_reader_def Let_def b_def k_def)
    have "mm_wf b2" "mm_capacity b2 = MAX_LARGE_CHUNK_SIZE"
      using mm_fill_Inr [OF b2] mm_resize_keeps [OF b1] cs(3) by auto
    with cs out have "memfile_type page f'" by (auto simp: memfile_type_def full_but_last_def)
    with out cs(2) show ?thesis by (simp add: k_def)
  qed
qed

text \<open>Neither a panic nor a loop without end: only the stream can fail.\<close>

lemma copy_from_reader_no_panic:
  assumes t: "memfile_type page f" and pg: "page < MAX_LARGE_CHUNK_SIZE"
    and run: "copy_from_reader page f rd sz = Inl e"
  shows "\<exists>x. e = Err x \<and> length (avail rd) < sz"
proof -
  have "memfile_wf page f" "page \<le> MAX_LARGE_CHUNK_SIZE" using t pg by (simp_all add: memfile_type_def)
  from reserve_chunk_total [OF this] obtain f1 where r: "reserve_chunk page f sz = Inr f1" by blast
  show ?thesis
  proof (cases f1)
    case (Small c)
    with run r show ?thesis
      by (auto simp: copy_from_reader_def take_read_to_end_def rbind_Inl_iff split: if_splits)
  next
    case (Large cs)
    define k where "k = min sz (length (mm_mem (last cs)) - mm_len (last cs))"
    have cs: "cs \<noteq> []" "mm_wf (last cs)" using reserve_chunk_type [OF r t] Large by (auto simp: memfile_type_def)
    then have le: "mm_len (last cs) + k \<le> mm_capacity (last cs)" by (auto simp: k_def mm_wf_def mm_capacity_def)
    show ?thesis
    proof (cases "k \<le> length (avail rd)")
      case True
      with cs le r Large have "\<exists>y. copy_from_reader page f rd sz = Inr y"
        by (simp add: copy_from_reader_def Let_def mm_resize_def read_exact_def mm_fill_def mm_capacity_def
            flip: k_def)
      with run show ?thesis by simp
    next
      case False
      then have "read_exact rd k = Inl (Err Io_Error)" "length (avail rd) < sz"
        by (simp_all add: read_exact_def k_def)
      moreover from this cs le r Large have "copy_from_reader page f rd sz = Inl (Err Io_Error)"
        by (simp add: copy_from_reader_def Let_def mm_resize_def mm_capacity_def flip: k_def)
      ultimately show ?thesis using run by simp
    qed
  qed
qed

lemma mem_write_loop_type:
  "memfile_type page f \<Longrightarrow> page < MAX_LARGE_CHUNK_SIZE \<Longrightarrow> sz \<le> fuel \<Longrightarrow>
   holds_or (\<lambda>e. \<exists>x. e = Err x) (mem_write_loop page fuel f rd sz)
     (\<lambda>(f', rd'). memfile_type page f')"
proof (induction fuel arbitrary: f rd sz)
  case 0
  then show ?case by (simp add: mem_write_loop.simps)
next
  case (Suc fuel)
  show ?case
  proof (cases "sz = 0")
    case True
    with Suc.prems show ?thesis by (simp add: mem_write_loop.simps)
  next
    case False
    show ?thesis
    proof (cases "copy_from_reader page f rd sz")
      case (Inl e)
      with copy_from_reader_no_panic [OF Suc.prems(1,2) Inl] False show ?thesis
        by (simp add: mem_write_loop.simps)
    next
      case (Inr y)
      obtain f1 rd1 n where y: "y = (f1, rd1, n)" by (cases y)
      from copy_from_reader_type [OF Inr [unfolded y] Suc.prems(1,2)] False
      have n: "memfile_type page f1" "n \<le> sz" "0 < n" by auto
      with Suc.IH [OF n(1) Suc.prems(2), of "sz - n" rd1] Suc.prems(3) n Inr y False show ?thesis
        by (simp add: mem_write_loop.simps)
    qed
  qed
qed

lemma mem_file_write_total:
  assumes "memfile_type page f" and "page < MAX_LARGE_CHUNK_SIZE"
  shows "\<exists>f' n. mem_file_write page f buf = Inr (f', n) \<and> n \<le> length buf \<and> (buf \<noteq> [] \<longrightarrow> 0 < n)
    \<and> file_bytes f' = file_bytes f @ take n buf \<and> memfile_type page f'"
proof -
  let ?rd = "\<lparr>avail = buf, broken = False\<rparr>"
  have wf: "memfile_wf page f" using assms(1) by (simp add: memfile_type_def)
  with assms(2) obtain f' rd' n where c: "copy_from_reader page f ?rd (length buf) = Inr (f', rd', n)"
    using copy_from_reader_total [of page f "length buf" ?rd] by auto
  from copy_from_reader_Inr [OF c wf] copy_from_reader_type [OF c assms] c show ?thesis
    by (auto simp: mem_file_write_def)
qed

lemma made_type: "made page f \<Longrightarrow> page < MAX_LARGE_CHUNK_SIZE \<Longrightarrow> memfile_type page f"
proof (induction rule: made.induct)
  case new
  then show ?case by (simp add: new_small_def memfile_type_def)
next
  case (copied f rd n f' rd' k)
  then show ?case using copy_from_reader_type by blast
next
  case (written f rd n f' rd')
  then show ?case
    using mem_write_loop_type [of page f n n rd] by (simp add: mem_write_all_from_pipe_def)
next
  case (appended f buf f' k)
  then show ?case using mem_file_write_total [of page f buf] by simp
qed

lemma full_but_last_bytes:
  "full_but_last cs \<Longrightarrow> \<forall>c \<in> set cs. mm_wf c \<Longrightarrow>
   length cs * MAX_LARGE_CHUNK_SIZE \<le> length (concat (map mm_deref cs)) + MAX_LARGE_CHUNK_SIZE"
proof (cases cs rule: rev_cases)
  case (snoc ds d)
  assume f: "full_but_last cs" and w: "\<forall>c \<in> set cs. mm_wf c"
  have "length (mm_deref c) = MAX_LARGE_CHUNK_SIZE" if "c \<in> set ds" for c
    using f w that snoc by (simp add: full_but_last_def mm_deref_def mm_wf_def mm_capacity_def)
  then have "length (concat (map mm_deref ds)) = length ds * MAX_LARGE_CHUNK_SIZE"
    by (induction ds) simp_all
  with snoc show ?thesis by simp
qed simp

section \<open>Properties\<close>

text \<open>C20: memory files are type safe. Whatever sequence of writes made a file, it is one buffer of at
  most a page or a queue of mmap chunks of 10 MB that are all full but the last (so it takes up at most
  one chunk more than its bytes), and every further operation keeps it so: reading from a pipe, of
  whatever length and state, gives a file of this type again or an error, and never a panic (an index,
  an \<open>assert!\<close>, an \<open>unwrap()\<close>) or a loop without end; \<open>write\<close> from a slice cannot fail and
  takes at least one byte of what it is given.\<close>

theorem memory_files_are_type_safe:
  assumes "made page f" and "page < MAX_LARGE_CHUNK_SIZE"
  shows "(case f of Small c \<Rightarrow> length c \<le> page
      | Large cs \<Rightarrow> cs \<noteq> [] \<and> (\<forall>c \<in> set cs. mm_len c \<le> mm_capacity c \<and> mm_capacity c = MAX_LARGE_CHUNK_SIZE)
          \<and> full_but_last cs \<and> length cs * MAX_LARGE_CHUNK_SIZE \<le> length (file_bytes f) + MAX_LARGE_CHUNK_SIZE)
    \<and> holds_or (\<lambda>e. \<exists>x. e = Err x) (mem_write_all_from_pipe page f rd n) (\<lambda>(f', _). made page f')
    \<and> (\<exists>f' k. mem_file_write page f buf = Inr (f', k) \<and> made page f' \<and> k \<le> length buf
         \<and> (buf \<noteq> [] \<longrightarrow> 0 < k) \<and> file_bytes f' = file_bytes f @ take k buf)"
proof (intro conjI)
  have t: "memfile_type page f" using made_type assms by blast
  then show "case f of Small c \<Rightarrow> length c \<le> page
      | Large cs \<Rightarrow> cs \<noteq> [] \<and> (\<forall>c \<in> set cs. mm_len c \<le> mm_capacity c \<and> mm_capacity c = MAX_LARGE_CHUNK_SIZE)
          \<and> full_but_last cs \<and> length cs * MAX_LARGE_CHUNK_SIZE \<le> length (file_bytes f) + MAX_LARGE_CHUNK_SIZE"
    using full_but_last_bytes by (cases f) (auto simp: memfile_type_def mm_wf_def)
  show "holds_or (\<lambda>e. \<exists>x. e = Err x) (mem_write_all_from_pipe page f rd n) (\<lambda>(f', _). made page f')"
  proof (cases "mem_write_all_from_pipe page f rd n")
    case (Inl e)
    then show ?thesis using mem_write_loop_type [OF t assms(2), of n n rd]
      by (simp add: mem_write_all_from_pipe_def)
  next
    case (Inr y)
    then show ?thesis using made.written [OF assms(1)] by (cases y) simp
  qed
  show "\<exists>f' k. mem_file_write page f buf = Inr (f', k) \<and> made page f' \<and> k \<le> length buf
         \<and> (buf \<noteq> [] \<longrightarrow> 0 < k) \<and> file_bytes f' = file_bytes f @ take k buf"
    using mem_file_write_total [OF t assms(2), of buf] made.appended [OF assms(1)] by blast
qed

text \<open>Five bytes on a page of four: the file moves to an mmap chunk.\<close>

theorem memory_files_are_type_safe_witness:
  "\<exists>f cs. mem_write_all_from_pipe 4 new_small \<lparr>avail = [1, 2, 3, 4, 5], broken = False\<rparr> 5 = Inr (f, \<lparr>avail = [], broken = False\<rparr>)
     \<and> f = Large cs \<and> length cs \<le> 1"
proof -
  have pg: "4 < MAX_LARGE_CHUNK_SIZE" by (simp add: MAX_LARGE_CHUNK_SIZE_def MB_def)
  let ?rd = "\<lparr>avail = [1, 2, 3, 4, 5], broken = False\<rparr>"
  obtain f where w: "mem_write_all_from_pipe 4 new_small ?rd 5 = Inr (f, \<lparr>avail = [], broken = False\<rparr>)"
    and b: "file_bytes f = [1, 2, 3, 4, 5]"
    using mem_write_all_total [of 4 new_small 5 ?rd] pg by (auto simp: new_small_def)
  have m: "made 4 f" by (rule made.written [OF made.new w])
  have "length cs \<le> 1" if "length cs * MAX_LARGE_CHUNK_SIZE \<le> 5 + MAX_LARGE_CHUNK_SIZE" for cs :: "mmap_buf list"
    using that by (simp add: MAX_LARGE_CHUNK_SIZE_def MB_def)
  with memory_files_are_type_safe [OF m pg, of ?rd 5 "[]"] b w show ?thesis
    by (cases f) auto
qed

end
