(* ===== verification/Truncation.thy ===== *)
theory Truncation
  imports Extract_Stats
begin

text \<open>
  Shards that arrive incomplete. Part by part: reading from a stream that has lost its end, the
  shards of large files, the small shard, and the command. \<open>L\<close> is the log the shards of large files were written from, and
  \<open>T j\<close> the part of shard \<open>j\<close> that got lost: what is left on a shard, followed by what was lost of it,
  is what the log says (\<open>cut_tracked\<close>). The deserializer returns only when it has processed the
  last item of the log, and then nothing is left or lost.
\<close>

section \<open>Reading from a cut stream\<close>

lemma take_read_more:
  "take_read_to_end r n = Inr (bs, r') \<Longrightarrow> length bs = n \<Longrightarrow>
   take_read_to_end (r\<lparr>avail := avail r @ t\<rparr>) n = Inr (bs, r'\<lparr>avail := avail r' @ t\<rparr>)"
  by (auto simp: take_read_to_end_def split: if_splits)

lemma read_bytes_more:
  "read_bytes_next r n = Inr (Some bs, r') \<Longrightarrow>
   read_bytes_next (r\<lparr>avail := avail r @ t\<rparr>) n = Inr (Some bs, r'\<lparr>avail := avail r' @ t\<rparr>)"
  by (auto simp: read_bytes_next_def take_read_more split: if_splits)

text \<open>A message that was read in full is the one that comes first on the complete stream.\<close>

lemma pb_read_next_more:
  assumes "pb_read_next dec r = Inr (Some y, r')"
  shows "pb_read_next dec (r\<lparr>avail := avail r @ t\<rparr>) = Inr (Some y, r'\<lparr>avail := avail r' @ t\<rparr>)"
proof -
  from assms obtain b0 r1 size rest b where
    s: "read_bytes_next r 4 = Inr (Some b0, r1)" "get_u32_le b0 = Inr (size, rest)" "size < 10 * KB"
    and b: "read_bytes_next r1 size = Inr (Some b, r')" "dec b = Some (fst y)" "snd y = 4 + length rest + length b"
    by (auto simp: pb_read_next_def Let_def split: option.splits)
  from read_bytes_more [OF s(1)] read_bytes_more [OF b(1)] s(2,3) b(2,3) show ?thesis
    by (simp add: pb_read_next_def Let_def prod_eq_iff)
qed

section \<open>Tracking what is left and what was lost\<close>

definition cut_idle :: "(marker \<Rightarrow> byte list) \<Rightarrow> (nat \<times> item) list \<Rightarrow> (nat \<Rightarrow> byte list) \<Rightarrow> nat \<Rightarrow> nat \<Rightarrow> dshard \<Rightarrow> bool" where
  "cut_idle enc L T p j sh \<longleftrightarrow> avail (dsh_pipe sh) @ T j = shard_from enc j p (drop p L)"

definition cut_held ::
  "(marker \<Rightarrow> byte list) \<Rightarrow> (nat \<times> item) list \<Rightarrow> (nat \<Rightarrow> byte list) \<Rightarrow> nat \<Rightarrow> nat \<Rightarrow> nat \<Rightarrow> pending_marker \<Rightarrow> bool" where
  "cut_held enc L T p q j pm \<longleftrightarrow>
     p \<le> q \<and> q < length L \<and> fst (L ! q) = j \<and> (\<forall>r. p \<le> r \<and> r < q \<longrightarrow> fst (L ! r) \<noteq> j)
     \<and> pm_marker pm = item_marker q (snd (L ! q))
     \<and> avail (dsh_pipe (pm_shard pm)) @ T j = snd (snd (L ! q)) @ shard_from enc j (Suc q) (drop (Suc q) L)"

definition cut_tracked ::
  "(marker \<Rightarrow> byte list) \<Rightarrow> (nat \<times> item) list \<Rightarrow> (nat \<Rightarrow> byte list) \<Rightarrow> nat \<Rightarrow> nat
   \<Rightarrow> dshard multiset \<Rightarrow> pending_marker multiset \<Rightarrow> bool"
where
  "cut_tracked enc L T n p M N \<longleftrightarrow> (\<exists>A P F.
     mset (map snd A) = M \<and> mset (map snd P) = N
     \<and> (\<forall>x \<in> set A. cut_idle enc L T p (fst x) (snd x))
     \<and> (\<forall>x \<in> set P. \<exists>q. cut_held enc L T p q (fst x) (snd x))
     \<and> (\<forall>j \<in> set F. T j = shard_from enc j p (drop p L))
     \<and> distinct (map fst A @ map fst P @ F)
     \<and> {..<n} = fst ` set A \<union> fst ` set P \<union> set F)"

lemma cut_tracked_E:
  assumes "cut_tracked enc L T n p M N"
  obtains A P F where "mset (map snd A) = M" "mset (map snd P) = N"
    "\<forall>x \<in> set A. cut_idle enc L T p (fst x) (snd x)"
    "\<forall>x \<in> set P. \<exists>q. cut_held enc L T p q (fst x) (snd x)"
    "\<forall>j \<in> set F. T j = shard_from enc j p (drop p L)"
    "distinct (map fst A @ map fst P @ F)"
    "{..<n} = fst ` set A \<union> fst ` set P \<union> set F"
  using assms unfolding cut_tracked_def by (elim exE conjE) (rule that)

definition sound_item :: "item \<Rightarrow> bool" where
  "sound_item x \<longleftrightarrow> body_ok (fst x) \<and> (case fst x of FileData n \<Rightarrow> length (snd x) = n | _ \<Rightarrow> snd x = [])"

lemma sound_itemD:
  "sound_item x \<Longrightarrow> body_ok (fst x)" "sound_item x \<Longrightarrow> fst x = FileData n \<Longrightarrow> length (snd x) = n"
  "sound_item x \<Longrightarrow> \<forall>n. fst x \<noteq> FileData n \<Longrightarrow> snd x = []"
  by (auto simp: sound_item_def split: body.splits)

definition sound_log :: "(nat \<times> item) list \<Rightarrow> bool" where
  "sound_log L \<longleftrightarrow> length L < 2 ^ 64 \<and> (\<forall>x \<in> set L. sound_item (snd x))
     \<and> (\<forall>q < length L. fst (snd (L ! q)) = ImageEof True \<longrightarrow> Suc q = length L)"

definition sound_small :: "denv \<Rightarrow> byte list \<Rightarrow> item list \<Rightarrow> bool" where
  "sound_small e js S \<longleftrightarrow> (\<forall>x \<in> set S. sound_item x) \<and> (\<forall>n < length js. of_json e (take n js) = None)
     \<and> (\<exists>R. S = R @ [(Filename METADATA_FILE, []), (FileData (length js), js), (FileEof True, [])]
          \<and> (\<forall>x \<in> set R. fst x \<noteq> Filename METADATA_FILE))"

lemma sound_small_at:
  assumes S: "sound_small e js S" and i: "i < length S"
  shows "sound_item (S ! i)"
    "fst (S ! i) = Filename METADATA_FILE \<Longrightarrow> length S \<le> i + 3"
    "fst (S ! i) = FileData n \<Longrightarrow> length S < i + 3 \<Longrightarrow> S ! i = (FileData (length js), js) \<and> length S = i + 2"
proof -
  from S obtain R where R: "S = R @ [(Filename METADATA_FILE, []), (FileData (length js), js), (FileEof True, [])]"
    "\<forall>x \<in> set R. fst x \<noteq> Filename METADATA_FILE" by (auto simp: sound_small_def)
  show "sound_item (S ! i)" using S i by (auto simp: sound_small_def)
  show "length S \<le> i + 3" if "fst (S ! i) = Filename METADATA_FILE"
  proof (rule ccontr)
    assume "\<not> ?thesis"
    then have "i < length R" using R(1) by simp
    then have "S ! i \<in> set R" using R(1) by (simp add: nth_append)
    with R(2) that show False by blast
  qed
  show "S ! i = (FileData (length js), js) \<and> length S = i + 2"
    if "fst (S ! i) = FileData n" "length S < i + 3"
  proof -
    from that(2) i have "i = Suc (length R) \<or> i = Suc (Suc (length R))" using R(1) by auto
    with that(1) show ?thesis using R(1) by (auto simp: nth_append)
  qed
qed

locale cut_stream = exact_writes ops + msg_codec enc dec marker_ok
  for ops :: "('s, 'f) store_ops" and enc :: "marker \<Rightarrow> byte list" and dec
begin

lemma read_item_frame:
  "body_ok (fst x) \<Longrightarrow>
   pb_read_next dec \<lparr>avail = item_bytes enc i x @ rest, broken = br\<rparr>
   = Inr (Some (item_marker i x, 4 + length (enc (item_marker i x))),
          \<lparr>avail = snd x @ rest, broken = br\<rparr>)"
  by (simp add: item_bytes_def read_frame item_marker_def marker_ok_def)

lemma cut_read:
  assumes t: "cut_tracked enc L T n p (add_mset sh M) N" and p: "p \<le> length L"
    and ok: "\<forall>x \<in> set L. sound_item (snd x)" and r: "pb_read_next dec (dsh_pipe sh) = Inr (x, rd)"
  shows "case x of
      None \<Rightarrow> cut_tracked enc L T n p M N
    | Some (m, k) \<Rightarrow> \<forall>sh'. dsh_pipe sh' = rd \<longrightarrow>
        cut_tracked enc L T n p M (add_mset \<lparr>pm_marker = m, pm_shard = sh'\<rparr> N)"
proof -
  from t obtain A P F where A: "mset (map snd A) = add_mset sh M" and P: "mset (map snd P) = N"
    and i: "\<forall>x \<in> set A. cut_idle enc L T p (fst x) (snd x)"
    and h: "\<forall>x \<in> set P. \<exists>q. cut_held enc L T p q (fst x) (snd x)"
    and f: "\<forall>j \<in> set F. T j = shard_from enc j p (drop p L)"
    and dist: "distinct (map fst A @ map fst P @ F)" and all: "{..<n} = fst ` set A \<union> fst ` set P \<union> set F"
    by (rule cut_tracked_E)
  from A obtain l j r where lr: "A = l @ (j, sh) # r" "mset (map snd (l @ r)) = M" by (rule in_mset_split)
  have sh: "avail (dsh_pipe sh) @ T j = shard_from enc j p (drop p L)"
    using i lr by (simp add: cut_idle_def)
  show ?thesis
  proof (cases x)
    case None
    have "avail (dsh_pipe sh) = []" using pb_read_next_consumes [OF r] None by simp
    with sh have "T j = shard_from enc j p (drop p L)" by simp
    then have "cut_tracked enc L T n p M N" unfolding cut_tracked_def
      by (intro exI [of _ "l @ r"] exI [of _ P] exI [of _ "j # F"]) (use lr P i h f dist all in auto)
    with None show ?thesis by simp
  next
    case (Some y)
    obtain m k where y: "y = (m, k)" by force
    note more = pb_read_next_more [OF r [unfolded Some], of "T j"]
    have ne: "avail (dsh_pipe sh) \<noteq> []" using pb_read_next_consumes [OF r] Some y by auto
    from p show ?thesis
    proof (cases rule: next_item [of p L j enc])
      case none
      with sh ne show ?thesis by simp
    next
      case (some q)
      let ?x = "snd (L ! q)" and ?rest = "shard_from enc j (Suc q) (drop (Suc q) L)"
      have b: "body_ok (fst ?x)" using ok some(2) by (auto dest: sound_itemD)
      have "(dsh_pipe sh)\<lparr>avail := avail (dsh_pipe sh) @ T j\<rparr>
          = \<lparr>avail = item_bytes enc q ?x @ ?rest, broken = broken (dsh_pipe sh)\<rparr>"
        using sh some(5) by (cases "dsh_pipe sh") simp
      with more read_item_frame [OF b, of q ?rest "broken (dsh_pipe sh)"]
      have m: "m = item_marker q ?x" "avail rd @ T j = snd ?x @ ?rest"
        using y by (auto dest: arg_cong [of _ _ avail])
      have "cut_tracked enc L T n p M (add_mset \<lparr>pm_marker = m, pm_shard = sh'\<rparr> N)" if "dsh_pipe sh' = rd" for sh'
      proof -
        let ?pm = "\<lparr>pm_marker = m, pm_shard = sh'\<rparr>"
        have "cut_held enc L T p q j ?pm" using some m that by (simp add: cut_held_def)
        then show ?thesis unfolding cut_tracked_def
          by (intro exI [of _ "l @ r"] exI [of _ "(j, ?pm) # P"] exI [of _ F]) (use lr P i h f dist all in auto)
      qed
      with Some y show ?thesis by simp
    qed
  qed
qed

lemma cut_marker:
  assumes p: "process_marker ops d m sh = Inr (d', sh')" and m: "mbody m = Some (fst x)" and s: "sound_item x"
    and av: "avail (dsh_pipe sh) @ t = snd x @ rest"
  shows "avail (dsh_pipe sh') @ t = rest \<and> (image_eof d' \<longrightarrow> image_eof d \<or> fst x = ImageEof True)"
proof (cases "\<exists>sz. fst x = FileData sz")
  case True
  then obtain sz where sz: "fst x = FileData sz" by blast
  with p m obtain st f f' rd where w: "so_write ops (img_store d) f (dsh_pipe sh) sz = Inr (st, f', rd)"
    and sh': "dsh_pipe sh' = rd" and eof: "image_eof d' = image_eof d"
    by (auto simp: process_marker_def)
  from write_exact [OF w] have w': "sz \<le> length (avail (dsh_pipe sh))" "avail rd = drop sz (avail (dsh_pipe sh))" by auto
  have "avail rd @ t = drop sz (avail (dsh_pipe sh) @ t)" using w' by simp
  also have "\<dots> = rest" using av sound_itemD(2) [OF s sz] by simp
  finally show ?thesis using sh' eof by simp
next
  case False
  have "sh' = sh" "image_eof d' \<longrightarrow> image_eof d \<or> fst x = ImageEof True"
    using p m False by (auto simp: process_marker_def mark_image_eof_def dest: select_img_file_keeps
        split: option.splits body.splits bool.splits)
  with av sound_itemD(3) [OF s] False show ?thesis by auto
qed

lemma cut_process:
  assumes t: "cut_tracked enc L T n p M (add_mset pm N)" and len: "length L < 2 ^ 64"
    and seq: "mseq (pm_marker pm) = p"
  shows "p < length L \<and> pm_marker pm = item_marker p (snd (L ! p))
         \<and> (\<exists>rest. avail (dsh_pipe (pm_shard pm)) @ T (fst (L ! p)) = snd (snd (L ! p)) @ rest
              \<and> (\<forall>sh. avail (dsh_pipe sh) @ T (fst (L ! p)) = rest \<longrightarrow>
                   cut_tracked enc L T n (Suc p) (add_mset sh M) N))"
proof -
  from t obtain A P F where A: "mset (map snd A) = M" and P: "mset (map snd P) = add_mset pm N"
    and i: "\<forall>x \<in> set A. cut_idle enc L T p (fst x) (snd x)"
    and h: "\<forall>x \<in> set P. \<exists>q. cut_held enc L T p q (fst x) (snd x)"
    and f: "\<forall>j \<in> set F. T j = shard_from enc j p (drop p L)"
    and dist: "distinct (map fst A @ map fst P @ F)" and all: "{..<n} = fst ` set A \<union> fst ` set P \<union> set F"
    by (rule cut_tracked_E)
  from P obtain l j r where lr: "P = l @ (j, pm) # r" "mset (map snd (l @ r)) = N" by (rule in_mset_split)
  from h lr obtain q where q: "cut_held enc L T p q j pm" by auto
  then have "q = p" using seq len by (simp add: cut_held_def item_marker_def)
  with q have p: "p < length L" "fst (L ! p) = j" "pm_marker pm = item_marker p (snd (L ! p))"
    and pipe: "avail (dsh_pipe (pm_shard pm)) @ T j
      = snd (snd (L ! p)) @ shard_from enc j (Suc p) (drop (Suc p) L)"
    by (auto simp: cut_held_def)
  have later: "shard_from enc i p (drop p L) = shard_from enc i (Suc p) (drop (Suc p) L)" if "i \<noteq> j" for i
    by (rule shard_from_skip) (use that p in \<open>auto simp: less_Suc_eq\<close>)
  have "\<exists>q. cut_held enc L T (Suc p) q (fst x) (snd x)" if "x \<in> set (l @ r)" for x
  proof -
    from that h lr obtain q' where q': "cut_held enc L T p q' (fst x) (snd x)" by auto
    moreover have "fst x \<noteq> j" using that dist lr by (auto simp: image_iff)
    ultimately have "q' \<noteq> p" using p by (auto simp: cut_held_def)
    with q' have "cut_held enc L T (Suc p) q' (fst x) (snd x)" by (auto simp: cut_held_def)
    then show ?thesis by blast
  qed
  moreover have "cut_idle enc L T (Suc p) (fst x) (snd x)" if "x \<in> set A" for x
  proof -
    have "fst x \<noteq> j" using that dist lr by (auto simp: image_iff)
    with i that later show ?thesis by (simp add: cut_idle_def)
  qed
  moreover have "T i = shard_from enc i (Suc p) (drop (Suc p) L)" if "i \<in> set F" for i
  proof -
    have "i \<noteq> j" using that dist lr by auto
    with f that later show ?thesis by simp
  qed
  ultimately have "cut_tracked enc L T n (Suc p) (add_mset sh M) N"
    if "avail (dsh_pipe sh) @ T j = shard_from enc j (Suc p) (drop (Suc p) L)" for sh
    unfolding cut_tracked_def
    by (intro exI [of _ "(j, sh) # A"] exI [of _ "l @ r"] exI [of _ F])
       (use that A lr dist all in \<open>auto simp: cut_idle_def\<close>)
  with p pipe show ?thesis by auto
qed

section \<open>The deserializer on cut shards\<close>

definition cut_inv :: "(nat \<times> item) list \<Rightarrow> (nat \<Rightarrow> byte list) \<Rightarrow> nat \<Rightarrow> nat \<Rightarrow> ('s, 'f) deser \<Rightarrow> bool" where
  "cut_inv L T n p d \<longleftrightarrow>
     p \<le> length L \<and> de_seq d = p \<and> cut_tracked enc L T n p (mset (pool d)) (mset (pending_markers d))
     \<and> (image_eof d \<longrightarrow> p = length L)"

lemma cut_pending:
  assumes log: "sound_log L"
  shows "process_pending_markers ops d = Inr d' \<Longrightarrow> cut_inv L T n p d \<Longrightarrow> \<exists>p'. cut_inv L T n p' d'"
proof (induction "length (pending_markers d)" arbitrary: d p rule: less_induct)
  case less
  have len: "length L < 2 ^ 64" using log by (simp add: sound_log_def)
  show ?case
  proof (cases "get_next_in_order_marker d")
    case None
    with less.prems show ?thesis by (subst (asm) process_pending_markers.simps) auto
  next
    case (Some a)
    obtain pm d1 where a: "a = (pm, d1)" by force
    with Some less.prems(1) obtain d2 sh where
      pr: "process_marker ops d1 (pm_marker pm) (pm_shard pm) = Inr (d2, sh)" and
      r: "process_pending_markers ops (d2\<lparr>de_seq := u64_add (de_seq d2) 1, de_shards := de_shards d2 @ [sh]\<rparr>) = Inr d'"
      (is "process_pending_markers ops ?d2 = _")
      by (subst (asm) process_pending_markers.simps) auto
    from get_next_in_order_marker_Some Some a obtain l q where
      pend: "mseq (pm_marker pm) = de_seq d" "pending_markers d = l @ pm # q" "d1 = d\<lparr>pending_markers := l @ q\<rparr>"
      by blast
    have inv: "de_seq d = p" "cut_tracked enc L T n p (mset (pool d)) (add_mset pm (mset (l @ q)))"
      "image_eof d \<longrightarrow> p = length L"
      using less.prems(2) pend by (simp_all add: cut_inv_def)
    from cut_process [OF inv(2) len] pend(1) inv(1) obtain rest where
      p: "p < length L" "pm_marker pm = item_marker p (snd (L ! p))"
        "avail (dsh_pipe (pm_shard pm)) @ T (fst (L ! p)) = snd (snd (L ! p)) @ rest"
      and t: "\<And>sh. avail (dsh_pipe sh) @ T (fst (L ! p)) = rest \<Longrightarrow>
        cut_tracked enc L T n (Suc p) (add_mset sh (mset (pool d))) (mset (l @ q))" by auto
    have x: "sound_item (snd (L ! p))" using log p(1) by (simp add: sound_log_def)
    have body: "mbody (pm_marker pm) = Some (fst (snd (L ! p)))" using p(2) by (simp add: item_marker_def)
    from cut_marker [OF pr body x p(3)] have m: "avail (dsh_pipe sh) @ T (fst (L ! p)) = rest"
      "image_eof d2 \<longrightarrow> image_eof d1 \<or> fst (snd (L ! p)) = ImageEof True" by auto
    from process_marker_keeps [OF pr] pend(3) have k: "pending_markers d2 = l @ q" "de_shards d2 = de_shards d"
      "readable_shards d2 = readable_shards d" "de_seq d2 = p" "image_eof d1 = image_eof d" using inv(1) by simp_all
    have "image_eof d2 \<longrightarrow> Suc p = length L"
      using m(2) k(5) inv(3) p(1) log by (auto simp: sound_log_def)
    moreover have "u64_add p 1 = Suc p" using p(1) len by (simp add: u64_add_small)
    ultimately have "cut_inv L T n (Suc p) ?d2"
      using t [OF m(1)] k p(1) by (simp add: cut_inv_def pool_def)
    moreover have "length (pending_markers ?d2) < length (pending_markers d)" by (simp add: k pend)
    ultimately show ?thesis using less.hyps [OF _ r] by blast
  qed
qed

lemma get_next_pool:
  assumes "get_next_readable_shard e d = Inr (next, d')"
  shows "Drain_Order.same_files d d'
    \<and> mset (pool d) = (case next of None \<Rightarrow> mset (pool d') | Some sh \<Rightarrow> add_mset sh (mset (pool d')))"
proof -
  have pop: "vec_pop xs = (Some y, ys) \<longleftrightarrow> xs = ys @ [y]" "vec_pop xs = (None, ys) \<longleftrightarrow> xs = [] \<and> ys = []"
    for xs ys :: "dshard list" and y
    by (cases xs rule: rev_cases, auto simp: vec_pop_def)+
  show ?thesis
  proof (cases "readable_shards d = []")
    case False
    with assms show ?thesis
      by (cases "next") (auto simp: get_next_readable_shard_def pop pool_def Drain_Order.same_files_def split: prod.splits)
  next
    case True
    show ?thesis
    proof (cases "length (de_shards d) \<le> 1")
      case le: True
      with assms True show ?thesis
        by (cases "next") (auto simp: get_next_readable_shard_def pop pool_def Drain_Order.same_files_def split: prod.splits)
    next
      case False
      define xs where "xs = enumerate 0 (de_shards d)"
      from assms True False obtain ready where
        "(case vec_pop (map snd (filter (\<lambda>(i, _). i \<in> set ready) xs)) of (x, rds') \<Rightarrow>
            Inr (x, d\<lparr>de_shards := map snd (filter (\<lambda>(i, _). i \<notin> set ready) xs),
                     readable_shards := rds', polls := Suc (polls d)\<rparr>)) = (Inr (next, d') :: _ res)"
        by (auto simp: get_next_readable_shard_def Let_def xs_def)
      then obtain rds' where
        v: "vec_pop (map snd (filter (\<lambda>(i, _). i \<in> set ready) xs)) = (next, rds')"
        and d': "d' = d\<lparr>de_shards := map snd (filter (\<lambda>(i, _). i \<notin> set ready) xs),
                       readable_shards := rds', polls := Suc (polls d)\<rparr>"
        by (cases "vec_pop (map snd (filter (\<lambda>(i, _). i \<in> set ready) xs))") auto
      have ds: "map snd xs = de_shards d" by (simp add: xs_def)
      have out: "mset (map snd (filter (\<lambda>(i, _). i \<in> set ready) xs))
          = (case next of None \<Rightarrow> mset rds' | Some sh \<Rightarrow> add_mset sh (mset rds'))"
        using v by (cases "next") (simp_all add: pop del: mset_map)
      have sp: "mset (de_shards d) = mset (map snd (filter (\<lambda>(i, _). i \<in> set ready) xs))
          + mset (map snd (filter (\<lambda>(i, _). i \<notin> set ready) xs))"
        using filter_enumerate_mset [of "\<lambda>(i, _). i \<in> set ready" xs] ds
        by (simp add: case_prod_unfold del: mset_map)
      have "mset (pool d') = mset (map snd (filter (\<lambda>(i, _). i \<notin> set ready) xs)) + mset rds'"
        using d' by (simp add: pool_def)
      moreover have "mset (pool d) = mset (de_shards d)" using True by (simp add: pool_def)
      ultimately have "mset (pool d) = (case next of None \<Rightarrow> mset (pool d') | Some sh \<Rightarrow> add_mset sh (mset (pool d')))"
        using out sp by (cases "next") (simp_all add: ac_simps del: mset_map)
      moreover have "Drain_Order.same_files d d'" using d' by (simp add: Drain_Order.same_files_def)
      ultimately show ?thesis by blast
    qed
  qed
qed

lemma cut_drain_shard:
  assumes log: "sound_log L" and r: "drain_shard e ops d sh = Inr d'" and dec: "pb_dec e = dec"
    and i: "p \<le> length L" "de_seq d = p" "image_eof d \<longrightarrow> p = length L"
      "cut_tracked enc L T n p (add_mset sh (mset (pool d))) (mset (pending_markers d))"
  shows "\<exists>p'. cut_inv L T n p' d'"
proof -
  from r obtain x rd where pb: "pb_read_next dec (dsh_pipe sh) = Inr (x, rd)" by (auto simp: drain_shard_def dec)
  have ok: "\<forall>x \<in> set L. sound_item (snd x)" using log by (simp add: sound_log_def)
  note c = cut_read [OF i(4,1) ok pb]
  show ?thesis
  proof (cases x)
    case None
    with r pb i c have "cut_inv L T n p d'"
      by (auto simp: drain_shard_def Let_def dec cut_inv_def pool_def)
    then show ?thesis by blast
  next
    case (Some mk)
    obtain m k where mk: "mk = (m, k)" by force
    let ?sh = "sh\<lparr>dsh_pipe := rd, bytes_read := u64_add (bytes_read sh) k\<rparr>"
    let ?d = "d\<lparr>pending_markers := heap_push \<lparr>pm_marker = m, pm_shard = ?sh\<rparr> (pending_markers d)\<rparr>"
    from r pb Some mk have run: "process_pending_markers ops ?d = Inr d'"
      by (auto simp: drain_shard_def Let_def dec)
    have "cut_tracked enc L T n p (mset (pool d)) (add_mset \<lparr>pm_marker = m, pm_shard = ?sh\<rparr> (mset (pending_markers d)))"
      using c Some mk by simp
    then have "cut_inv L T n p ?d" using i by (simp add: cut_inv_def pool_def heap_push_def)
    from cut_pending [OF log run this] show ?thesis .
  qed
qed

lemma cut_drain_all:
  assumes log: "sound_log L" and dec: "pb_dec e = dec"
  shows "drain_all_loop e ops fuel d = Inr d' \<Longrightarrow> cut_inv L T n p d \<Longrightarrow> \<exists>p'. cut_inv L T n p' d'"
proof (induction fuel arbitrary: d p)
  case (Suc fuel)
  from Suc.prems(1) obtain x d1 where g: "get_next_readable_shard e d = Inr (x, d1)" by auto
  note np = get_next_pool [OF g]
  show ?case
  proof (cases x)
    case None
    with Suc.prems g np have "cut_inv L T n p d'"
      by (auto simp: cut_inv_def Drain_Order.same_files_def)
    then show ?thesis by blast
  next
    case (Some sh)
    with Suc.prems(1) g obtain d2 where d: "drain_shard e ops d1 sh = Inr d2" and rest: "drain_all_loop e ops fuel d2 = Inr d'"
      by auto
    have "\<exists>p'. cut_inv L T n p' d2"
      by (rule cut_drain_shard [OF log d dec, of p])
         (use Suc.prems(2) np Some in \<open>auto simp: cut_inv_def Drain_Order.same_files_def\<close>)
    with Suc.IH [OF rest] show ?thesis by blast
  qed
qed simp

lemma cut_nothing_lost:
  assumes "cut_inv L T n p d" and "image_eof d" and "j < n"
  shows "T j = []"
proof -
  from assms have t: "cut_tracked enc L T n (length L) (mset (pool d)) (mset (pending_markers d))"
    by (auto simp: cut_inv_def)
  then obtain A P F where i: "\<forall>x \<in> set A. cut_idle enc L T (length L) (fst x) (snd x)"
    and h: "\<forall>x \<in> set P. \<exists>q. cut_held enc L T (length L) q (fst x) (snd x)"
    and f: "\<forall>j \<in> set F. T j = shard_from enc j (length L) (drop (length L) L)"
    and all: "{..<n} = fst ` set A \<union> fst ` set P \<union> set F"
    by (rule cut_tracked_E)
  have "P = []"
  proof (rule ccontr)
    assume "P \<noteq> []"
    then obtain x where "x \<in> set P" by (cases P) auto
    with h show False by (auto simp: cut_held_def)
  qed
  with all assms(3) have "j \<in> fst ` set A \<union> set F" by auto
  with i f show ?thesis by (auto simp: cut_idle_def)
qed

section \<open>The small shard\<close>

text \<open>
  The small shard is read first, up to its end, and the names it lists must be there. What may be
  missing then is only its last marker, which says that the list is complete.
\<close>

definition cut_small :: "item list \<Rightarrow> byte list \<Rightarrow> nat \<Rightarrow> ('s, 'f) deser \<Rightarrow> bool" where
  "cut_small S t i d \<longleftrightarrow>
     i \<le> length S \<and> avail (dsh_pipe (small_file_shard d)) @ t = stream_from enc i (drop i S)
     \<and> (de_metadata d \<noteq> None \<longrightarrow> length S \<le> Suc i)
     \<and> (i + 3 \<le> length S \<longrightarrow> (\<forall>f out. current_img_file d = Some (f, out) \<longrightarrow> f \<noteq> METADATA_FILE))"

lemma cut_small_step:
  assumes S: "sound_small e js S" and c: "cut_small S t i d" and i: "i < length S"
    and d1: "avail (dsh_pipe (small_file_shard d1)) @ t = snd (S ! i) @ stream_from enc (Suc i) (drop (Suc i) S)"
      "de_metadata d1 = de_metadata d" "current_img_file d1 = current_img_file d"
    and p: "process_small_file_marker e ops d1 m = Inr d'" and m: "mbody m = Some (fst (S ! i))"
  shows "cut_small S t (Suc i) d'"
proof -
  note at = sound_small_at [OF S i]
  have cur: "i + 3 \<le> length S \<Longrightarrow> current_img_file d1 = Some (f, out) \<Longrightarrow> f \<noteq> METADATA_FILE" for f out
    using c d1(3) by (simp add: cut_small_def)
  show ?thesis
  proof (cases "\<exists>sz. fst (S ! i) = FileData sz")
    case True
    then obtain sz where sz: "fst (S ! i) = FileData sz" by blast
    have len: "length (snd (S ! i)) = sz" using at(1) sz by (rule sound_itemD)
    from p m sz obtain f out where f: "current_img_file d1 = Some (f, out)"
      by (cases "current_img_file d1") (auto simp: process_small_file_marker_def Let_def)
    show ?thesis
    proof (cases "f = METADATA_FILE")
      case meta: True
      with cur f have "length S < i + 3" by fastforce
      with at(3) sz have js: "S ! i = (FileData (length js), js)" "length S = i + 2" by auto
      with sz have szj: "sz = length js" by simp
      from p m sz f meta obtain bs rd names where r: "take_read_to_end (dsh_pipe (small_file_shard d1)) sz = Inr (bs, rd)"
        and nm: "of_json e bs = Some names"
        and d': "d' = d1\<lparr>de_metadata := Some names, small_file_shard := (small_file_shard d1)\<lparr>dsh_pipe := rd,
            bytes_read := u64_add (bytes_read (small_file_shard d1)) sz\<rparr>\<rparr>"
        by (auto simp: process_small_file_marker_def Let_def rassert_def split: if_splits option.splits)
      have av: "avail (dsh_pipe (small_file_shard d1)) @ t = js @ stream_from enc (Suc i) (drop (Suc i) S)"
        using d1(1) js by simp
      have "sz \<le> length (avail (dsh_pipe (small_file_shard d1)))"
      proof (rule ccontr)
        let ?av = "avail (dsh_pipe (small_file_shard d1))"
        assume less: "\<not> ?thesis"
        then have "bs = ?av" using r by (auto simp: take_read_to_end_def split: if_splits)
        also have "?av = take (length ?av) js"
          using arg_cong [OF av, of "take (length ?av)"] less szj by simp
        finally show False using nm S less szj by (auto simp: sound_small_def)
      qed
      then have "rd = (dsh_pipe (small_file_shard d1))\<lparr>avail := drop sz (avail (dsh_pipe (small_file_shard d1)))\<rparr>"
        using r by (auto simp: take_read_to_end_def)
      moreover have "drop sz (avail (dsh_pipe (small_file_shard d1))) @ t = stream_from enc (Suc i) (drop (Suc i) S)"
        using arg_cong [OF av, of "drop sz"] szj \<open>sz \<le> _\<close> by simp
      ultimately show ?thesis using d' js(2) by (simp add: cut_small_def)
    next
      case False
      from p m sz f False obtain st out' rd where
        w: "so_write ops (img_store d1) out (dsh_pipe (small_file_shard d1)) sz = Inr (st, out', rd)"
        and d': "dsh_pipe (small_file_shard d') = rd" "de_metadata d' = de_metadata d1"
          "current_img_file d' = Some (f, out')"
        by (auto simp: process_small_file_marker_def Let_def)
      from write_exact [OF w] have w': "sz \<le> length (avail (dsh_pipe (small_file_shard d1)))"
        "avail rd = drop sz (avail (dsh_pipe (small_file_shard d1)))" by auto
      have "avail rd @ t = stream_from enc (Suc i) (drop (Suc i) S)"
        using arg_cong [OF d1(1), of "drop sz"] w' len by simp
      then show ?thesis using c d' d1(2) i False by (auto simp: cut_small_def)
    qed
  next
    case False
    have nil: "snd (S ! i) = []" using sound_itemD(3) [OF at(1)] False by blast
    have "small_file_shard d' = small_file_shard d1 \<and> de_metadata d' = de_metadata d1
      \<and> (\<forall>f out. current_img_file d' = Some (f, out) \<longrightarrow> fst (S ! i) = Filename f)"
      using p m False by (auto simp: process_small_file_marker_def Let_def select_img_file_def
          split: option.splits body.splits bool.splits)
    then show ?thesis using c d1(1,2) i at(2) nil by (fastforce simp: cut_small_def)
  qed
qed

lemma cut_small_loop:
  assumes S: "sound_small e js S" and dec: "pb_dec e = dec"
  shows "drain_small_loop e ops fuel d = Inr d' \<Longrightarrow> cut_small S t i d \<Longrightarrow> de_metadata d' \<noteq> None \<Longrightarrow>
    t = [] \<or> t = stream_from enc (length S - 1) [last S]"
proof (induction fuel arbitrary: d i)
  case (Suc fuel)
  let ?sh = "small_file_shard d"
  from Suc.prems(1) obtain x rd where r: "pb_read_next dec (dsh_pipe ?sh) = Inr (x, rd)" by (auto simp: dec)
  have av: "avail (dsh_pipe ?sh) @ t = stream_from enc i (drop i S)" and i: "i \<le> length S"
    using Suc.prems(2) by (simp_all add: cut_small_def)
  show ?case
  proof (cases x)
    case None
    then have "avail (dsh_pipe ?sh) = []" using pb_read_next_consumes [OF r] by simp
    with av have t: "t = stream_from enc i (drop i S)" by simp
    have "length S \<le> Suc i" using Suc.prems r None by (auto simp: Let_def dec cut_small_def)
    show ?thesis
    proof (cases "i = length S")
      case False
      with i \<open>length S \<le> Suc i\<close> have l: "length S = Suc i" by simp
      then have "S \<noteq> []" by auto
      with l have "drop i S = [last S]" by (cases S rule: rev_cases) auto
      with t l show ?thesis by simp
    qed (use t in simp)
  next
    case (Some y)
    obtain m n where y: "y = (m, n)" by force
    note more = pb_read_next_more [OF r [unfolded Some], of t]
    have ne: "avail (dsh_pipe ?sh) \<noteq> []" using pb_read_next_consumes [OF r] Some y by auto
    have il: "i < length S" using av ne i by (cases "i = length S") auto
    then have dr: "drop i S = S ! i # drop (Suc i) S" by (simp add: Cons_nth_drop_Suc)
    have b: "body_ok (fst (S ! i))" using sound_small_at(1) [OF S il] by (rule sound_itemD)
    let ?rest = "stream_from enc (Suc i) (drop (Suc i) S)"
    have "(dsh_pipe ?sh)\<lparr>avail := avail (dsh_pipe ?sh) @ t\<rparr>
        = \<lparr>avail = item_bytes enc i (S ! i) @ ?rest, broken = broken (dsh_pipe ?sh)\<rparr>"
      using av dr by (cases "dsh_pipe ?sh") simp
    with more read_item_frame [OF b, of i ?rest "broken (dsh_pipe ?sh)"]
    have m: "m = item_marker i (S ! i)" "avail rd @ t = snd (S ! i) @ ?rest"
      using y by (auto dest: arg_cong [of _ _ avail])
    let ?d1 = "d\<lparr>small_file_shard := ?sh\<lparr>dsh_pipe := rd, bytes_read := u64_add (bytes_read ?sh) n\<rparr>\<rparr>"
    from Suc.prems(1) r Some y obtain d2 where p: "process_small_file_marker e ops ?d1 m = Inr d2"
      and rest: "drain_small_loop e ops fuel (d2\<lparr>small_file_seq := u64_add (small_file_seq d2) 1\<rparr>) = Inr d'"
      by (auto simp: Let_def dec)
    have "cut_small S t (Suc i) d2"
      by (rule cut_small_step [OF S Suc.prems(2) il _ _ _ p]) (use m in \<open>simp_all add: item_marker_def\<close>)
    then have "cut_small S t (Suc i) (d2\<lparr>small_file_seq := u64_add (small_file_seq d2) 1\<rparr>)" by (simp add: cut_small_def)
    from Suc.IH [OF rest this Suc.prems(3)] show ?thesis .
  qed
qed simp

lemma extract_cut_small:
  assumes S: "sound_small e js S" and dec: "pb_dec e = dec"
    and r: "extract_image e ops fuel st (small # pipes) = Inr (names, d)" and t: "avail small @ t = stream_from enc 0 S"
  shows "t = [] \<or> t = stream_from enc (length S - 1) [last S]"
proof -
  from r obtain d0 d1 where new: "deserializer_new st (map dshard_new (small # pipes)) = Inr d0"
    and s: "drain_small_loop e ops fuel d0 = Inr d1" "de_metadata d1 \<noteq> None"
    by (auto simp: extract_image_def drain_small_file_shard_def rassert_def split: if_splits)
  have "cut_small S t 0 d0" using new t by (auto simp: deserializer_new_def cut_small_def dshard_new_def)
  from cut_small_loop [OF S dec s(1) this s(2)] show ?thesis .
qed

section \<open>All shards\<close>

lemma extract_cut:
  assumes log: "sound_log L" and r: "extract_image e ops fuel st (small # pipes) = Inr (names, d)"
    and dec: "pb_dec e = dec"
    and p: "list_all2 (\<lambda>p j. avail p @ T j = shard_from enc j 0 L) pipes ks"
    and ks: "distinct ks" "set ks = {..<n}" and j: "j < n"
  shows "T j = []"
proof -
  from r obtain d0 d1 d2 where new: "deserializer_new st (map dshard_new (small # pipes)) = Inr d0"
    and s: "drain_small_loop e ops fuel d0 = Inr d1" and a: "drain_all_loop e ops fuel d2 = Inr d" "image_eof d"
    and d2: "d2 = d1\<lparr>de_metadata := None\<rparr>"
    by (auto simp: extract_image_def drain_small_file_shard_def drain_all_def)
  have d0: "de_shards d0 = map dshard_new pipes" "readable_shards d0 = []" "pending_markers d0 = []"
    "de_seq d0 = 0" "\<not> image_eof d0" using new by (auto simp: deserializer_new_def)
  have same: "same_shards d0 d1" by (rule drain_small_loop_keeps [OF s])
  have len: "length ks = length pipes" using p by (simp add: list_all2_lengthD)
  let ?A = "zip ks (map dshard_new pipes)"
  have i: "cut_idle enc L T 0 (fst x) (snd x)" if "x \<in> set ?A" for x
  proof -
    from that obtain i where "i < length ks" "fst x = ks ! i" "snd x = dshard_new (pipes ! i)"
      using len by (force simp: in_set_zip)
    with p show ?thesis by (simp add: cut_idle_def dshard_new_def list_all2_conv_all_nth)
  qed
  have m: "map fst ?A = ks" "map snd ?A = map dshard_new pipes" using len by simp_all
  then have "fst ` set ?A = {..<n}" using ks(2) by (metis list.set_map)
  with i m ks(1) have "cut_tracked enc L T n 0 (mset (map dshard_new pipes)) {#}" unfolding cut_tracked_def
    by (intro exI [of _ ?A] exI [of _ "[]"]) simp
  then have "cut_inv L T n 0 d2" using same d0 d2 by (simp add: cut_inv_def pool_def)
  from cut_drain_all [OF log dec a(1) this] cut_nothing_lost [OF _ a(2) j] show ?thesis by blast
qed

end

section \<open>The shards of a capture\<close>

lemma event_items_sound:
  "length (snd e) < 2 ^ 31 \<Longrightarrow> length (fst e) \<le> 10000 \<Longrightarrow> x \<in> set (event_items n cur e) \<Longrightarrow> sound_item x"
  by (frule event_items_plain, assumption+)
     (auto simp: sound_item_def event_items_def data_item_def split: if_splits)

lemma run_items_sound:
  "(\<forall>e \<in> set es. length (snd e) < 2 ^ 31) \<Longrightarrow> names_ok es \<Longrightarrow> x \<in> set (run_items small n want cur es) \<Longrightarrow>
   sound_item x \<and> fst x \<noteq> ImageEof True"
proof (induction es arbitrary: cur)
  case (Cons e es)
  then show ?case
    using event_items_sound [of e x n cur] event_items_plain [of e x n cur]
    by (auto simp: names_ok_def split: if_splits)
qed simp

lemma capture_sound_log:
  assumes L: "map snd L = large_items k cap es" and fits: "run_fits k es" "length (large_items k cap es) < 2 ^ 64"
    and names: "names_ok es"
  shows "sound_log L"
proof -
  let ?run = "run_items (small_name k) (chunk_bytes k cap) False None es"
  have data: "\<forall>e \<in> set es. length (snd e) < 2 ^ 31" using fits(1) by (simp add: run_fits_def)
  note run = run_items_sound [OF data names, of _ "small_name k" "chunk_bytes k cap" False None]
  have len: "length L = Suc (length ?run)" using arg_cong [OF L, of length] by (simp add: large_items_def)
  have at: "snd (L ! q) = (?run @ [(ImageEof True, [])]) ! q" if "q < length L" for q
    using arg_cong [OF L, of "\<lambda>xs. xs ! q"] that by (simp add: large_items_def)
  have "sound_item (snd x)" if "x \<in> set L" for x
  proof -
    have "snd x \<in> set (large_items k cap es)" using that by (simp flip: L)
    then have "snd x \<in> set ?run \<or> snd x = (ImageEof True, [])" by (auto simp: large_items_def)
    then show ?thesis using run [of "snd x"] by (auto simp: sound_item_def)
  qed
  moreover have "Suc q = length L" if q: "q < length L" and e: "fst (snd (L ! q)) = ImageEof True" for q
  proof (rule ccontr)
    assume "Suc q \<noteq> length L"
    then have "q < length ?run" using q len by simp
    then have "snd (L ! q) \<in> set ?run" using at [OF q] by (simp add: nth_append)
    with run e show False by blast
  qed
  moreover have "length L < 2 ^ 64" using fits(2) arg_cong [OF L, of length] by simp
  ultimately show ?thesis by (simp add: sound_log_def)
qed

text \<open>A permutation of an image of a list is the image of a permutation of it.\<close>

lemma mset_map_split:
  "mset ys = mset (map f js) \<Longrightarrow> \<exists>ks. mset ks = mset js \<and> map f ks = ys"
proof (induction ys arbitrary: js)
  case (Cons y ys)
  then have "y \<in> set (map f js)" by (metis list.set_intros(1) set_mset_mset)
  then obtain j where "j \<in> set js" "f j = y" by auto
  then obtain l r where j: "js = l @ j # r" "f j = y" by (meson split_list)
  with Cons.prems have "mset ys = mset (map f (l @ r))" by simp
  from Cons.IH [OF this] obtain ks where ks: "mset ks = mset (l @ r)" "map f ks = ys" by blast
  then show ?case using j by (intro exI [of _ "j # ks"]) simp
qed simp

lemma capture_sound_small:
  assumes fits: "run_fits k es" and names: "names_ok es"
    and json: "\<forall>n < length (to_json k (finished_names es)). of_json e (take n (to_json k (finished_names es))) = None"
  shows "sound_small e (to_json k (finished_names es)) (small_items k cap es)"
proof -
  let ?run = "run_items (small_name k) (chunk_bytes k cap) True None es" and ?js = "to_json k (finished_names es)"
  have data: "\<forall>e \<in> set es. length (snd e) < 2 ^ 31" and js: "length ?js < 2 ^ 32" using fits by (simp_all add: run_fits_def)
  have "fst x \<noteq> Filename METADATA_FILE" if "x \<in> set ?run" for x
    using run_items_plain [OF data names that] by (auto simp: plain_item_def)
  moreover have "sound_item x" if "x \<in> set (small_items k cap es)" for x
    using that run_items_sound [OF data names, of x] js
    by (auto simp: small_items_def metadata_items_def sound_item_def METADATA_FILE_def)
  ultimately show ?thesis
    unfolding sound_small_def using json by (intro conjI exI [of _ ?run]) (simp_all add: small_items_def metadata_items_def)
qed

text \<open>
  \<open>cut_short\<close>: the streams arrive without their ends, and more is missing than the last marker of
  the small shard, the one after the list of names.
\<close>

definition last_small_marker :: "cenv \<Rightarrow> int \<Rightarrow> drain_event list \<Rightarrow> byte list" where
  "last_small_marker k cap es =
     stream_from (pb_enc k) (length (small_items k cap es) - 1) [(FileEof True, [])]"

definition cut_short :: "byte list \<Rightarrow> reader list \<Rightarrow> reader list \<Rightarrow> bool" where
  "cut_short marker pipes full \<longleftrightarrow>
     list_all2 (\<lambda>p q. prefix (avail p) (avail q)) pipes full
     \<and> (map avail (tl pipes) \<noteq> map avail (tl full)
        \<or> avail (hd full) \<notin> {avail (hd pipes), avail (hd pipes) @ marker})"

interpretation fs_cut: cut_stream "ov_ops fs_ops" enc_marker dec_marker
  by (intro cut_stream.intro fs_over_exact.exact_writes_axioms marker_codec.msg_codec_axioms)

lemma extract_cmd_image:
  assumes "extract_cmd e fuel ask mkdir disk pipes ext = Inr st"
  shows "\<exists>st0 names (d :: (fs_store overlay, fs_file ov_file) deser).
           extract_image e (ov_ops fs_ops) fuel st0 pipes = Inr (names, d)"
proof -
  let ?st0 = "fold (\<lambda>(n, p) o'. add_overlay o' n p) ext (overlay_new disk ask)"
  from assms have "\<exists>y. extract_image e (ov_ops fs_ops) fuel ?st0 pipes = Inr y"
    by (cases "extract_image e (ov_ops fs_ops) fuel ?st0 pipes")
       (simp_all add: extract_cmd_def drain_shards_into_img_store_def Let_def split: if_splits)
  then show ?thesis by (auto simp: split_paired_Ex)
qed

text \<open>C14: an image that arrives incomplete is never taken for a whole one. When the stream of any shard
  ends early, at whatever byte, be it inside a marker, inside a payload or between two chunks, and
  whether the pipe then reports its end or an error, the extract command ends, with an error or a
  panic, and never successfully: not for any schedule of the shards, any order they are passed in, any disk or any
  external files. The one exception is the last marker of the small shard, the one after the
  list of names, which carries nothing. Of the JSON parser it is assumed that it refuses a list that is cut.\<close>

theorem truncation_is_detected:
  assumes cap: "capture_events k shs cap es = Inr s" and fresh: "fresh_shards shs"
    and run: "run_fits k es" "names_ok es" "length (large_items k cap es) < 2 ^ 64"
    and enc: "pb_enc k = enc_marker" and dec: "pb_dec e = dec_marker"
    and json: "\<forall>n < length (to_json k (finished_names es)). of_json e (take n (to_json k (finished_names es))) = None"
    and full: "mset full = mset (map pipe_of (shards s))"
    and cut: "cut_short (last_small_marker k cap es) (small # pipes) (pipe_of (small_shard s) # full)"
    and poll: "\<And>n k. poll_ready e n k \<noteq> Inl Diverge"
    and fuel: "sum_list (map (\<lambda>p. Suc (length (avail p))) (small # pipes)) < fuel"
  shows "\<exists>x. extract_cmd e fuel ask mkdir disk (small # pipes) ext = Inl x \<and> x \<noteq> Diverge"
proof (rule ccontr)
  assume "\<not> ?thesis"
  then have "\<not> (\<exists>x. extract_cmd e fuel ask mkdir disk (small # pipes) ext = Inl x)"
    using extract_cmd_ends [OF poll fuel, of ask mkdir disk ext] by auto
  then obtain st0 names and d :: "(fs_store overlay, fs_file ov_file) deser" where
    ex: "extract_image e (ov_ops fs_ops) fuel st0 (small # pipes) = Inr (names, d)"
    by (cases "extract_cmd e fuel ask mkdir disk (small # pipes) ext") (blast dest: extract_cmd_image)+
  obtain c where c: "logged k s c" "map snd (snd c) = large_items k cap es" "fst c = small_items k cap es"
    using capture_logged [OF cap fresh run(1)] by (elim exE conjE) (simp add: that)
  obtain t where t: "avail small @ t = stream_from enc_marker 0 (small_items k cap es)"
    using cut c(1,3) enc by (auto simp: cut_short_def logged_def pipe_of_def prefix_def)
  have small: "avail (pipe_of (small_shard s)) \<in> {avail small, avail small @ last_small_marker k cap es}"
    using fs_cut.extract_cut_small [OF capture_sound_small [OF run(1,2) json, of cap] dec ex t] t c(1,3) enc
    by (auto simp: logged_def pipe_of_def last_small_marker_def small_items_def metadata_items_def)
  let ?at = "\<lambda>j. pipe_of (shards s ! j)" and ?n = "length (shards s)"
  have "map pipe_of (shards s) = map ?at [0..<?n]" by (rule nth_equalityI) simp_all
  with full have "mset full = mset (map ?at [0..<?n])" by (simp only:)
  from mset_map_split [OF this] obtain ks where ks: "mset ks = mset [0..<?n]" "map ?at ks = full" by blast
  have set: "set ks = {..<?n}" using ks(1) by (simp add: mset_eq_setD [OF ks(1)] atLeast0LessThan)
  have dist: "distinct ks" by (simp add: mset_eq_imp_distinct_iff [OF ks(1)])
  have pre: "list_all2 (\<lambda>p q. prefix (avail p) (avail q)) pipes full" using cut by (simp add: cut_short_def)
  have len: "length ks = length pipes" using list_all2_lengthD [OF pre] ks(2) by auto
  define T where "T j = (case map_of (zip ks pipes) j of
      Some p \<Rightarrow> drop (length (avail p)) (avail (?at j)) | None \<Rightarrow> [])" for j
  have T: "avail (pipes ! i) @ T (ks ! i) = avail (full ! i)" if "i < length ks" for i
  proof -
    have "prefix (avail (pipes ! i)) (avail (full ! i))"
      using pre len that by (simp add: list_all2_conv_all_nth)
    moreover have "full ! i = ?at (ks ! i)" using ks(2) that by auto
    ultimately show ?thesis
      using dist len that by (auto simp: T_def map_of_zip_nth prefix_def)
  qed
  have "avail (full ! i) = shard_from enc_marker (ks ! i) 0 (snd c)" if i: "i < length ks" for i
  proof -
    have "ks ! i < ?n" using set nth_mem [OF i] by auto
    moreover have "full ! i = ?at (ks ! i)" using ks(2) i by auto
    ultimately show ?thesis using c(1) enc by (simp add: logged_def pipe_of_def)
  qed
  with T len have tail: "list_all2 (\<lambda>p j. avail p @ T j = shard_from enc_marker j 0 (snd c)) pipes ks"
    by (simp add: list_all2_conv_all_nth)
  have nil: "T j = []" if "j < ?n" for j
    by (rule fs_cut.extract_cut [OF capture_sound_log [OF c(2) run(1,3,2)] ex dec tail dist set that])
  have "map avail pipes = map avail full"
  proof (rule nth_equalityI)
    fix i
    assume "i < length (map avail pipes)"
    then have i: "i < length ks" using len by simp
    with T [OF i] nil set show "map avail pipes ! i = map avail full ! i"
      using len list_all2_lengthD [OF pre] nth_mem [OF i] by auto
  qed (use list_all2_lengthD [OF pre] in simp)
  with cut small show False by (simp add: cut_short_def)
qed

definition strict_denv :: denv where
  "strict_denv = demo_denv\<lparr>of_json := (\<lambda>bs. if bs = names_bytes (finished_names demo_run)
                                         then Some (finished_names demo_run) else None)\<rparr>"

theorem truncation_is_detected_witness:
  "\<exists>s x fuel. capture_events demo_cenv demo_shards 64 demo_run = Inr s
    \<and> extract_cmd strict_denv fuel (\<lambda>_ _. 3) (\<lambda>_. True) demo_disk
        (pipe_of (small_shard s) # replicate (length (shards s)) \<lparr>avail = [], broken = False\<rparr>) [] = Inl x \<and> x \<noteq> Diverge"
proof -
  obtain s where s: "capture_events demo_cenv demo_shards 64 demo_run = Inr s" using demo_captured by blast
  obtain c where c: "logged demo_cenv s c" "map snd (snd c) = large_items demo_cenv 64 demo_run"
    using capture_logged [OF s demo_shards_ok(3) demo_run_fits] by auto
  have "snd c \<noteq> []" using c(2) by (auto simp: large_items_def)
  then obtain j x L where L: "snd c = (j, x) # L" by (cases "snd c") auto
  let ?full = "map pipe_of (shards s)" and ?cut = "replicate (length (shards s)) \<lparr>avail = [], broken = False\<rparr>"
  have j: "j < length (shards s)" using c(1) L by (simp add: logged_def)
  have "avail (pipe_of (shards s ! j)) \<noteq> []"
    using c(1) L j by (simp add: logged_def pipe_of_def item_bytes_def frame_def put_u32_le_expand)
  then have "map avail ?cut ! j \<noteq> map avail ?full ! j" using j by simp
  then have ne: "map avail ?cut \<noteq> map avail ?full" by metis
  have "list_all2 (\<lambda>p q. prefix (avail p) (avail q)) ?cut ?full" by (simp add: list_all2_conv_all_nth)
  with ne have cut: "cut_short (last_small_marker demo_cenv 64 demo_run)
      (pipe_of (small_shard s) # ?cut) (pipe_of (small_shard s) # ?full)" unfolding cut_short_def by simp
  have env: "pb_enc demo_cenv = enc_marker" "pb_dec strict_denv = dec_marker"
    "to_json demo_cenv (finished_names demo_run) = names_bytes (finished_names demo_run)"
    by (simp_all add: demo_cenv_def strict_denv_def demo_denv_def)
  have "\<forall>n < length bs. take n bs \<noteq> bs" for bs :: "byte list"
    by (metis length_take min.absorb4 nat_neq_iff)
  then have json: "\<forall>n < length (to_json demo_cenv (finished_names demo_run)).
      of_json strict_denv (take n (to_json demo_cenv (finished_names demo_run))) = None"
    unfolding env by (simp add: strict_denv_def)
  have fits: "length (large_items demo_cenv 64 demo_run) < 2 ^ 64" using demo_image_fits by (simp add: image_fits_def)
  let ?fuel = "Suc (sum_list (map (\<lambda>p. Suc (length (avail p))) (pipe_of (small_shard s) # ?cut)))"
  have "\<exists>x. extract_cmd strict_denv ?fuel (\<lambda>_ _. 3) (\<lambda>_. True) demo_disk (pipe_of (small_shard s) # ?cut) [] = Inl x
      \<and> x \<noteq> Diverge"
    by (rule truncation_is_detected [OF s demo_shards_ok(3) demo_run_fits demo_names_ok fits env(1,2) json refl cut])
       (simp_all add: strict_denv_def demo_denv_def)
  with s show ?thesis by blast
qed

end
