(* ===== verification/Sockets.thy ===== *)
theory Sockets
  imports Connection Fs_Store
begin

text \<open>
  \<open>Listener\<close> of \<open>src/connection.rs\<close>: the socket files of the two commands. The record
  \<open>sock_world\<close> is what the system calls see: what there is at each path, where \<open>unlink()\<close> and
  \<open>bind()\<close> are refused, and the connections that wait on each listening socket. A bound socket
  file stays when its process ends; clients reach the socket that was bound to the path last.
\<close>

section \<open>Listening sockets\<close>

datatype path_entry = Socket nat | Other_File

record 'c sock_world =
  sk_at :: "string \<Rightarrow> path_entry option"
  sk_kept :: "string \<Rightarrow> bool"            \<comment> \<open>\<open>unlink()\<close> fails\<close>
  sk_refused :: "string \<Rightarrow> bool"         \<comment> \<open>\<open>bind()\<close> fails although nothing is there\<close>
  sk_next :: nat
  sk_backlog :: "nat \<Rightarrow> 'c list"

record listener =
  li_fd :: nat

definition IMG_STREAMER_CAPTURE_SOCKET_NAME :: string where
  "IMG_STREAMER_CAPTURE_SOCKET_NAME = ''streamer-capture.sock''"

definition IMG_STREAMER_SERVE_SOCKET_NAME :: string where
  "IMG_STREAMER_SERVE_SOCKET_NAME = ''streamer-serve.sock''"

text \<open>The result of \<open>remove_file\<close> is ignored.\<close>

definition remove_file :: "string \<Rightarrow> 'c sock_world \<Rightarrow> 'c sock_world" where
  "remove_file path w = (if sk_kept w path then w else w\<lparr>sk_at := (sk_at w)(path := None)\<rparr>)"

definition listener_bind :: "string \<Rightarrow> 'c sock_world \<Rightarrow> (listener \<times> 'c sock_world) res" where
  "listener_bind socket_path w =
     (let w1 = remove_file socket_path w in
      rbind (ensure (sk_at w1 socket_path = None \<and> \<not> sk_refused w1 socket_path) Io_Error) (\<lambda>_.
        Inr (\<lparr>li_fd = sk_next w1\<rparr>,
             w1\<lparr>sk_at := (sk_at w1)(socket_path \<mapsto> Socket (sk_next w1)), sk_next := Suc (sk_next w1),
                sk_backlog := (sk_backlog w1)(sk_next w1 := [])\<rparr>)))"

definition bind_for_capture :: "string \<Rightarrow> 'c sock_world \<Rightarrow> (listener \<times> 'c sock_world) res" where
  "bind_for_capture dir = listener_bind (path_join dir IMG_STREAMER_CAPTURE_SOCKET_NAME)"

definition bind_for_restore :: "string \<Rightarrow> 'c sock_world \<Rightarrow> (listener \<times> 'c sock_world) res" where
  "bind_for_restore dir = listener_bind (path_join dir IMG_STREAMER_SERVE_SOCKET_NAME)"

text \<open>\<open>accept()\<close> waits while no client has connected: then there is no result.\<close>

definition listener_accept :: "listener \<Rightarrow> 'c sock_world \<Rightarrow> ('c \<times> 'c sock_world) res" where
  "listener_accept l w =
     (case sk_backlog w (li_fd l) of
        [] \<Rightarrow> Inl Diverge
      | c # cs \<Rightarrow> Inr (c, w\<lparr>sk_backlog := (sk_backlog w)(li_fd l := cs)\<rparr>))"

text \<open>\<open>into_accept\<close> drops the listener: connections that wait on it are closed.\<close>

definition into_accept :: "listener \<Rightarrow> 'c sock_world \<Rightarrow> ('c \<times> 'c sock_world) res" where
  "into_accept l w =
     rbind (listener_accept l w) (\<lambda>(c, w'). Inr (c, w'\<lparr>sk_backlog := (sk_backlog w')(li_fd l := [])\<rparr>))"

section \<open>What clients reach\<close>

text \<open>A client connects to the socket at a path, or is refused.\<close>

definition connects :: "string \<Rightarrow> 'c \<Rightarrow> 'c sock_world \<Rightarrow> 'c sock_world" where
  "connects path c w =
     (case sk_at w path of
        Some (Socket fd) \<Rightarrow> w\<lparr>sk_backlog := (sk_backlog w)(fd := sk_backlog w fd @ [c])\<rparr>
      | _ \<Rightarrow> w)"

lemma listener_bind_Inr:
  "listener_bind p w = Inr (l, w') \<Longrightarrow>
   li_fd l = sk_next w \<and> sk_at w' = (sk_at w)(p \<mapsto> Socket (sk_next w)) \<and> sk_next w' = Suc (sk_next w)
   \<and> sk_backlog w' = (sk_backlog w)(sk_next w := []) \<and> sk_kept w' = sk_kept w \<and> sk_refused w' = sk_refused w"
  by (auto simp: listener_bind_def remove_file_def Let_def fun_eq_iff split: if_splits)

lemma listener_bind_total:
  "\<not> sk_refused w p \<Longrightarrow> sk_at w p = None \<or> \<not> sk_kept w p \<Longrightarrow> \<exists>l w'. listener_bind p w = Inr (l, w')"
  by (auto simp: listener_bind_def remove_file_def Let_def)

lemma connects_other:
  "sk_at w p = Some (Socket fd) \<Longrightarrow> fd' \<noteq> fd \<Longrightarrow> sk_backlog (connects p c w) fd' = sk_backlog w fd'"
  by (simp add: connects_def)

lemma connects_at: "sk_at (connects p c w) = sk_at w"
  by (simp add: connects_def split: option.split path_entry.split)

lemma connects_queued:
  "sk_at w p = Some (Socket fd) \<Longrightarrow>
   sk_backlog (fold (connects p) cs w) fd = sk_backlog w fd @ cs
   \<and> (\<forall>fd'. fd' \<noteq> fd \<longrightarrow> sk_backlog (fold (connects p) cs w) fd' = sk_backlog w fd')"
proof (induction cs arbitrary: w)
  case (Cons c cs)
  have "sk_at (connects p c w) p = Some (Socket fd)" using Cons.prems by (simp add: connects_at)
  from Cons.IH [OF this] Cons.prems show ?case by (auto simp: connects_def)
qed simp

lemma socket_paths_differ:
  "path_join d IMG_STREAMER_CAPTURE_SOCKET_NAME \<noteq> path_join d IMG_STREAMER_SERVE_SOCKET_NAME"
  by (simp add: path_join_def IMG_STREAMER_CAPTURE_SOCKET_NAME_def IMG_STREAMER_SERVE_SOCKET_NAME_def)


text \<open>A socket file was left behind, and one client connects.\<close>

definition left_behind :: "nat sock_world" where
  "left_behind = \<lparr>sk_at = [''/img/streamer-capture.sock'' \<mapsto> Socket 3], sk_kept = \<lambda>_. False, sk_refused = \<lambda>_. False,
                  sk_next = 4, sk_backlog = \<lambda>_. []\<rparr>"


end
