(* ===== verification/Serve_Replies.thy ===== *)
theory Serve_Replies
  imports Serve_Flow
begin

text \<open>
  How \<open>serve_img\<close> answers, and when it does not end. \<open>serve_answer\<close> is the protocol in one
  expression; a request is answered accordingly, or refused when its file has been sent.
\<close>

section \<open>Answers\<close>

definition serve_answer :: "string list \<Rightarrow> chunk_store \<Rightarrow> string list \<Rightarrow> string \<Rightarrow> reply option" where
  "serve_answer file_list store sent n =
     (if n \<notin> set file_list then Some \<lparr>re_exists = False, re_status = DoesNotExist\<rparr>
      else if map_of store n \<noteq> None then Some \<lparr>re_exists = True, re_status = Ready\<rparr>
      else if n \<notin> set sent then Some \<lparr>re_exists = True, re_status = NotReady\<rparr>
      else None)"

definition client_out :: "serve_state \<Rightarrow> nat \<Rightarrow> byte list" where
  "client_out st key =
     (case registered (sv_poller st) key of Some (Client c) \<Rightarrow> written (sock_out c) | _ \<Rightarrow> [])"

lemma send_file_reply_written:
  "send_file_reply ce c b s = Inr c' \<Longrightarrow>
   written (sock_out c') = written (sock_out c)
     @ frame (reply_enc ce) \<lparr>re_exists = b, re_status = (case s of None \<Rightarrow> if \<not> b then DoesNotExist else Ready | Some s \<Rightarrow> s)\<rparr>"
  by (auto simp: send_file_reply_def Let_def pb_write_Inr dest!: write_all_written)

lemma recv_pipe_out: "recv_pipe c = Inr (p, c') \<Longrightarrow> sock_out c' = sock_out c"
  by (auto simp: recv_pipe_def recv_fd_def unix_pipe_new_def split: list.splits fd_obj.splits)

lemma client_out_set:
  "registered (sv_poller st) key = Some (Client c0) \<Longrightarrow> client_out (set_client key c st) key = written (sock_out c)"
  by (simp add: client_out_def set_client_def poller_set_registered)

lemma serve_request_answer:
  assumes reg: "registered (sv_poller st) key = Some (Client c0)"
    and r: "serve_file_request env fl key c n st = Inr st'"
  shows "\<exists>a. serve_answer fl (sv_store st) (filenames_of_sent_files st) n = Some a
           \<and> client_out st' key = written (sock_out c) @ frame (reply_enc (sv_codec env)) a"
proof (cases "map_of (sv_store st) n")
  case None
  then show ?thesis using r reg
    by (cases "n \<in> set fl"; cases "n \<in> set (filenames_of_sent_files st)")
       (auto simp: serve_file_request_def serve_answer_def client_out_set dest: send_file_reply_written)
next
  case (Some cs)
  show ?thesis
  proof (cases "n \<in> set fl")
    case False
    with Some r reg show ?thesis
      by (auto simp: serve_file_request_def serve_answer_def client_out_set dest: send_file_reply_written)
  next
    case True
    obtain c1 p c2 all p' rel k where
      c1: "send_file_reply (sv_codec env) c True (Some Ready) = Inr c1"
      and p: "recv_pipe c1 = Inr (p, c2)"
      and st': "st' = (let st2 = set_client key c2 (st\<lparr>sv_store := AList.delete n (sv_store st),
             filenames_of_sent_files := List.insert n (filenames_of_sent_files st),
             sv_released := rel, sends := k\<rparr>)
          in if all then st2\<lparr>closed_pipes := closed_pipes st2 @ [(n, p')]\<rparr>
             else st2\<lparr>open_pipes := open_pipes st2 @ [(n, p')]\<rparr>)"
      by (rule serve_request_ready [OF r Some True])
    have "client_out st' key = written (sock_out c2)"
      using reg unfolding st' by (simp add: Let_def client_out_def set_client_def poller_set_registered)
    then show ?thesis
      using Some True send_file_reply_written [OF c1] recv_pipe_out [OF p] by (simp add: serve_answer_def)
  qed
qed

lemma serve_request_refused:
  assumes "serve_answer fl (sv_store st) (filenames_of_sent_files st) n = None"
  shows "serve_file_request env fl key c n st = Inl (Err Requested_Twice)"
  using assms by (auto simp: serve_answer_def serve_file_request_def split: if_splits option.splits)

section \<open>Waiting for a client that has gone\<close>

definition client_gone :: "serve_env \<Rightarrow> nat \<Rightarrow> serve_state \<Rightarrow> bool" where
  "client_gone env key st \<longleftrightarrow>
     reciever_eof st \<and> open_pipes st = [] \<and> pending_events (sv_poller st) = []
     \<and> (\<exists>c. registered (sv_poller st) key = Some (Client c) \<and> hung_up c)
     \<and> (\<forall>i. wait_ready (sv_poll env) i = Inr [key])"

lemma client_gone_round:
  assumes "client_gone env key st"
  shows "\<exists>st'. serve_round env fl st = Inr (st', False) \<and> client_gone env key st'"
proof -
  from assms obtain c where c: "registered (sv_poller st) key = Some (Client c)" "hung_up c"
    unfolding client_gone_def by blast
  from c(1) obtain fd where fd: "map_of (slab (sv_poller st)) key = Some (fd, Client c)"
    by (auto simp: registered_def)
  then have ne: "slab (sv_poller st) \<noteq> []" by auto
  let ?p = "(sv_poller st)\<lparr>waits := Suc (waits (sv_poller st))\<rparr>"
  have "pump env (receive_chunks env st) = Inr (st\<lparr>sv_poller := sv_poller st\<rparr>)"
    using assms by (simp add: client_gone_def receive_chunks_def pump_def)
  moreover have "poller_poll (sv_poll env) (sv_poller st) 16 = Inr (Some (key, Client c), ?p)"
    using assms ne fd by (simp add: poller_poll_def client_gone_def Let_def)
  ultimately have "serve_round env fl st = Inr (set_client key c (st\<lparr>sv_poller := ?p\<rparr>), False)"
    using read_request_hung_up [OF c(2)] by (simp add: serve_round_def Let_def serve_client_def)
  moreover have "client_gone env key (set_client key c (st\<lparr>sv_poller := ?p\<rparr>))"
    using assms c fd
    by (auto simp: client_gone_def set_client_def poller_set_def registered_def update_conv')
  ultimately show ?thesis by blast
qed

lemma client_gone_loop: "client_gone env key st \<Longrightarrow> serve_loop env fl fuel st = Inl Diverge"
proof (induction fuel arbitrary: st)
  case (Suc fuel)
  from client_gone_round [OF Suc.prems] obtain st' where
    "serve_round env fl st = Inr (st', False)" "client_gone env key st'" by blast
  with Suc.IH show ?case by simp
qed simp

section \<open>Properties\<close>

text \<open>C32: a request for a file that is answered gets the answer of the protocol: \<open>DoesNotExist\<close> for a name
  that is not in the image, \<open>Ready\<close> when data is there, \<open>NotReady\<close> when the file has not arrived and
  was not asked for before; and nothing else is written to the client.\<close>

theorem request_answered:
  assumes "registered (sv_poller st) key = Some (Client c0)"
    and "serve_file_request env fl key c n st = Inr st'"
  shows "\<exists>a. serve_answer fl (sv_store st) (filenames_of_sent_files st) n = Some a
           \<and> client_out st' key = written (sock_out c) @ frame (reply_enc (sv_codec env)) a"
  by (rule serve_request_answer [OF assms])

text \<open>A file that was handed out already and has nothing left to send cannot be asked for again: the
  request ends the serving thread with an error.\<close>

theorem second_request_refused:
  assumes "n \<in> set fl" and "map_of (sv_store st) n = None" and "n \<in> set (filenames_of_sent_files st)"
  shows "serve_file_request env fl key c n st = Inl (Err Requested_Twice)"
  by (rule serve_request_refused) (use assms in \<open>simp add: serve_answer_def\<close>)

text \<open>C28: a client that hangs up without sending \<open>stop-listener\<close> is never removed from the poller; its
  socket stays readable, and when it is the only one left the loop spins forever.\<close>

theorem hung_up_client_spins:
  assumes "client_gone env key st"
  shows "serve_loop env fl fuel st = Inl Diverge"
  by (rule client_gone_loop [OF assms])

definition idle_client :: "sink connection" where
  "idle_client = \<lparr>sock_in = \<lparr>avail = [], broken = False\<rparr>, sock_fds = [], sock_out = \<lparr>written = [], room = None\<rparr>\<rparr>"

definition idle_state :: serve_state where
  "idle_state = (serve_start [(''a'', [Fc_Eof])]
      \<lparr>slab = [(1, 8, Client idle_client)], pending_events = [], ctls = 2, waits = 1\<rparr> 0)\<lparr>reciever_eof := True\<rparr>"

definition idle_env :: serve_env where
  "idle_env = \<lparr>sv_rx = rx_ref, sv_poll = \<lparr>vacant_key = length, ctl_ok = (\<lambda>_. True), wait_ready = (\<lambda>_. Inr [1])\<rparr>,
     sv_codec = \<lparr>req_dec = (\<lambda>_. None), reply_enc = (\<lambda>_. [5]), list_enc = (\<lambda>_. [])\<rparr>,
     sv_recv = (\<lambda>_. ([], True)), sv_bind = Inr 7, sv_accept = (\<lambda>_. Inr (8, idle_client)), sv_splice = (\<lambda>_ _. 3)\<rparr>"

theorem request_answered_witness:
  "serve_answer [''b''] [(''a'', [Fc_Eof])] [] ''b'' = Some \<lparr>re_exists = True, re_status = NotReady\<rparr>
   \<and> (\<exists>st'. serve_file_request idle_env [''b''] 1 idle_client ''b'' idle_state = Inr st'
        \<and> client_out st' 1 = [1, 0, 0, 0, 5])"
proof -
  have reg: "registered (sv_poller idle_state) 1 = Some (Client idle_client)"
    by (simp add: idle_state_def serve_start_def registered_def)
  obtain st' where st': "serve_file_request idle_env [''b''] 1 idle_client ''b'' idle_state = Inr st'"
    by (auto simp: serve_file_request_def idle_state_def serve_start_def send_file_reply_def idle_env_def
        pb_write_def KB_def write_all_def idle_client_def rassert_def)
  from request_answered [OF reg st'] st' show ?thesis
    by (auto simp: serve_answer_def idle_state_def serve_start_def idle_client_def idle_env_def frame_def
        put_u32_le_expand)
qed

theorem second_request_refused_witness:
  "serve_file_request idle_env [''b''] 1 idle_client ''b'' (idle_state\<lparr>filenames_of_sent_files := [''b'']\<rparr>)
   = Inl (Err Requested_Twice)"
  by (rule second_request_refused) (simp_all add: idle_state_def serve_start_def)

theorem hung_up_client_spins_witness: "serve_loop idle_env [''a''] 1000 idle_state = Inl Diverge"
  by (rule hung_up_client_spins [of _ 1])
     (simp add: client_gone_def idle_state_def idle_env_def serve_start_def registered_def hung_up_def idle_client_def)

end
