(* ===== verification/Cli.thy ===== *)
theory Cli
  imports Connection
begin

text \<open>
  The command line of \<open>src/main.rs\<close>: the two parsers of colon-separated arguments, the checks
  \<open>do_main\<close> makes before it starts a command, and the exit status. The argument parser
  (structopt) is not part of the repository; \<open>opts\<close> is what it returns. \<open>str::parse\<close> for
  \<open>i32\<close> and \<open>u16\<close> is Rust's: an optional sign, then at least one decimal digit, in range.
\<close>

section \<open>Parsers\<close>

fun split_on :: "char \<Rightarrow> string \<Rightarrow> string list" where
  "split_on c [] = [[]]"
| "split_on c (x # xs) =
     (if x = c then [] # split_on c xs
      else (case split_on c xs of [] \<Rightarrow> [[x]] | p # ps \<Rightarrow> (x # p) # ps))"

abbreviation colon :: char where "colon \<equiv> CHR 0x3A"

definition digit_of :: "char \<Rightarrow> int option" where
  "digit_of c = (let n = int (of_char c) in if 48 \<le> n \<and> n \<le> 57 then Some (n - 48) else None)"

fun parse_digits :: "int \<Rightarrow> string \<Rightarrow> int option" where
  "parse_digits acc [] = Some acc"
| "parse_digits acc (c # cs) =
     (case digit_of c of None \<Rightarrow> None | Some d \<Rightarrow> parse_digits (10 * acc + d) cs)"

definition parse_int :: "bool \<Rightarrow> int \<Rightarrow> int \<Rightarrow> string \<Rightarrow> int option" where
  "parse_int is_signed lo hi s =
     (let (neg, ds) = (case s of
                         [] \<Rightarrow> (False, [])
                       | c # cs \<Rightarrow> if c = CHR ''+'' then (False, cs)
                                  else if c = CHR ''-'' \<and> is_signed then (True, cs) else (False, s)) in
      if ds = [] then None
      else case parse_digits 0 ds of
             None \<Rightarrow> None
           | Some v \<Rightarrow> let n = (if neg then - v else v) in if lo \<le> n \<and> n \<le> hi then Some n else None)"

definition parse_i32 :: "string \<Rightarrow> int option" where
  "parse_i32 = parse_int True (- (2 ^ 31)) (2 ^ 31 - 1)"

definition parse_u16 :: "string \<Rightarrow> int option" where
  "parse_u16 = parse_int False 0 (2 ^ 16 - 1)"

definition parse_ext_fd :: "string \<Rightarrow> (string \<times> int) res" where
  "parse_ext_fd s =
     (case split_on colon s of
        [filename, fd] \<Rightarrow>
          rbind (ok_or (parse_i32 fd) Bad_Argument) (\<lambda>n. Inr (filename, n))
      | _ \<Rightarrow> Inl (Err Bad_Argument))"

definition parse_port_remap :: "string \<Rightarrow> (nat \<times> nat) res" where
  "parse_port_remap s =
     (case split_on colon s of
        [old_port, new_port] \<Rightarrow>
          rbind (ok_or (parse_u16 old_port) Bad_Argument) (\<lambda>a.
          rbind (ok_or (parse_u16 new_port) Bad_Argument) (\<lambda>b. Inr (nat a, nat b)))
      | _ \<Rightarrow> Inl (Err Bad_Argument))"

section \<open>Starting a command\<close>

datatype operation = Op_Capture | Op_Serve | Op_Extract

record opts =
  op_images_dir :: string
  op_shard_fds :: "int list"
  op_ext_file_fds :: "(string \<times> int) list"
  op_progress_fd :: "int option"
  op_tcp_listen_remap :: "(nat \<times> nat) list"
  op_memory_limit :: "nat option"
  op_operation :: operation

text \<open>The call \<open>do_main\<close> ends in: the directory, the progress descriptor and the pipes.\<close>

datatype 'p command =
    Run_Capture string int "'p list" "(string \<times> 'p) list"
  | Run_Extract string int "'p list" "(string \<times> 'p) list"
  | Run_Serve string int "'p list" "(string \<times> 'p) list" "(nat \<times> nat) list" "nat option"

text \<open>\<open>fd_obj\<close>: what each descriptor is open on; \<open>dup_stderr\<close>: the result of \<open>dup(2)\<close>.\<close>

definition do_main :: "(int \<Rightarrow> 'p fd_obj) \<Rightarrow> int res \<Rightarrow> opts \<Rightarrow> 'p command res" where
  "do_main fd_obj dup_stderr opts =
     rbind (case op_progress_fd opts of Some fd \<Rightarrow> Inr fd | None \<Rightarrow> dup_stderr) (\<lambda>progress_pipe.
     rbind (ensure (length (op_shard_fds opts) \<ge> 2) Bad_Argument) (\<lambda>_.
     rbind (rmap (\<lambda>fd. unix_pipe_new (fd_obj fd)) (op_shard_fds opts)) (\<lambda>shard_pipes.
     rbind (rmap (\<lambda>(filename, fd). rbind (unix_pipe_new (fd_obj fd)) (\<lambda>p. Inr (filename, p)))
              (op_ext_file_fds opts)) (\<lambda>ext_file_pipes.
     rbind (ensure (op_operation opts = Op_Serve \<or> op_tcp_listen_remap opts = []) Bad_Argument) (\<lambda>_.
     rbind (ensure (op_operation opts = Op_Serve \<or> op_memory_limit opts = None) Bad_Argument) (\<lambda>_.
       Inr (case op_operation opts of
              Op_Capture \<Rightarrow> Run_Capture (op_images_dir opts) progress_pipe shard_pipes ext_file_pipes
            | Op_Extract \<Rightarrow> Run_Extract (op_images_dir opts) progress_pipe shard_pipes ext_file_pipes
            | Op_Serve \<Rightarrow> Run_Serve (op_images_dir opts) progress_pipe shard_pipes ext_file_pipes
                            (op_tcp_listen_remap opts) (op_memory_limit opts))))))))"

text \<open>\<open>main\<close> prints an error and returns; a panic ends the process with status 101.\<close>

definition exit_status :: "'a res \<Rightarrow> nat option" where
  "exit_status r =
     (case r of
        Inr _ \<Rightarrow> Some 0
      | Inl (Err _) \<Rightarrow> Some 0
      | Inl (Panic _) \<Rightarrow> Some 101
      | Inl Diverge \<Rightarrow> None)"

section \<open>What the parsers accept\<close>

lemma split_on_ne [simp]: "split_on c s \<noteq> []"
proof (induction s)
  case (Cons x xs)
  then show ?case by (cases "split_on c xs") auto
qed simp

lemma split_on_single: "split_on c s = [p] \<longleftrightarrow> p = s \<and> c \<notin> set s"
proof (induction s arbitrary: p)
  case (Cons x xs)
  obtain q qs where q: "split_on c xs = q # qs" using split_on_ne [of c xs] by (cases "split_on c xs") auto
  show ?case
  proof (cases "x = c")
    case False
    have "split_on c (x # xs) = [p] \<longleftrightarrow> split_on c xs = [tl p] \<and> p \<noteq> [] \<and> hd p = x"
      using q False by (cases p) auto
    with Cons False show ?thesis by (cases p) auto
  qed auto
qed auto

lemma split_on_two:
  "split_on c s = [a, b] \<longleftrightarrow> s = a @ c # b \<and> c \<notin> set a \<and> c \<notin> set b"
proof (induction s arbitrary: a)
  case (Cons x xs)
  obtain q qs where q: "split_on c xs = q # qs" using split_on_ne [of c xs] by (cases "split_on c xs") auto
  show ?case
  proof (cases "x = c")
    case True
    then have "split_on c (x # xs) = [a, b] \<longleftrightarrow> a = [] \<and> split_on c xs = [b]" by auto
    also have "\<dots> \<longleftrightarrow> a = [] \<and> b = xs \<and> c \<notin> set xs" unfolding split_on_single ..
    finally show ?thesis using True by (cases a) auto
  next
    case False
    have "split_on c (x # xs) = [a, b] \<longleftrightarrow> split_on c xs = [tl a, b] \<and> a \<noteq> [] \<and> hd a = x"
      using q False by (cases a) auto
    with Cons False show ?thesis by (cases a) auto
  qed
qed simp

text \<open>Decimal notation.\<close>

function show_nat :: "nat \<Rightarrow> string" where
  "show_nat n = (if n < 10 then [char_of (48 + n)] else show_nat (n div 10) @ [char_of (48 + n mod 10)])"
  by pat_completeness auto
termination by (relation "measure id") auto

declare show_nat.simps [simp del]

definition show_int :: "int \<Rightarrow> string" where
  "show_int n = (if n < 0 then CHR ''-'' # show_nat (nat (- n)) else show_nat (nat n))"

lemma digit_of_char: "d < 10 \<Longrightarrow> digit_of (char_of (48 + d)) = Some (int d)"
  by (simp add: digit_of_def Let_def)

lemma parse_digits_append:
  "parse_digits acc (xs @ ys) = (case parse_digits acc xs of None \<Rightarrow> None | Some a \<Rightarrow> parse_digits a ys)"
  by (induction xs arbitrary: acc) (auto split: option.split)

lemma parse_show_nat: "parse_digits 0 (show_nat n) = Some (int n) \<and> show_nat n \<noteq> []"
proof (induction n rule: show_nat.induct)
  case (1 n)
  show ?case
  proof (cases "n < 10")
    case True
    then show ?thesis by (subst (1 2) show_nat.simps) (simp add: digit_of_char)
  next
    case False
    have "10 * int (n div 10) + int (n mod 10) = int n"
      by (metis mult_div_mod_eq of_nat_add of_nat_mult of_nat_numeral)
    with False 1 show ?thesis
      by (subst (1 2) show_nat.simps) (simp add: parse_digits_append digit_of_char)
  qed
qed

lemma show_nat_digits: "c \<in> set (show_nat n) \<Longrightarrow> digit_of c \<noteq> None"
proof (induction n rule: show_nat.induct)
  case (1 n)
  then show ?case
    by (subst (asm) (2) show_nat.simps) (auto simp: digit_of_char split: if_splits)
qed

lemma not_digits: "digit_of CHR ''+'' = None" "digit_of CHR ''-'' = None" "digit_of colon = None"
  by (simp_all add: digit_of_def)

lemma parse_show_int:
  assumes "lo \<le> n" and "n \<le> hi" and "is_signed \<or> 0 \<le> n"
  shows "parse_int is_signed lo hi (show_int n) = Some n"
proof (cases "n < 0")
  case True
  with assms parse_show_nat [of "nat (- n)"] show ?thesis
    by (simp add: show_int_def parse_int_def)
next
  case False
  obtain c cs where cs: "show_nat (nat n) = c # cs" using parse_show_nat by (cases "show_nat (nat n)") auto
  then have "digit_of c \<noteq> None" using show_nat_digits [of c "nat n"] by simp
  then have "c \<noteq> CHR ''+''" "c \<noteq> CHR ''-''" using not_digits by auto
  with False assms cs parse_show_nat [of "nat n"] show ?thesis
    by (simp add: show_int_def parse_int_def)
qed

lemma colon_show_int: "colon \<notin> set (show_int n)"
  using show_nat_digits [of colon] not_digits by (auto simp: show_int_def)

section \<open>Properties\<close>

text \<open>\<open>--ext-file-fds\<close> round trip: a file name without a colon and a descriptor in the range of
  \<open>i32\<close>, joined by a colon, are parsed back; a file name with a colon is rejected.\<close>

theorem ext_fd_roundtrip:
  assumes "- (2 ^ 31) \<le> fd" and "fd < 2 ^ 31"
  shows "parse_ext_fd (filename @ colon # show_int fd)
         = (if colon \<notin> set filename then Inr (filename, fd) else Inl (Err Bad_Argument))"
proof (cases "colon \<in> set filename")
  case False
  then have "split_on colon (filename @ colon # show_int fd) = [filename, show_int fd]"
    by (simp add: split_on_two colon_show_int)
  moreover have "parse_i32 (show_int fd) = Some fd"
    using assms by (simp add: parse_i32_def parse_show_int)
  ultimately show ?thesis using False by (simp add: parse_ext_fd_def ok_or_def)
next
  case True
  have "\<nexists>a b. split_on colon (filename @ colon # show_int fd) = [a, b]"
  proof
    assume "\<exists>a b. split_on colon (filename @ colon # show_int fd) = [a, b]"
    then obtain a b where "filename @ colon # show_int fd = a @ colon # b" "colon \<notin> set a" "colon \<notin> set b"
      unfolding split_on_two by blast
    with True show False by (auto simp: append_eq_append_conv2 Cons_eq_append_conv append_eq_Cons_conv)
  qed
  then show ?thesis using True by (auto simp: parse_ext_fd_def split: list.split)
qed

theorem ext_fd_roundtrip_witness: "parse_ext_fd ''fs.tar:5'' = Inr (''fs.tar'', 5)"
proof -
  have "show_int 5 = ''5''" by code_simp
  with ext_fd_roundtrip [of 5 "''fs.tar''"] show ?thesis by simp
qed

text \<open>\<open>--tcp-listen-remap\<close> round trip: two ports, joined by a colon, are parsed back exactly when
  both are below 65536.\<close>

theorem port_remap_roundtrip:
  "parse_port_remap (show_int (int a) @ colon # show_int (int b))
   = (if a < 2 ^ 16 \<and> b < 2 ^ 16 then Inr (a, b) else Inl (Err Bad_Argument))"
proof -
  have "split_on colon (show_int (int a) @ colon # show_int (int b)) = [show_int (int a), show_int (int b)]"
    by (simp add: split_on_two colon_show_int)
  moreover have "parse_u16 (show_int (int n)) = (if n < 2 ^ 16 then Some (int n) else None)" for n
  proof (cases "n < 2 ^ 16")
    case True
    then show ?thesis by (simp add: parse_u16_def parse_show_int)
  next
    case False
    have "show_nat n \<noteq> []" "parse_digits 0 (show_nat n) = Some (int n)" using parse_show_nat by auto
    moreover from this(1) have "digit_of (hd (show_nat n)) \<noteq> None" by (intro show_nat_digits [of _ n]) simp
    ultimately have nd: "hd (show_nat n) \<noteq> CHR ''+''" "hd (show_nat n) \<noteq> CHR ''-''" "show_nat n \<noteq> []"
      "parse_digits 0 (show_nat n) = Some (int n)"
      using not_digits by (auto simp del: not_digits)
    then show ?thesis using False
      by (auto simp: parse_u16_def parse_int_def show_int_def Let_def neq_Nil_conv)
  qed
  ultimately show ?thesis by (auto simp: parse_port_remap_def ok_or_def)
qed

lemma rmap_all: "rmap f xs = Inr ys \<Longrightarrow> x \<in> set xs \<Longrightarrow> \<exists>y. f x = Inr y"
  by (metis in_set_conv_nth rmap_Inr_nth)

lemma unix_pipe_new_Inr: "unix_pipe_new o' = Inr p \<longleftrightarrow> o' = Fd_Pipe p"
  by (auto simp: unix_pipe_new_def split: fd_obj.split)

text \<open>C39: a command starts only when its arguments fit it: at least two shard pipes, and the options of
  \<open>serve\<close> with \<open>serve\<close> alone; it gets exactly the pipes that were passed.\<close>

theorem started_command_is_valid:
  assumes "do_main obj dup_stderr opts = Inr cmd"
  shows "2 \<le> length (op_shard_fds opts)
   \<and> (op_operation opts \<noteq> Op_Serve \<longrightarrow> op_tcp_listen_remap opts = [] \<and> op_memory_limit opts = None)
   \<and> (\<forall>fd \<in> set (op_shard_fds opts) \<union> snd ` set (op_ext_file_fds opts). \<exists>p. obj fd = Fd_Pipe p)"
proof -
  from assms obtain ps es where
    r: "rmap (\<lambda>fd. unix_pipe_new (obj fd)) (op_shard_fds opts) = Inr ps"
      "rmap (\<lambda>(filename, fd). rbind (unix_pipe_new (obj fd)) (\<lambda>p. Inr (filename, p))) (op_ext_file_fds opts) = Inr es"
    and c: "2 \<le> length (op_shard_fds opts)"
      "op_operation opts = Op_Serve \<or> op_tcp_listen_remap opts = []"
      "op_operation opts = Op_Serve \<or> op_memory_limit opts = None"
    by (auto simp: do_main_def)
  have "\<exists>p. obj fd = Fd_Pipe p" if "fd \<in> set (op_shard_fds opts)" for fd
    using rmap_all [OF r(1) that] by (simp add: unix_pipe_new_Inr)
  moreover have "\<exists>p. obj (snd x) = Fd_Pipe p" if "x \<in> set (op_ext_file_fds opts)" for x
    using rmap_all [OF r(2) that] by (auto simp: unix_pipe_new_Inr split: prod.splits)
  ultimately show ?thesis using c by blast
qed

definition two_shards :: opts where
  "two_shards = \<lparr>op_images_dir = ''/img'', op_shard_fds = [3, 4], op_ext_file_fds = [(''fs.tar'', 5)],
     op_progress_fd = None, op_tcp_listen_remap = [], op_memory_limit = None, op_operation = Op_Extract\<rparr>"

theorem started_command_is_valid_witness:
  "do_main (\<lambda>fd. Fd_Pipe fd) (Inr 9) two_shards
     = Inr (Run_Extract ''/img'' 9 [3, 4] [(''fs.tar'', 5)])
   \<and> 2 \<le> length (op_shard_fds two_shards)"
proof -
  have r: "do_main (\<lambda>fd. Fd_Pipe fd) (Inr 9) two_shards
     = Inr (Run_Extract ''/img'' 9 [3, 4] [(''fs.tar'', 5)])"
    by (simp add: do_main_def two_shards_def unix_pipe_new_def)
  with started_command_is_valid [OF r] show ?thesis by simp
qed

text \<open>A failed start is not visible in the exit status: with fewer than two shard pipes nothing runs,
  and the process still ends with status 0.\<close>

theorem too_few_shards_exit_0:
  assumes "length (op_shard_fds opts) < 2" and "op_progress_fd opts \<noteq> None"
  shows "do_main obj dup_stderr opts = Inl (Err Bad_Argument)
       \<and> exit_status (do_main obj dup_stderr opts) = Some 0"
  using assms by (auto simp: do_main_def exit_status_def ensure_def)

theorem too_few_shards_exit_0_witness:
  "exit_status (do_main (\<lambda>fd. Fd_Pipe fd) (Inr 9) (two_shards\<lparr>op_shard_fds := [3], op_progress_fd := Some 2\<rparr>)) = Some 0"
  by (rule too_few_shards_exit_0 [THEN conjunct2]) simp_all

end
