(* ===== verification/Spec2Isabelle.thy ===== *)
theory Spec2Isabelle
  imports Threads_Fail Live_Migration Commands Mem_File Truncation Sockets Serve_Replies Cli
begin

text \<open>
  \<^bold>\<open>cedana-image-streamer\<close>, a Rust program that moves a checkpoint image between a client
  (CRIU) and a set of pipes, the shards. This library models its three commands and everything
  they are made of, and proves what they promise.

  \<^bold>\<open>The program.\<close> \<open>capture\<close> (\<open>src/capture.rs\<close>) takes the client's files from pipes, cuts
  them into chunks and writes each chunk, after a marker, to one of the shards: the small files in
  order to the first, the chunks of large files to whichever other shard has most room, with a
  sequence number. \<open>extract\<close> (\<open>src/extract.rs\<close>) reads the shards, puts the chunks back into order
  and writes the files through an image store. \<open>serve\<close> does the same into a store that hands the
  chunks to a second thread, \<open>serve_img\<close>, which answers the client's requests for files.
  \<open>src/main.rs\<close> parses the arguments and calls one of the three.

  \<^bold>\<open>The theories\<close>, in the order of their imports; each models the file of the repository it names:

  \<^item> \<open>Prelude\<close>: results (\<open>res\<close>: an error, a panic, or running on forever, as values), integers at
    their width, lemmas the others share.
  \<^item> \<open>Bytes\<close>: streams and the framing of \<open>util.rs\<close> (\<open>pb_write\<close>, \<open>pb_read_next\<close>); the locale
    \<open>msg_codec\<close> is what the code relies on of a protobuf codec. \<open>Proto_Marker\<close>: the marker message
    of \<open>proto/image.proto\<close> and a wire format that meets the locale.
  \<^item> \<open>Filenames\<close>: \<open>is_small_file\<close> and \<open>filter_files\<close> of \<open>util.rs\<close>. \<open>Ord_By\<close>: the orderings of
    \<open>ord_by.rs\<close> and the binary heap; the locale \<open>total_cmp\<close> is interpreted on both its uses.
  \<^item> \<open>Unix_Pipe\<close>: \<open>unix_pipe.rs\<close>.
  \<^item> \<open>Capture\<close>: the serializer of \<open>capture.rs\<close>. \<open>Capture_Log\<close> shows that what it writes is a log of
    items given by a specification (\<open>run_items\<close>); \<open>Capture_Total\<close> that it does not fail.
    \<open>Capture_Cmd\<close>: the event loop of \<open>capture\<close>, as a run of the serializer; \<open>Capture_Ends\<close>: it ends
    on finite input.
  \<^item> \<open>Image_Store\<close>: the traits \<open>ImageStore\<close> and \<open>ImageFile\<close> of \<open>image_store/mod.rs\<close> as a record of
    operations, and as the locale \<open>image_store\<close>, the contract the deserializer relies on:
    creating, writing and inserting a file changes that file as it should and no other, or fails in
    one of the ways the instance admits. \<open>Mem_Store\<close> (\<open>mem.rs\<close>, \<open>mmap_buf.rs\<close>), \<open>Fs_Store\<close>
    (\<open>fs.rs\<close>) and \<open>Parallel_Store\<close> (\<open>fs_parallel.rs\<close>) interpret it; \<open>Overlay_Store\<close>
    (\<open>fs_overlay.rs\<close>) shows that an overlay over any store that meets it meets it. \<open>Mem_File\<close>: the
    type of the files in memory, and the \<open>Write\<close> instance.
  \<^item> \<open>Extract\<close>: the deserializer of \<open>extract.rs\<close>. \<open>Play\<close> defines what a log of items does to a
    store; \<open>Simulation\<close> and \<open>Drain_Order\<close> show that the deserializer plays the log in order, however
    the chunks are spread and whatever \<open>poll()\<close> reports; \<open>Roundtrip\<close> puts capture and extraction
    together inside the locale. \<open>Termination\<close>: extraction ends on any input. \<open>Extract_Cmd\<close>: \<open>extract\<close>.
    \<open>Commands\<close>: \<open>capture\<close> and then \<open>extract\<close>.
  \<^item> \<open>Semaphore\<close> (\<open>semaphore.rs\<close>), \<open>Par_Budget\<close>: the memory limit of \<open>serve\<close>.
  \<^item> \<open>Poller\<close> (\<open>poller.rs\<close>), \<open>Connection\<close> (\<open>connection.rs\<close>, \<open>recv_fd\<close>, \<open>UnixPipe::new\<close>),
    \<open>Image_Patcher\<close> (\<open>image_patcher.rs\<close>).
  \<^item> \<open>Serve\<close>: \<open>serve_img\<close>. \<open>Serve_Flow\<close> has the invariant of its loop: what a pipe has got, what
    waits in the store and what was released add up to what was received. \<open>Serve_Replies\<close>: its
    answers. \<open>Serve_Live\<close>: it ends. \<open>Serve_Cmd\<close>: \<open>serve\<close>, and what the client gets. \<open>Par_Live\<close>: it
    returns.
  \<^item> \<open>Store_Actions\<close>: the deserializing thread as a list of actions on the channel and the semaphore.
    \<open>Serve_Threads\<close>: the step relation of the two threads. \<open>Threads_Memory\<close>: where the memory is in
    every state they reach; \<open>Threads_Image\<close>: what the client gets in every interleaving;
    \<open>Threads_Wait\<close> and \<open>Threads_Blocked\<close>: when they wait for each other, and for what. \<open>Threads_Fail\<close>:
    rounds of \<open>serve_img\<close> that fail, and the deserializer that is left behind.
  \<^item> \<open>Sockets\<close>: \<open>Listener\<close> of \<open>connection.rs\<close>. \<open>Progress\<close> and \<open>Extract_Stats\<close>: \<open>emit_progress\<close>,
    \<open>Stats\<close> and what each command reports; the locale \<open>exact_writes\<close> is what the counts rely on.
    \<open>Truncation\<close>: an image whose shards arrive incomplete is not extracted as if it were whole.
    \<open>Live_Migration\<close>: a capture and an extraction with bounded pipes between them.
  \<^item> \<open>Cli\<close>: \<open>main.rs\<close>. \<open>Demo\<close>: a concrete image and environments, for the witnesses.

  \<^bold>\<open>State.\<close> A Rust struct is a record with the fields' names; \<open>&mut self\<close> is the record returned
  updated. A binary heap is a list with its greatest element picked by index; a hash map an
  association list or a map. \<open>Result\<close> and panics are \<open>res\<close>. File descriptors and sockets are
  readers and sinks: bytes to come, bytes written, and how much more can be written.

  \<^bold>\<open>What comes from outside\<close> (protobuf, JSON, regex, slab, epoll, the kernel's answers to \<open>splice\<close>,
  \<open>poll\<close>, \<open>FIONREAD\<close>, \<open>F_SETPIPE_SZ\<close>) is a parameter: functions of the number of the call in the
  records \<open>cenv\<close>, \<open>denv\<close>, \<open>penv\<close>, \<open>serve_env\<close>, \<open>capture_params\<close> and \<open>serve_params\<close>, so that every call
  may be answered differently. Hypotheses on them state documented behaviour, and each property
  with hypotheses has a witness with concrete functions.

  \<^bold>\<open>Two threads.\<close> \<open>serve\<close> and \<open>serve_img\<close> share two channels and the semaphore. Each is modelled as a
  function; what it sees of the other is in its parameters: \<open>sv_recv\<close>, the messages the thread finds
  each time it looks, and \<open>released\<close> and \<open>wakeups\<close>, the amounts given back before and during each
  \<open>acquire\<close>. A theorem for all such parameters covers every interleaving; \<open>channel_view\<close> says that
  what one thread receives is a first part of what the other sends. \<open>threads_step\<close> is the same
  system as one step relation: a step is one \<open>acquire\<close>, one \<open>send\<close>, the dropping of the senders, or one
  round of \<open>serve_img\<close>'s loop, which sees what is on the channel at its start. \<open>deserializer_actions\<close>
  and \<open>sequential_interleaving\<close> connect the two views: what the deserializer does is the list of
  actions the relation starts with, and running it before the loop is one of the interleavings.
  \<open>command_step\<close> adds the rounds that return an error, with what they gave back until then.

  \<^bold>\<open>Fuel.\<close> Loops that depend on outside data take fuel, and \<open>Diverge\<close> is what they return without it.
  \<open>drain_loop\<close> gets one unit for each byte that is ready, \<open>mem_write_loop\<close> one for each byte,
  \<open>patch_loop\<close> one for each byte of the file; these are shown to suffice. The loops of the
  deserializer need one for each item of the image and one for each shard (\<open>image_fits\<close>), and one
  for each byte and shard on arbitrary input; the serving loop one for each request and two more.
  The event loops of \<open>capture\<close> and \<open>serve\<close> may run as long as their clients stay; statements about
  them hold for every amount of fuel with which they return, and \<open>serve_completes\<close> says that they do.

  \<^bold>\<open>Not modelled\<close>: the result of \<open>set_capacity\<close> where the code ignores it, the messages on standard
  error, unmapping memory, \<open>build.rs\<close>, and structopt's parsing of the command line. The commands take
  the results of \<open>bind\<close> and \<open>accept\<close> as parameters; \<open>Sockets\<close> models them by themselves. Reports are
  functions of the state in which a command returns, and leave out the time they are sent at. In the
  serve command the deserializer's copies of the channel senders are taken to be dropped when
  \<open>close_senders\<close> is called, which is so for images whose files are all complete.
\<close>

section \<open>Properties\<close>

text \<open>C2: capture followed by extraction into the memory store is lossless. For every run in
  which the client sends files and closes their pipes, and every kernel that keeps moving bytes,
  the serializer returns, and the deserializer, given its shards in any order, returns the list
  of file names, the end-of-image mark, and for every file exactly the bytes that were captured,
  and no other file.\<close>

theorem capture_then_extract:
  assumes k: "capture_env_ok k" and shs: "2 \<le> length shs" "\<forall>sh \<in> set shs. room (sh_pipe sh) = None"
      "fresh_shards shs"
    and run: "run_fits k es" "wf_run es" "names_ok es" "image_fits k cap es (length shs) fuel"
    and codec: "msg_codec (pb_enc k) (pb_dec e) marker_ok"
    and json: "of_json e (to_json k (finished_names es)) = Some (finished_names es)"
    and poll: "poll_ok (\<lambda>_. False) e" and page: "page < MAX_LARGE_CHUNK_SIZE"
  shows "\<exists>s. capture_events k shs cap es = Inr s
    \<and> (\<forall>pipes. mset pipes = mset (map pipe_of (shards s)) \<longrightarrow>
        (\<exists>d. extract_image e (mem_ops page) fuel [] (pipe_of (small_shard s) # pipes)
               = Inr (finished_names es, d)
           \<and> image_eof d
           \<and> (\<forall>f. f \<noteq> METADATA_FILE \<longrightarrow>
                mem_stored (img_store d) f
                = (if f \<in> fst ` set es then Some (file_content f es) else None))))"
proof -
  have nm: "\<forall>e \<in> set es. length (fst e) \<le> 10000" using run by (simp add: names_ok_def)
  obtain s where s: "capture_events k shs cap es = Inr s"
    using capture_events_total [OF k shs(1,2) run(1) nm] by blast
  note st = image_stream.intro [OF mem.image_store_axioms [of page] codec]
  have "\<exists>d. extract_image e (mem_ops page) fuel [] (pipe_of (small_shard s) # pipes)
               = Inr (finished_names es, d) \<and> image_eof d
             \<and> (\<forall>f. f \<noteq> METADATA_FILE \<longrightarrow>
                  mem_stored (img_store d) f
                  = (if f \<in> fst ` set es then Some (file_content f es) else None))"
    if pipes: "mset pipes = mset (map pipe_of (shards s))" for pipes
  proof -
    have ready: "image_stream.store_ready (mem_inv page) mem_unused (\<lambda>_ _. False) k es []"
      unfolding image_stream.store_ready_def [OF st] using page by simp
    from image_stream.extract_capture [OF st s shs(3) run(1,4,2,3) refl refl poll json ready pipes]
    obtain d where "extract_image e (mem_ops page) fuel [] (pipe_of (small_shard s) # pipes)
        = Inr (finished_names es, d)"
      "image_stream.extracted (mem_inv page) mem_stored (mem_stored []) es d"
      by (auto simp: holds_or_total)
    then show ?thesis
      unfolding image_stream.extracted_def [OF st] by (intro exI [of _ d]) (auto simp: mem_stored_def)
  qed
  with s show ?thesis by blast
qed

theorem capture_then_extract_witness:
  "\<exists>s. capture_events demo_cenv demo_shards 64 demo_run = Inr s
    \<and> (\<forall>pipes. mset pipes = mset (map pipe_of (shards s)) \<longrightarrow>
        (\<exists>d. extract_image demo_denv (mem_ops 4096) 100 [] (pipe_of (small_shard s) # pipes)
               = Inr ([''core-1.img'', ''pages-1.img''], d)
           \<and> image_eof d
           \<and> (\<forall>f. f \<noteq> METADATA_FILE \<longrightarrow>
                mem_stored (img_store d) f
                = (if f \<in> fst ` set demo_run then Some (file_content f demo_run) else None))))"
  using capture_then_extract [OF demo_capture_env_ok demo_shards_ok(1-3) demo_run_fits demo_wf_run
      demo_names_ok demo_image_fits [folded demo_shards_ok(4)] demo_codec demo_json demo_poll_ok, of 4096]
  by (simp add: demo_names_finished MAX_LARGE_CHUNK_SIZE_def MB_def)

text \<open>C5: capture followed by the extract command on disk is lossless: if the command returns, every
  captured file is in the images directory with exactly the bytes that were captured, or was
  streamed in full to the pipe the command line gave for it. The command fails only when the disk
  or such a pipe does; it never panics, runs on or reports a broken image.\<close>

theorem extract_to_disk:
  assumes cap: "capture_events k shs cap es = Inr s" and fresh: "fresh_shards shs"
    and run: "run_fits k es" "wf_run es" "names_ok es" "image_fits k cap es (length shs) fuel"
    and libs: "msg_codec (pb_enc k) (pb_dec e) marker_ok" "poll_ok io_failure e"
      "of_json e (to_json k (finished_names es)) = Some (finished_names es)"
    and ext: "\<forall>x \<in> set ext. written (snd x) = []"
    and plain: "\<forall>f \<in> fst ` set es. f \<notin> fst ` set ext \<longrightarrow> plain_name f"
    and pipes: "mset pipes = mset (map pipe_of (shards s))" and dir: "mkdir (images_dir disk)"
  shows "holds_or io_failure (extract_cmd e fuel ask mkdir disk (pipe_of (small_shard s) # pipes) ext)
    (\<lambda>st. \<forall>f \<in> fst ` set es.
       (if f \<in> fst ` set ext then map_of (delivered st) f
        else files (underlying st) (path_join (images_dir disk) f)) = Some (file_content f es))"
  using extract_cmd_capture [OF cap fresh run libs ext plain pipes, of mkdir disk ask] dir by simp

theorem extract_to_disk_witness:
  "\<exists>s. capture_events demo_cenv demo_shards 64 demo_run = Inr s
    \<and> holds_or io_failure (extract_cmd demo_denv 100 (\<lambda>_ _. 3) (\<lambda>_. True) demo_disk
        (pipe_of (small_shard s) # map pipe_of (shards s)) [(''pages-1.img'', demo_pipe)])
      (\<lambda>st. map_of (delivered st) ''pages-1.img'' = Some [4, 5, 6, 7, 8, 9]
          \<and> files (underlying st) ''/img/core-1.img'' = Some [1, 2, 3])"
proof -
  obtain s where s: "capture_events demo_cenv demo_shards 64 demo_run = Inr s" using demo_captured by blast
  have "holds_or io_failure (extract_cmd demo_denv 100 (\<lambda>_ _. 3) (\<lambda>_. True) demo_disk
        (pipe_of (small_shard s) # map pipe_of (shards s)) [(''pages-1.img'', demo_pipe)])
      (\<lambda>st. \<forall>f \<in> fst ` set demo_run.
       (if f \<in> fst ` set [(''pages-1.img'', demo_pipe)] then map_of (delivered st) f
        else files (underlying st) (path_join (images_dir demo_disk) f)) = Some (file_content f demo_run))"
    by (rule extract_to_disk [OF s demo_shards_ok(3) demo_run_fits demo_wf_run demo_names_ok
          demo_image_fits [folded demo_shards_ok(4)] demo_codec demo_poll_ok demo_json])
       (simp_all add: demo_pipe_def demo_run_def plain_name_def)
  then show ?thesis
    using s by (intro exI [of _ s]) (auto elim!: holds_or_mono simp: demo_run_def demo_disk_def path_join_def)
qed

text \<open>C16: the extract command returns. When the disk works and no external file is asked for, the
  command ends without an error for every captured image, whatever order the shards are passed in
  and however \<open>poll()\<close> schedules them, and every captured file is on the disk.\<close>

theorem extract_returns:
  assumes cap: "capture_events k shs cap es = Inr s" and fresh: "fresh_shards shs"
    and run: "run_fits k es" "wf_run es" "names_ok es" "image_fits k cap es (length shs) fuel"
    and libs: "msg_codec (pb_enc k) (pb_dec e) marker_ok" "poll_ok (\<lambda>_. False) e"
      "of_json e (to_json k (finished_names es)) = Some (finished_names es)"
    and plain: "\<forall>f \<in> fst ` set es. plain_name f"
    and pipes: "mset pipes = mset (map pipe_of (shards s))"
    and disk: "mkdir (images_dir disk)" "disk_works disk"
  shows "\<exists>st. extract_cmd e fuel ask mkdir disk (pipe_of (small_shard s) # pipes) [] = Inr st
    \<and> (\<forall>f \<in> fst ` set es.
         files (underlying st) (path_join (images_dir disk) f) = Some (file_content f es))"
proof -
  from drain_shards_returns [OF cap fresh run libs plain pipes disk(2), of ask]
  obtain st where "drain_shards_into_img_store e fs_ops fuel ask disk (pipe_of (small_shard s) # pipes) [] = Inr st"
    "\<forall>f \<in> fst ` set es. files (underlying st) (path_join (images_dir disk) f) = Some (file_content f es)" by blast
  with disk(1) show ?thesis by (simp add: extract_cmd_def)
qed

theorem extract_returns_witness:
  "\<exists>s st. capture_events demo_cenv demo_shards 64 demo_run = Inr s
    \<and> extract_cmd demo_denv 100 (\<lambda>_ _. 3) (\<lambda>_. True) demo_disk
        (pipe_of (small_shard s) # map pipe_of (shards s)) [] = Inr st
    \<and> files (underlying st) ''/img/core-1.img'' = Some [1, 2, 3]
    \<and> files (underlying st) ''/img/pages-1.img'' = Some [4, 5, 6, 7, 8, 9]"
proof -
  obtain s where s: "capture_events demo_cenv demo_shards 64 demo_run = Inr s" using demo_captured by blast
  have "\<exists>st. extract_cmd demo_denv 100 (\<lambda>_ _. 3) (\<lambda>_. True) demo_disk
        (pipe_of (small_shard s) # map pipe_of (shards s)) [] = Inr st
    \<and> (\<forall>f \<in> fst ` set demo_run.
         files (underlying st) (path_join (images_dir demo_disk) f) = Some (file_content f demo_run))"
    by (rule extract_returns [OF s demo_shards_ok(3) demo_run_fits demo_wf_run demo_names_ok
          demo_image_fits [folded demo_shards_ok(4)] demo_codec demo_poll_ok demo_json])
       (simp_all add: demo_run_def plain_name_def disk_works_def demo_disk_def)
  with s show ?thesis by (auto simp: demo_run_def demo_disk_def path_join_def)
qed







text \<open>C18: the image format. A capture writes, to the small shard, the markers and payloads of the small
  files in the order they were read, numbered from 0, followed by the list of finished files; and
  spread over the other shards, each marker on one of them, those of the large files, numbered
  from 0 across the shards, followed by the end-of-image mark.\<close>

theorem capture_image_format:
  assumes "capture_events k shs cap es = Inr s" and "fresh_shards shs" and "run_fits k es"
  shows "written (sh_pipe (small_shard s)) = stream_from (pb_enc k) 0 (small_items k cap es)
   \<and> (\<exists>placed. map snd placed = large_items k cap es \<and> (\<forall>x \<in> set placed. fst x < length (shards s))
        \<and> (\<forall>j < length (shards s). written (sh_pipe (shards s ! j)) = shard_from (pb_enc k) j 0 placed))"
  using capture_logged [OF assms] by (auto simp: logged_def)

theorem capture_image_format_witness:
  "\<exists>s. capture_events demo_cenv demo_shards 64 demo_run = Inr s
    \<and> written (sh_pipe (small_shard s)) = stream_from enc_marker 0
        ([(Filename ''core-1.img'', []), (FileData 3, [1, 2, 3]), (Filename ''core-1.img'', []), (FileEof True, [])]
         @ metadata_items demo_cenv [''core-1.img'', ''pages-1.img''])"
proof -
  obtain s where s: "capture_events demo_cenv demo_shards 64 demo_run = Inr s" using demo_captured by blast
  from capture_image_format [OF this demo_shards_ok(3) demo_run_fits] s show ?thesis
    by (intro exI [of _ s]) (simp add: small_items_def demo_items demo_names_finished, simp add: demo_cenv_def)
qed

text \<open>C21: the serializer never fails and never stops on its own: with at least two shards whose readers
  keep up and file names of reasonable length, every run of events is captured.\<close>

theorem capture_returns:
  assumes "capture_env_ok k" and "2 \<le> length shs" and "\<forall>sh \<in> set shs. room (sh_pipe sh) = None"
    and "run_fits k es" and "\<forall>e \<in> set es. length (fst e) \<le> 10000"
  shows "\<exists>s. capture_events k shs cap es = Inr s"
  by (rule capture_events_total [OF assms])

theorem capture_returns_witness: "\<exists>s. capture_events demo_cenv demo_shards 1000 demo_run = Inr s"
  using demo_names_ok
  by (intro capture_returns [OF demo_capture_env_ok demo_shards_ok(1,2) demo_run_fits])
     (simp add: names_ok_def)

text \<open>C7: the extract command ends on every input. Whatever bytes the shards hold, truncated, corrupted or
  malicious, and whatever \<open>poll()\<close> reports, it returns a result, an error or a panic after at most
  one round for every byte of the shards and one for each shard.\<close>

theorem extract_command_ends:
  assumes "\<And>n k. poll_ready e n k \<noteq> Inl Diverge"
    and "sum_list (map (\<lambda>p. Suc (length (avail p))) pipes) < fuel"
  shows "extract_cmd e fuel ask mkdir disk pipes ext \<noteq> Inl Diverge"
  by (rule extract_cmd_ends [OF assms])

theorem extract_command_ends_witness:
  "extract_cmd demo_denv 13 (\<lambda>_ _. 3) (\<lambda>_. True) demo_disk
     [\<lparr>avail = [1, 2, 3, 4, 5, 6, 7, 8], broken = False\<rparr>, \<lparr>avail = [9, 9], broken = True\<rparr>]
     [(''extra.tar'', demo_pipe)] \<noteq> Inl Diverge"
  by (rule extract_command_ends) (simp_all add: demo_denv_def)

text \<open>So does extraction into the memory store.\<close>

theorem extraction_ends_on_any_input:
  assumes "mem_inv page st" and "\<And>n k. poll_ready e n k \<noteq> Inl Diverge"
    and "sum_list (map (\<lambda>p. Suc (length (avail p))) pipes) < fuel"
  shows "extract_image e (mem_ops page) fuel st pipes \<noteq> Inl Diverge"
  by (rule mem_progress.extract_image_ends [OF assms])

theorem extraction_ends_on_any_input_witness:
  "extract_image demo_denv (mem_ops 4096) 13 []
     [\<lparr>avail = [1, 2, 3, 4, 5, 6, 7, 8], broken = False\<rparr>, \<lparr>avail = [9, 9], broken = True\<rparr>] \<noteq> Inl Diverge"
  by (rule extraction_ends_on_any_input) (simp_all add: demo_denv_def MAX_LARGE_CHUNK_SIZE_def MB_def)

end
